(* ===== verification/Prelude.thy ===== *)
theory Prelude
  imports Complex_Main "HOL-Library.AList"
begin

text \<open>
  The shared base of the development: error results as sums, Go maps as association
  lists, Go byte strings as character lists, and the generic facts about lists, decimal
  and hexadecimal text that the component theories use.

  \<^item> A Go function with results \<open>(T, error)\<close> is a function into \<open>'e + 'a\<close>:
    \<open>Inl e\<close> is a non-nil error and \<open>Inr x\<close> the result with a nil error.
  \<^item> A Go \<open>map[string]T\<close> is an association list with distinct keys. The order of the list
    stands for the iteration order of one \<open>range\<close> loop, which Go leaves unspecified: what is
    proved for every list is proved for every iteration order.
  \<^item> A Go \<open>string\<close> and a Go \<open>[]byte\<close> are both \<open>char list\<close>, one character per byte.
\<close>

named_theorems go_defs "definitional equations of the modelled Go functions"
named_theorems go_splits_facts "facts that read off what a successful call has checked"

type_synonym bytes = "char list"
type_synonym 'v gomap = "(string \<times> 'v) list"

section \<open>Time\<close>

text \<open>A wall-clock reading: nanoseconds since the Unix epoch. \<open>Unix()\<close> is the second it lies in; the zero
  \<open>time.Time\<close> is the first instant of year 1.\<close>

type_synonym gotime = int

definition unix :: "gotime \<Rightarrow> int" where
  "unix t = t div 10 ^ 9"

definition is_zero_time :: "gotime \<Rightarrow> bool" where
  "is_zero_time t = (t = - 62135596800 * 10 ^ 9)"

text \<open>The value of a 64-bit signed result, Go's division on it, and \<open>time.Unix(sec, 0)\<close>, which keeps
  the seconds since the year 1 in such an integer.\<close>

definition wrap64 :: "int \<Rightarrow> int" where
  "wrap64 n = (n + 2 ^ 63) mod 2 ^ 64 - 2 ^ 63"

definition int64 :: "int \<Rightarrow> bool" where
  "int64 n = (- (2 ^ 63) \<le> n \<and> n < 2 ^ 63)"

lemma wrap64_id [simp]: "- 9223372036854775808 \<le> n \<Longrightarrow> n < 9223372036854775808 \<Longrightarrow> wrap64 n = n"
  by (simp add: wrap64_def)

lemma int64_wrap64 [simp]: "int64 (wrap64 n)"
  using pos_mod_bound[of "2 ^ 64 :: int" "n + 2 ^ 63"] pos_mod_sign[of "2 ^ 64 :: int" "n + 2 ^ 63"]
  by (simp add: wrap64_def int64_def)

definition go_quot :: "int \<Rightarrow> int \<Rightarrow> int" where
  "go_quot a b = (if (0 \<le> a) = (0 \<le> b) then \<bar>a\<bar> div \<bar>b\<bar> else - (\<bar>a\<bar> div \<bar>b\<bar>))"

definition time_Unix :: "int \<Rightarrow> gotime" where
  "time_Unix sec = (wrap64 (sec + 62135596800) - 62135596800) * 10 ^ 9"

lemma time_Unix_id: "- (2 ^ 62) \<le> sec \<Longrightarrow> sec \<le> 2 ^ 62 \<Longrightarrow> time_Unix sec = sec * 10 ^ 9"
  by (simp add: time_Unix_def)

section \<open>Results\<close>

definition is_ok :: "'e + 'a \<Rightarrow> bool" where
  "is_ok r = (case r of Inl _ \<Rightarrow> False | Inr _ \<Rightarrow> True)"

lemma is_ok_simps [simp]: "is_ok (Inl e) = False" "is_ok (Inr x) = True"
  by (simp_all add: is_ok_def)

lemma is_okE:
  assumes "is_ok r"
  obtains x where "r = Inr x"
  using assms by (cases r) auto

lemma is_ok_iff: "is_ok r \<longleftrightarrow> (\<exists>x. r = Inr x)"
  by (cases r) auto

lemma is_ok_unit: "is_ok (r :: 'e + unit) \<longleftrightarrow> r = Inr ()"
  by (cases r) auto

text \<open>Loops that stop at the first error: a check over a list, and a conversion of a list.\<close>

fun first_err :: "('a \<Rightarrow> 'e + unit) \<Rightarrow> 'a list \<Rightarrow> 'e + unit" where
  "first_err f [] = Inr ()"
| "first_err f (x # xs) = (case f x of Inl e \<Rightarrow> Inl e | Inr _ \<Rightarrow> first_err f xs)"

fun map_err :: "('a \<Rightarrow> 'e + 'b) \<Rightarrow> 'a list \<Rightarrow> 'e + 'b list" where
  "map_err f [] = Inr []"
| "map_err f (x # xs) =
     (case f x of
        Inl e \<Rightarrow> Inl e
      | Inr y \<Rightarrow> (case map_err f xs of Inl e \<Rightarrow> Inl e | Inr ys \<Rightarrow> Inr (y # ys)))"

text \<open>Sequencing of fallible steps: a step's error ends the function.\<close>

definition bindr :: "'e + 'a \<Rightarrow> ('a \<Rightarrow> 'e + 'b) \<Rightarrow> 'e + 'b" where
  "bindr r f = (case r of Inl e \<Rightarrow> Inl e | Inr x \<Rightarrow> f x)"

definition need :: "'e \<Rightarrow> bool \<Rightarrow> 'e + unit" where
  "need e b = (if b then Inr () else Inl e)"

definition some_or :: "'e \<Rightarrow> 'a option \<Rightarrow> 'e + 'a" where
  "some_or e m = (case m of None \<Rightarrow> Inl e | Some x \<Rightarrow> Inr x)"

definition wrap_err :: "('e \<Rightarrow> 'f) \<Rightarrow> 'e + 'a \<Rightarrow> 'f + 'a" where
  "wrap_err w r = (case r of Inl e \<Rightarrow> Inl (w e) | Inr x \<Rightarrow> Inr x)"

lemma bindr_simps [simp]: "bindr (Inl e) f = Inl e" "bindr (Inr x) f = f x"
  by (simp_all add: bindr_def)

lemma bindr_Inr [simp]: "bindr r f = Inr y \<longleftrightarrow> (\<exists>x. r = Inr x \<and> f x = Inr y)"
  by (cases r) simp_all

lemma bindr_cong [fundef_cong]:
  "r = r' \<Longrightarrow> (\<And>x. r' = Inr x \<Longrightarrow> f x = f' x) \<Longrightarrow> bindr r f = bindr r' f'"
  by (cases r') simp_all

lemma need_Inr [simp]: "need e b = Inr u \<longleftrightarrow> b" "need e True = Inr ()" "need e False = Inl e"
  by (simp_all add: need_def)

lemma some_or_Inr [simp]:
  "some_or e m = Inr x \<longleftrightarrow> m = Some x" "some_or e None = Inl e" "some_or e (Some x) = Inr x"
  by (cases m) (simp_all add: some_or_def)

lemma wrap_err_Inr [simp]:
  "wrap_err w r = Inr x \<longleftrightarrow> r = Inr x" "wrap_err w (Inr x) = Inr x" "wrap_err w (Inl e) = Inl (w e)"
  by (cases r) (simp_all add: wrap_err_def)

lemma first_err_cong [fundef_cong]:
  "xs = ys \<Longrightarrow> (\<And>x. x \<in> set ys \<Longrightarrow> f x = g x) \<Longrightarrow> first_err f xs = first_err g ys"
  by (induction ys arbitrary: xs) (auto split: sum.split)

lemma map_err_cong [fundef_cong]:
  "xs = ys \<Longrightarrow> (\<And>x. x \<in> set ys \<Longrightarrow> f x = g x) \<Longrightarrow> map_err f xs = map_err g ys"
  by (induction ys arbitrary: xs) (auto split: sum.split)

lemma is_ok_first_err: "is_ok (first_err f xs) \<longleftrightarrow> (\<forall>x \<in> set xs. is_ok (f x))"
  by (induction xs) (auto split: sum.split)

lemma first_err_Inr: "first_err f xs = Inr u \<longleftrightarrow> (\<forall>x \<in> set xs. f x = Inr ())"
  by (induction xs) (auto split: sum.split)

lemma map_err_Inr: "map_err f xs = Inr ys \<longleftrightarrow> list_all2 (\<lambda>x y. f x = Inr y) xs ys"
proof (induction xs arbitrary: ys)
  case (Cons x xs)
  show ?case by (cases ys) (auto simp: Cons.IH[symmetric] split: sum.split)
qed auto

section \<open>Go maps\<close>

definition wf_map :: "'v gomap \<Rightarrow> bool" where
  "wf_map m = distinct (map fst m)"

definition has_key :: "'v gomap \<Rightarrow> string \<Rightarrow> bool" where
  "has_key m k = (map_of m k \<noteq> None)"

definition put :: "string \<Rightarrow> 'v \<Rightarrow> 'v gomap \<Rightarrow> 'v gomap" where
  "put k v m = AList.update k v m"

lemma map_of_put [simp]: "map_of (put k v m) = (map_of m)(k \<mapsto> v)"
  by (simp add: put_def update_conv')

lemma wf_map_put [simp]: "wf_map m \<Longrightarrow> wf_map (put k v m)"
  by (simp add: wf_map_def put_def distinct_update)

lemma wf_map_Nil [simp]: "wf_map []"
  by (simp add: wf_map_def)

lemma wf_map_Cons: "wf_map ((k, v) # m) \<longleftrightarrow> k \<notin> fst ` set m \<and> wf_map m"
  by (simp add: wf_map_def)

lemma wf_map_lookup: "wf_map m \<Longrightarrow> (k, v) \<in> set m \<longleftrightarrow> map_of m k = Some v"
  by (simp add: wf_map_def)

lemma has_key_iff: "has_key m k \<longleftrightarrow> k \<in> fst ` set m"
  unfolding has_key_def
  by (metis map_of_eq_None_iff)

lemma has_keyI [simp]: "map_of m k = Some v \<Longrightarrow> has_key m k"
  by (simp add: has_key_def)

lemma wf_map_same_keys:
  assumes "wf_map a" and "wf_map b" and "length a = length b"
    and "fst ` set a \<subseteq> fst ` set b"
  shows "fst ` set a = fst ` set b"
proof -
  have "card (fst ` set m) = length m" if "wf_map m" for m :: "'v gomap"
    using that distinct_card[of "map fst m"] by (simp add: wf_map_def)
  with assms(1-3) have "card (set (map fst a)) = card (set (map fst b))"
    by (metis distinct_card length_map wf_map_def)
  with assms(4) show ?thesis
    by (metis List.finite_set card_subset_eq set_map)
qed

section \<open>Decimal text\<close>

definition is_digit :: "char \<Rightarrow> bool" where
  "is_digit c = (48 \<le> (of_char c :: nat) \<and> (of_char c :: nat) \<le> 57)"

definition digit_val :: "char \<Rightarrow> nat" where
  "digit_val c = of_char c - 48"

definition digit_char :: "nat \<Rightarrow> char" where
  "digit_char d = char_of (48 + d)"

fun digits_val :: "string \<Rightarrow> nat" where
  "digits_val [] = 0"
| "digits_val (c # cs) = digit_val c * 10 ^ length cs + digits_val cs"

fun nat_str :: "nat \<Rightarrow> string" where
  "nat_str n = (if n < 10 then [digit_char n] else nat_str (n div 10) @ [digit_char (n mod 10)])"

declare nat_str.simps [simp del]

definition int_str :: "int \<Rightarrow> string" where
  "int_str i = (if i < 0 then CHR ''-'' # nat_str (nat (- i)) else nat_str (nat i))"

lemma of_char_digit_char: "d < 10 \<Longrightarrow> (of_char (digit_char d) :: nat) = 48 + d"
  by (simp add: digit_char_def)

lemma digit_char_eval:
  "digit_char 0 = CHR ''0''" "digit_char 1 = CHR ''1''" "digit_char 2 = CHR ''2''"
  "digit_char 3 = CHR ''3''" "digit_char 4 = CHR ''4''" "digit_char 5 = CHR ''5''"
  "digit_char 6 = CHR ''6''" "digit_char 7 = CHR ''7''" "digit_char 8 = CHR ''8''"
  "digit_char 9 = CHR ''9''" "digit_char (Suc 0) = CHR ''1''"
  by (simp_all add: digit_char_def char_of_def bit_Suc_0_iff)

lemma digit_val_char [simp]: "d < 10 \<Longrightarrow> digit_val (digit_char d) = d"
  by (simp add: digit_val_def of_char_digit_char)

lemma is_digit_char [simp]: "d < 10 \<Longrightarrow> is_digit (digit_char d)"
  by (simp add: is_digit_def of_char_digit_char)

lemma digits_val_snoc: "digits_val (cs @ [c]) = 10 * digits_val cs + digit_val c"
  by (induction cs) (simp_all add: algebra_simps)

lemma digits_val_nat_str [simp]: "digits_val (nat_str n) = n"
proof (induction n rule: nat_str.induct)
  case (1 n)
  then show ?case
    by (subst nat_str.simps) (simp add: digits_val_snoc)
qed

lemma nat_str_digits: "\<forall>c \<in> set (nat_str n). is_digit c"
proof (induction n rule: nat_str.induct)
  case (1 n)
  then show ?case
    by (subst nat_str.simps) auto
qed

lemma nat_str_inj: "nat_str m = nat_str n \<longleftrightarrow> m = n"
  by (metis digits_val_nat_str)

lemma nat_str_not_Nil [simp]: "nat_str n \<noteq> []"
  by (subst nat_str.simps) simp

lemma minus_not_digit [simp]: "\<not> is_digit CHR ''-''" "\<not> is_digit CHR ''/''"
  by (simp_all add: is_digit_def)

lemma int_str_inj: "int_str i = int_str j \<longleftrightarrow> i = j"
proof -
  have no_minus: "nat_str m \<noteq> CHR ''-'' # cs" for m cs
    using nat_str_digits[of m] by auto
  show ?thesis
  proof (cases "i < 0"; cases "j < 0")
    assume "i < 0" "j < 0"
    then show ?thesis by (auto simp: int_str_def nat_str_inj)
  next
    assume "\<not> i < 0" "\<not> j < 0"
    then show ?thesis by (auto simp: int_str_def nat_str_inj)
  next
    assume "i < 0" "\<not> j < 0"
    then show ?thesis using no_minus[of "nat j"] by (auto simp: int_str_def dest: sym)
  next
    assume "\<not> i < 0" "j < 0"
    then show ?thesis using no_minus[of "nat i"] by (auto simp: int_str_def)
  qed
qed

lemma int_str_no_slash: "CHR ''/'' \<notin> set (int_str i)"
  using nat_str_digits[of "nat i"] nat_str_digits[of "nat (- i)"] by (auto simp: int_str_def)

lemma int_str_not_Nil [simp]: "int_str i \<noteq> []"
  by (simp add: int_str_def)

section \<open>Big-endian integers and length prefixes\<close>

text \<open>\<open>binary.BigEndian.PutUint32/64\<close>: the \<open>n\<close> low-order bytes of a number, most significant first.\<close>

fun be_bytes :: "nat \<Rightarrow> nat \<Rightarrow> bytes" where
  "be_bytes 0 v = []"
| "be_bytes (Suc n) v = be_bytes n (v div 256) @ [char_of (v mod 256)]"

lemma length_be_bytes [simp]: "length (be_bytes n v) = n"
  by (induction n arbitrary: v) auto

lemma be_bytes_inj:
  "v < 256 ^ n \<Longrightarrow> w < 256 ^ n \<Longrightarrow> be_bytes n v = be_bytes n w \<Longrightarrow> v = w"
proof (induction n arbitrary: v w)
  case (Suc n)
  from Suc.prems have "v div 256 < 256 ^ n" "w div 256 < 256 ^ n"
    by (simp_all add: div_less_iff_less_mult mult.commute)
  with Suc have d: "v div 256 = w div 256" by simp
  from Suc.prems(3) have "(char_of (v mod 256) :: char) = char_of (w mod 256)" by simp
  then have "v mod 256 = w mod 256"
    by (metis mod_mod_trivial of_char_of)
  with d show ?case by (metis div_mult_mod_eq)
qed simp

section \<open>Hexadecimal text\<close>

definition hex_digit :: "nat \<Rightarrow> char" where
  "hex_digit d = (if d < 10 then char_of (48 + d) else char_of (87 + d))"

definition hex_val :: "char \<Rightarrow> nat option" where
  "hex_val c = (let n = (of_char c :: nat) in
     if 48 \<le> n \<and> n \<le> 57 then Some (n - 48)
     else if 97 \<le> n \<and> n \<le> 102 then Some (n - 87)
     else if 65 \<le> n \<and> n \<le> 70 then Some (n - 55)
     else None)"

fun hex_encode :: "bytes \<Rightarrow> string" where
  "hex_encode [] = []"
| "hex_encode (b # bs) =
     hex_digit (of_char b div 16) # hex_digit (of_char b mod 16) # hex_encode bs"

fun hex_decode :: "string \<Rightarrow> bytes option" where
  "hex_decode [] = Some []"
| "hex_decode [c] = None"
| "hex_decode (c # d # cs) =
     (case (hex_val c, hex_val d, hex_decode cs) of
        (Some h, Some l, Some bs) \<Rightarrow> Some (char_of (16 * h + l) # bs)
      | _ \<Rightarrow> None)"

lemma hex_val_digit [simp]: "d < 16 \<Longrightarrow> hex_val (hex_digit d) = Some d"
  by (auto simp: hex_val_def hex_digit_def Let_def)

lemma hex_decode_encode [simp]: "hex_decode (hex_encode bs) = Some bs"
proof (induction bs)
  case (Cons b bs)
  have "(of_char b :: nat) < 256" by (metis of_char_mod_256 mod_less_divisor zero_less_numeral)
  then have "(of_char b :: nat) div 16 < 16" by (simp add: less_mult_imp_div_less)
  moreover have "16 * ((of_char b :: nat) div 16) + of_char b mod 16 = of_char b" by simp
  ultimately show ?case using Cons by simp
qed simp

lemma hex_encode_inj: "hex_encode a = hex_encode b \<longleftrightarrow> a = b"
  by (metis hex_decode_encode option.inject)

section \<open>Lists\<close>

lemma list_all_mono_imp: "list_all P xs \<Longrightarrow> (\<And>x. x \<in> set xs \<Longrightarrow> P x \<Longrightarrow> Q x) \<Longrightarrow> list_all Q xs"
  by (auto simp: list_all_iff)

lemma append_eq_same_length: "length a = length c \<Longrightarrow> a @ b = c @ d \<longleftrightarrow> a = c \<and> b = d"
  by simp

lemma size_list_pair_lt [termination_simp]:
  "(k, v) \<in> set m \<Longrightarrow> f v < Suc (size_list (size_prod (\<lambda>x. 0) f) m)"
  by (induction m) auto

end
