(* ===== verification/Utf8.thy ===== *)
theory Utf8
  imports Prelude "HOL-Library.List_Lexorder"
begin

text \<open>
  Go strings as UTF-8: the decoding of one rune as \<open>unicode/utf8\<close> does it (an ill-formed byte
  reads as the replacement character with width one), the encoding of a rune, the rune sequence
  of a string (\<open>for range\<close>, \<open>[]rune(s)\<close>), \<open>utf8.ValidString\<close>, and \<open>utf16.Encode\<close>, which
  src/pkg/jcs/jcs.go uses to order the member names of an object.
\<close>

section \<open>Runes\<close>

definition byte :: "char \<Rightarrow> nat" where
  "byte c = of_char c"

definition RuneError :: nat where
  "RuneError = 0xFFFD"

definition scalar :: "nat \<Rightarrow> bool" where
  "scalar r = (r < 0xD800 \<or> (0xE000 \<le> r \<and> r \<le> 0x10FFFF))"

definition byte_in :: "nat \<Rightarrow> nat \<Rightarrow> char \<Rightarrow> bool" where
  "byte_in lo hi c = (lo \<le> byte c \<and> byte c \<le> hi)"

definition EncodeRune :: "nat \<Rightarrow> bytes" where
  "EncodeRune r0 =
     (let r = (if scalar r0 then r0 else RuneError) in
      if r < 0x80 then [char_of r]
      else if r < 0x800 then [char_of (0xC0 + r div 64), char_of (0x80 + r mod 64)]
      else if r < 0x10000 then
        [char_of (0xE0 + r div 4096), char_of (0x80 + r div 64 mod 64), char_of (0x80 + r mod 64)]
      else [char_of (0xF0 + r div 262144), char_of (0x80 + r div 4096 mod 64),
            char_of (0x80 + r div 64 mod 64), char_of (0x80 + r mod 64)])"

definition lead3 :: "nat \<Rightarrow> char \<Rightarrow> bool" where
  "lead3 b c = byte_in (if b = 0xE0 then 0xA0 else 0x80) (if b = 0xED then 0x9F else 0xBF) c"

definition lead4 :: "nat \<Rightarrow> char \<Rightarrow> bool" where
  "lead4 b c = byte_in (if b = 0xF0 then 0x90 else 0x80) (if b = 0xF4 then 0x8F else 0xBF) c"

definition DecodeRune :: "bytes \<Rightarrow> nat \<times> nat" where
  "DecodeRune s =
     (case s of
        [] \<Rightarrow> (RuneError, 0)
      | c # t \<Rightarrow> let b = byte c in
          if b < 0x80 then (b, 1)
          else if 0xC2 \<le> b \<and> b \<le> 0xDF then
            (case t of
               c1 # _ \<Rightarrow> if byte_in 0x80 0xBF c1 then ((b - 0xC0) * 64 + (byte c1 - 0x80), 2) else (RuneError, 1)
             | [] \<Rightarrow> (RuneError, 1))
          else if 0xE0 \<le> b \<and> b \<le> 0xEF then
            (case t of
               c1 # c2 # _ \<Rightarrow>
                 if lead3 b c1 \<and> byte_in 0x80 0xBF c2
                 then ((b - 0xE0) * 4096 + (byte c1 - 0x80) * 64 + (byte c2 - 0x80), 3) else (RuneError, 1)
             | _ \<Rightarrow> (RuneError, 1))
          else if 0xF0 \<le> b \<and> b \<le> 0xF4 then
            (case t of
               c1 # c2 # c3 # _ \<Rightarrow>
                 if lead4 b c1 \<and> byte_in 0x80 0xBF c2 \<and> byte_in 0x80 0xBF c3
                 then ((b - 0xF0) * 262144 + (byte c1 - 0x80) * 4096 + (byte c2 - 0x80) * 64 + (byte c3 - 0x80), 4)
                 else (RuneError, 1)
             | _ \<Rightarrow> (RuneError, 1))
          else (RuneError, 1))"

lemma byte_lt [simp]: "byte c < 256"
  by (simp add: byte_def)

lemma byte_char_of [simp]: "n < 256 \<Longrightarrow> byte (char_of n) = n"
  by (simp add: byte_def)

lemma char_of_byte [simp]: "char_of (byte c) = c"
  by (simp add: byte_def)

lemma byte_inj: "byte c = byte d \<longleftrightarrow> c = d"
  by (simp add: byte_def)

lemma DecodeRune_size: "s \<noteq> [] \<Longrightarrow> 1 \<le> snd (DecodeRune s) \<and> snd (DecodeRune s) \<le> length s"
  by (cases s) (auto simp: DecodeRune_def Let_def split: list.splits)

lemma split_64:
  fixes r :: nat
  shows "r div 4096 * 4096 + r div 64 mod 64 * 64 + r mod 64 = r"
    and "r div 262144 * 262144 + r div 4096 mod 64 * 4096 + r div 64 mod 64 * 64 + r mod 64 = r"
proof -
  have a: "r div 64 * 64 + r mod 64 = r" by (rule div_mult_mod_eq)
  have b: "r div 4096 * 64 + r div 64 mod 64 = r div 64"
    using div_mult_mod_eq[of "r div 64" 64] by (simp add: div_mult2_eq[symmetric])
  have c: "r div 262144 * 64 + r div 4096 mod 64 = r div 4096"
    using div_mult_mod_eq[of "r div 4096" 64] by (simp add: div_mult2_eq[symmetric])
  show "r div 4096 * 4096 + r div 64 mod 64 * 64 + r mod 64 = r" using a b by linarith
  then show "r div 262144 * 262144 + r div 4096 mod 64 * 4096 + r div 64 mod 64 * 64 + r mod 64 = r"
    using c by linarith
qed

lemma DecodeRune_EncodeRune:
  assumes "scalar r"
  shows "DecodeRune (EncodeRune r @ s) = (r, length (EncodeRune r))"
proof -
  consider "r < 0x80" | "0x80 \<le> r" "r < 0x800" | "0x800 \<le> r" "r < 0x10000" | "0x10000 \<le> r" by linarith
  then show ?thesis
  proof cases
    case 1
    with assms show ?thesis by (simp add: EncodeRune_def DecodeRune_def Let_def)
  next
    case 2
    then have "2 \<le> r div 64" "r div 64 < 32" by auto
    with 2 assms show ?thesis
      by (simp add: EncodeRune_def DecodeRune_def Let_def byte_in_def)
  next
    case 3
    define a b c where abc: "a = r div 4096" "b = r div 64 mod 64" "c = r mod 64"
    have e: "a * 4096 + b * 64 + c = r" unfolding abc by (rule split_64(1))
    have d: "a < 16" "b < 64" "c < 64" using 3 by (auto simp: abc)
    have "a = 0 \<Longrightarrow> 32 \<le> b" "a = 13 \<Longrightarrow> b < 32" using 3 assms e d unfolding scalar_def by arith+
    moreover have "EncodeRune r = [char_of (0xE0 + a), char_of (0x80 + b), char_of (0x80 + c)]"
      using 3 assms by (simp add: EncodeRune_def Let_def abc)
    ultimately show ?thesis using d e
      by (auto simp: DecodeRune_def Let_def byte_in_def lead3_def)
  next
    case 4
    define a b c d where abcd: "a = r div 262144" "b = r div 4096 mod 64" "c = r div 64 mod 64" "d = r mod 64"
    have e: "a * 262144 + b * 4096 + c * 64 + d = r" unfolding abcd by (rule split_64(2))
    from 4 assms have r: "r \<le> 0x10FFFF" by (auto simp: scalar_def)
    then have l: "a < 5" "b < 64" "c < 64" "d < 64" by (auto simp: abcd)
    have "a = 0 \<Longrightarrow> 16 \<le> b" "a = 4 \<Longrightarrow> b < 16" using 4 r e l by arith+
    moreover have "EncodeRune r = [char_of (0xF0 + a), char_of (0x80 + b), char_of (0x80 + c), char_of (0x80 + d)]"
      using 4 assms by (simp add: EncodeRune_def Let_def abcd)
    ultimately show ?thesis using l e
      by (auto simp: DecodeRune_def Let_def byte_in_def lead4_def)
  qed
qed

lemma digits64:
  fixes b c :: nat
  assumes "c < 64"
  shows "(b * 64 + c) div 64 = b" "(b * 64 + c) mod 64 = c"
  using assms by auto

lemma EncodeRune_scalar:
  assumes "scalar r"
  shows "\<not> r < 0x80 \<Longrightarrow> r < 0x800 \<Longrightarrow> EncodeRune r = [char_of (0xC0 + r div 64), char_of (0x80 + r mod 64)]"
    and "0x800 \<le> r \<Longrightarrow> r < 0x10000 \<Longrightarrow> EncodeRune r =
      [char_of (0xE0 + r div 4096), char_of (0x80 + r div 64 mod 64), char_of (0x80 + r mod 64)]"
    and "0x10000 \<le> r \<Longrightarrow> EncodeRune r = [char_of (0xF0 + r div 262144), char_of (0x80 + r div 4096 mod 64),
      char_of (0x80 + r div 64 mod 64), char_of (0x80 + r mod 64)]"
  using assms by (simp_all add: EncodeRune_def Let_def)

lemma EncodeRune_3:
  assumes h: "a < 16" "b < 64" "c < 64" "a = 0 \<Longrightarrow> 32 \<le> b" "a = 13 \<Longrightarrow> b < 32"
  shows "scalar (a * 4096 + b * 64 + c)"
    and "EncodeRune (a * 4096 + b * 64 + c) = [char_of (0xE0 + a), char_of (0x80 + b), char_of (0x80 + c)]"
proof -
  let ?r = "a * 4096 + b * 64 + c"
  have r: "?r = (a * 64 + b) * 64 + c" by simp
  have 1: "?r div 64 = a * 64 + b" "?r mod 64 = c" unfolding r by (rule digits64[OF h(3)])+
  have 2: "?r div 4096 = a" using h by simp
  have 3: "?r div 64 mod 64 = b" unfolding 1(1) by (rule digits64(2)[OF h(2)])
  have "a < 13 \<or> a = 13 \<and> b < 32 \<or> 13 < a" using h(5) by arith
  with h(1-3) show s: "scalar ?r" unfolding scalar_def by arith
  have "0 < a \<or> a = 0 \<and> 32 \<le> b" using h(4) by arith
  with h(1-3) have "0x800 \<le> ?r" "?r < 0x10000" by arith+
  from EncodeRune_scalar(2)[OF s this]
  show "EncodeRune ?r = [char_of (0xE0 + a), char_of (0x80 + b), char_of (0x80 + c)]" unfolding 1(2) 2 3 .
qed

lemma EncodeRune_4:
  assumes h: "a < 5" "b < 64" "c < 64" "d < 64" "a = 0 \<Longrightarrow> 16 \<le> b" "a = 4 \<Longrightarrow> b < 16"
  shows "scalar (a * 262144 + b * 4096 + c * 64 + d)"
    and "EncodeRune (a * 262144 + b * 4096 + c * 64 + d)
       = [char_of (0xF0 + a), char_of (0x80 + b), char_of (0x80 + c), char_of (0x80 + d)]"
proof -
  let ?r = "a * 262144 + b * 4096 + c * 64 + d"
  have r: "?r = (a * 4096 + b * 64 + c) * 64 + d" by simp
  have 1: "?r div 64 = a * 4096 + b * 64 + c" "?r mod 64 = d" unfolding r by (rule digits64[OF h(4)])+
  have e: "a * 4096 + b * 64 + c = (a * 64 + b) * 64 + c" by simp
  have 2: "?r div 64 mod 64 = c" unfolding 1(1) e by (rule digits64(2)[OF h(3)])
  have 3: "?r div 4096 = a * 64 + b" using h by simp
  have 4: "?r div 4096 mod 64 = b" unfolding 3 by (rule digits64(2)[OF h(2)])
  have 5: "?r div 262144 = a" using h by simp
  have "0 < a \<or> a = 0 \<and> 16 \<le> b" "a < 4 \<or> a = 4 \<and> b < 16" using h(1,5,6) by arith+
  with h(1-4) have g: "0x10000 \<le> ?r" "?r \<le> 0x10FFFF" by arith+
  then show s: "scalar ?r" by (auto simp: scalar_def)
  from EncodeRune_scalar(3)[OF s g(1)]
  show "EncodeRune ?r = [char_of (0xF0 + a), char_of (0x80 + b), char_of (0x80 + c), char_of (0x80 + d)]"
    unfolding 1(2) 2 4 5 .
qed

lemma EncodeRune_2:
  assumes h: "2 \<le> b" "b < 32" "c < 64"
  shows "scalar (b * 64 + c)" and "EncodeRune (b * 64 + c) = [char_of (0xC0 + b), char_of (0x80 + c)]"
proof -
  have g: "\<not> b * 64 + c < 0x80" "b * 64 + c < 0x800" using h by auto
  then show s: "scalar (b * 64 + c)" by (auto simp: scalar_def)
  from EncodeRune_scalar(1)[OF s g]
  show "EncodeRune (b * 64 + c) = [char_of (0xC0 + b), char_of (0x80 + c)]" unfolding digits64[OF h(3)] .
qed

lemma EncodeRune_DecodeRune:
  assumes d: "DecodeRune s = (r, n)" and ne: "s \<noteq> []" and ok: "\<not> (r = RuneError \<and> n = 1)"
  shows "scalar r \<and> EncodeRune r = take n s"
proof -
  obtain c t where s: "s = c # t" using ne by (cases s) auto
  have ch: "char_of (k + (byte x - k)) = x" if "k \<le> byte x" for k x using that by simp
  consider (one) "byte c < 0x80" | (two) "0xC2 \<le> byte c" "byte c \<le> 0xDF" | (three) "0xE0 \<le> byte c" "byte c \<le> 0xEF"
    | (four) "0xF0 \<le> byte c" "byte c \<le> 0xF4"
    using d ok by (auto simp: DecodeRune_def s Let_def split: if_split_asm)
  then show ?thesis
  proof cases
    case one
    then show ?thesis using d by (auto simp: DecodeRune_def s Let_def scalar_def EncodeRune_def)
  next
    case two
    then obtain x u where t: "t = x # u" "byte_in 0x80 0xBF x" "n = 2" "r = (byte c - 0xC0) * 64 + (byte x - 0x80)"
      using d ok by (auto simp: DecodeRune_def s Let_def split: list.splits if_split_asm)
    then show ?thesis
      using EncodeRune_2[of "byte c - 0xC0" "byte x - 0x80"] two by (auto simp: s byte_in_def ch)
  next
    case three
    then obtain x y u where t: "t = x # y # u" "lead3 (byte c) x" "byte_in 0x80 0xBF y" "n = 3"
      "r = (byte c - 0xE0) * 4096 + (byte x - 0x80) * 64 + (byte y - 0x80)"
      using d ok by (auto simp: DecodeRune_def s Let_def split: list.splits if_split_asm)
    moreover have "byte c - 0xE0 < 16" "byte x - 0x80 < 64" "byte y - 0x80 < 64" "0x80 \<le> byte x" "0x80 \<le> byte y"
      "byte c - 0xE0 = 0 \<Longrightarrow> 32 \<le> byte x - 0x80" "byte c - 0xE0 = 13 \<Longrightarrow> byte x - 0x80 < 32"
      using t three by (auto simp: lead3_def byte_in_def split: if_split_asm)
    ultimately show ?thesis
      using EncodeRune_3[of "byte c - 0xE0" "byte x - 0x80" "byte y - 0x80"] three by (simp add: s ch)
  next
    case four
    then obtain x y z u where t: "t = x # y # z # u" "lead4 (byte c) x" "byte_in 0x80 0xBF y" "byte_in 0x80 0xBF z" "n = 4"
      "r = (byte c - 0xF0) * 262144 + (byte x - 0x80) * 4096 + (byte y - 0x80) * 64 + (byte z - 0x80)"
      using d ok by (auto simp: DecodeRune_def s Let_def split: list.splits if_split_asm)
    moreover have "byte c - 0xF0 < 5" "byte x - 0x80 < 64" "byte y - 0x80 < 64" "byte z - 0x80 < 64"
      "0x80 \<le> byte x" "0x80 \<le> byte y" "0x80 \<le> byte z"
      "byte c - 0xF0 = 0 \<Longrightarrow> 16 \<le> byte x - 0x80" "byte c - 0xF0 = 4 \<Longrightarrow> byte x - 0x80 < 16"
      using t four by (auto simp: lead4_def byte_in_def split: if_split_asm)
    ultimately show ?thesis
      using EncodeRune_4[of "byte c - 0xF0" "byte x - 0x80" "byte y - 0x80" "byte z - 0x80"] four by (simp add: s ch)
  qed
qed

section \<open>Strings as rune sequences\<close>

lemma drop_DecodeRune_lt [termination_simp]: "s \<noteq> [] \<Longrightarrow> length s - snd (DecodeRune s) < length s"
  using DecodeRune_size[of s] by (cases s) auto

fun runes :: "bytes \<Rightarrow> nat list" where
  "runes s = (if s = [] then [] else fst (DecodeRune s) # runes (drop (snd (DecodeRune s)) s))"

fun ValidString :: "bytes \<Rightarrow> bool" where
  "ValidString s = (if s = [] then True else if DecodeRune s = (RuneError, 1) then False
     else ValidString (drop (snd (DecodeRune s)) s))"

declare runes.simps [simp del] ValidString.simps [simp del]

lemma runes_Nil [simp]: "runes [] = []" "ValidString []"
  by (simp_all add: runes.simps ValidString.simps)

lemma EncodeRune_not_Nil [simp]: "EncodeRune r \<noteq> []"
  by (simp add: EncodeRune_def Let_def)

lemma runes_EncodeRune: "scalar r \<Longrightarrow> runes (EncodeRune r @ s) = r # runes s"
  by (simp add: runes.simps[of "EncodeRune r @ s"] DecodeRune_EncodeRune)

lemma length_EncodeRune_error: "length (EncodeRune RuneError) = 3"
  by (simp add: EncodeRune_def RuneError_def scalar_def Let_def)

lemma ValidString_EncodeRune: "scalar r \<Longrightarrow> ValidString (EncodeRune r @ s) = ValidString s"
  using length_EncodeRune_error by (auto simp: ValidString.simps[of "EncodeRune r @ s"] DecodeRune_EncodeRune)

definition utf8 :: "nat list \<Rightarrow> bytes" where
  "utf8 rs = concat (map EncodeRune rs)"

lemma utf8_simps [simp]: "utf8 [] = []" "utf8 (r # rs) = EncodeRune r @ utf8 rs"
  by (simp_all add: utf8_def)

lemma runes_utf8: "list_all scalar rs \<Longrightarrow> runes (utf8 rs) = rs \<and> ValidString (utf8 rs)"
  by (induction rs) (auto simp: runes_EncodeRune ValidString_EncodeRune)

lemma ValidString_runes: "ValidString s \<Longrightarrow> list_all scalar (runes s) \<and> utf8 (runes s) = s"
proof (induction s rule: runes.induct)
  case (1 s)
  show ?case
  proof (cases "s = []")
    case False
    obtain r n where d: "DecodeRune s = (r, n)" by fastforce
    with 1(2) False have "scalar r" "EncodeRune r = take n s" "ValidString (drop n s)"
      using EncodeRune_DecodeRune[OF d False] by (auto simp: ValidString.simps[of s] split: if_split_asm)
    moreover from this 1(1)[OF False] d have "list_all scalar (runes (drop n s))" "utf8 (runes (drop n s)) = drop n s" by auto
    ultimately show ?thesis using False d by (simp add: runes.simps[of s])
  qed simp
qed

lemma ValidString_iff: "ValidString s \<longleftrightarrow> (\<exists>rs. list_all scalar rs \<and> s = utf8 rs)"
  using runes_utf8 ValidString_runes by metis

lemma ValidString_inj: "ValidString a \<Longrightarrow> ValidString b \<Longrightarrow> runes a = runes b \<longleftrightarrow> a = b"
  by (metis ValidString_runes)

section \<open>UTF-16 code units\<close>

definition utf16_rune :: "nat \<Rightarrow> nat list" where
  "utf16_rune r =
     (if r < 0xD800 \<or> 0xE000 \<le> r \<and> r < 0x10000 then [r]
      else if 0x10000 \<le> r \<and> r \<le> 0x10FFFF then
        [0xD800 + (r - 0x10000) div 0x400, 0xDC00 + (r - 0x10000) mod 0x400]
      else [RuneError])"

definition utf16_Encode :: "nat list \<Rightarrow> nat list" where
  "utf16_Encode rs = concat (map utf16_rune rs)"

lemma utf16_rune_prefix_free:
  assumes "scalar a" "scalar b" and eq: "utf16_rune a @ x = utf16_rune b @ y"
  shows "a = b \<and> x = y"
proof -
  have div: "(k - 0x10000) div 0x400 < 0x400" if "scalar k" "0x10000 \<le> k" for k
    using that by (auto simp: scalar_def)
  have join: "k = 0x10000 + (k - 0x10000) div 0x400 * 0x400 + (k - 0x10000) mod 0x400" if "0x10000 \<le> k" for k :: nat
    using div_mult_mod_eq[of "k - 0x10000" "0x400"] that by linarith
  have small: "utf16_rune k = [k]" "k < 0xD800 \<or> 0xE000 \<le> k" if "scalar k" "k < 0x10000" for k
    using that by (auto simp: utf16_rune_def scalar_def)
  have big: "utf16_rune k = [0xD800 + (k - 0x10000) div 0x400, 0xDC00 + (k - 0x10000) mod 0x400]"
    if "scalar k" "0x10000 \<le> k" for k
    using that by (auto simp: utf16_rune_def scalar_def)
  consider "a < 0x10000" "b < 0x10000" | "a < 0x10000" "0x10000 \<le> b" | "0x10000 \<le> a" "b < 0x10000"
    | "0x10000 \<le> a" "0x10000 \<le> b" by linarith
  then show ?thesis
  proof cases
    case 1 then show ?thesis using eq assms by (simp add: small)
  next
    case 2 then show ?thesis using eq assms small[of a] big[of b] div[of b] by auto
  next
    case 3 then show ?thesis using eq assms small[of b] big[of a] div[of a] by auto
  next
    case 4
    then have "(a - 0x10000) div 0x400 = (b - 0x10000) div 0x400" "(a - 0x10000) mod 0x400 = (b - 0x10000) mod 0x400" "x = y"
      using eq assms big[of a] big[of b] by auto
    with 4 join[of a] join[of b] show ?thesis by metis
  qed
qed

lemma utf16_Encode_inj:
  "list_all scalar a \<Longrightarrow> list_all scalar b \<Longrightarrow> utf16_Encode a = utf16_Encode b \<longleftrightarrow> a = b"
proof (induction a arbitrary: b)
  case Nil
  have "utf16_rune r \<noteq> []" for r by (simp add: utf16_rune_def)
  then show ?case by (cases b) (auto simp: utf16_Encode_def)
next
  case (Cons r rs)
  have "utf16_rune r \<noteq> []" by (simp add: utf16_rune_def)
  with Cons show ?case
    by (cases b) (auto simp: utf16_Encode_def dest: utf16_rune_prefix_free[rotated 2])
qed

end
