(* ===== verification/Json.thy ===== *)
theory Json
  imports Utf8
begin

text \<open>
  The token stream of \<open>encoding/json\<close>: \<open>Decoder.Token\<close> and \<open>Decoder.More\<close> with \<open>UseNumber\<close>, as the
  strict parser of src/pkg/jcs/jcs.go and the parameter scan of src/internal/mcppep/mcppep.go use
  them. The decoder keeps the unread bytes, the position inside the enclosing array or object and
  the stack of enclosing positions. A string is unquoted as the library does it: an escape of an
  unpaired surrogate and an ill-formed byte both become the replacement character.
\<close>

section \<open>Scalars\<close>

datatype jtoken = TDelim char | TStr bytes | TNum string | TBool bool | TNull

datatype json_err = JsonEOF | JsonSyntax

abbreviation quote :: char where "quote \<equiv> CHR 0x22"
abbreviation backslash :: char where "backslash \<equiv> CHR 0x5C"

definition is_space :: "char \<Rightarrow> bool" where
  "is_space c = (c = CHR '' '' \<or> c = CHR 0x09 \<or> c = CHR 0x0D \<or> c = CHR 0x0A)"

definition skip_ws :: "bytes \<Rightarrow> bytes" where
  "skip_ws s = dropWhile is_space s"

definition getu4 :: "bytes \<Rightarrow> (nat \<times> bytes) option" where
  "getu4 s = (case s of
      a # b # c # d # t \<Rightarrow>
        (case (hex_val a, hex_val b, hex_val c, hex_val d) of
           (Some w, Some x, Some y, Some z) \<Rightarrow> Some (w * 4096 + x * 256 + y * 16 + z, t)
         | _ \<Rightarrow> None)
    | _ \<Rightarrow> None)"

definition esc_char :: "char \<Rightarrow> char option" where
  "esc_char e =
     (if e = quote \<or> e = backslash \<or> e = CHR ''/'' then Some e
      else if e = CHR ''b'' then Some (CHR 0x08)
      else if e = CHR ''f'' then Some (CHR 0x0C)
      else if e = CHR ''n'' then Some (CHR 0x0A)
      else if e = CHR ''r'' then Some (CHR 0x0D)
      else if e = CHR ''t'' then Some (CHR 0x09)
      else None)"

definition low_surrogate :: "bytes \<Rightarrow> (nat \<times> bytes) option" where
  "low_surrogate s = (case s of
      b # u # t \<Rightarrow>
        if b = backslash \<and> u = CHR ''u'' then
          (case getu4 t of
             Some (r, t1) \<Rightarrow> if 0xDC00 \<le> r \<and> r < 0xE000 then Some (r, t1) else None
           | None \<Rightarrow> None)
        else None
    | _ \<Rightarrow> None)"

definition scan_u_escape :: "bytes \<Rightarrow> (bytes \<times> bytes) option" where
  "scan_u_escape s = (case getu4 s of
      None \<Rightarrow> None
    | Some (r, t) \<Rightarrow>
        if 0xD800 \<le> r \<and> r < 0xDC00 then
          (case low_surrogate t of
             Some (r1, t1) \<Rightarrow> Some (EncodeRune ((r - 0xD800) * 0x400 + (r1 - 0xDC00) + 0x10000), t1)
           | None \<Rightarrow> Some (EncodeRune RuneError, t))
        else Some (EncodeRune r, t))"

text \<open>One character or escape of a string literal.\<close>

definition scan_unit :: "bytes \<Rightarrow> (bytes \<times> bytes) option" where
  "scan_unit s = (case s of
      [] \<Rightarrow> None
    | c # t \<Rightarrow>
        if c = backslash then
          (case t of
             [] \<Rightarrow> None
           | e # u \<Rightarrow> if e = CHR ''u'' then scan_u_escape u
                     else (case esc_char e of None \<Rightarrow> None | Some x \<Rightarrow> Some ([x], u)))
        else if byte c < 0x20 then None
        else Some (EncodeRune (fst (DecodeRune s)), drop (snd (DecodeRune s)) s))"

lemma getu4_length: "getu4 s = Some (r, t) \<Longrightarrow> length t < length s"
  by (auto simp: getu4_def split: list.splits option.splits)

lemma low_surrogate_length: "low_surrogate s = Some (r, t) \<Longrightarrow> length t < length s"
  by (auto simp: low_surrogate_def split: list.splits option.splits if_splits dest!: getu4_length)

lemma scan_u_escape_length: "scan_u_escape s = Some (e, t) \<Longrightarrow> length t < length s"
  by (auto simp: scan_u_escape_def split: option.splits if_splits dest!: getu4_length low_surrogate_length)

lemma scan_unit_length: "scan_unit s = Some (e, t) \<Longrightarrow> length t < length s"
  using drop_DecodeRune_lt[of s]
  by (auto simp: scan_unit_def split: list.splits option.splits if_splits dest!: scan_u_escape_length)

text \<open>The rest of a string literal, after its opening quote.\<close>

function scan_string :: "bytes \<Rightarrow> (bytes \<times> bytes) option" where
  "scan_string s = (case s of
      [] \<Rightarrow> None
    | c # t \<Rightarrow>
        if c = quote then Some ([], t)
        else case scan_unit s of
            None \<Rightarrow> None
          | Some (e, u) \<Rightarrow>
              (case scan_string u of None \<Rightarrow> None | Some (x, r) \<Rightarrow> Some (e @ x, r)))"
  by pat_completeness auto
termination
  by (relation "measure length") (use scan_unit_length in \<open>force+\<close>)

declare scan_string.simps [simp del]

lemma scan_string_length: "scan_string s = Some (x, r) \<Longrightarrow> length r < length s"
proof (induction s arbitrary: x r rule: scan_string.induct)
  case (1 s)
  show ?case
  proof (cases s)
    case (Cons c t)
    show ?thesis
    proof (cases "c = quote")
      case True
      with 1(2) Cons show ?thesis by (simp add: scan_string.simps)
    next
      case False
      with 1(2) Cons obtain e u y where u: "scan_unit s = Some (e, u)" "scan_string u = Some (y, r)"
        by (subst (asm) scan_string.simps) (auto split: option.splits)
      have "length r < length u" using 1(1)[OF Cons False u(1) refl u(2)] .
      with scan_unit_length[OF u(1)] show ?thesis by simp
    qed
  qed (use 1(2) in \<open>simp add: scan_string.simps\<close>)
qed

definition scan_int :: "bytes \<Rightarrow> (string \<times> bytes) option" where
  "scan_int s = (case s of
      [] \<Rightarrow> None
    | c # t \<Rightarrow> if c = CHR ''0'' then Some ([c], t)
              else if is_digit c then Some (takeWhile is_digit s, dropWhile is_digit s)
              else None)"

definition scan_frac :: "bytes \<Rightarrow> (string \<times> bytes) option" where
  "scan_frac s = (case s of
      c # t \<Rightarrow> if c = CHR ''.'' then
                (if takeWhile is_digit t = [] then None
                 else Some (c # takeWhile is_digit t, dropWhile is_digit t))
              else Some ([], s)
    | [] \<Rightarrow> Some ([], []))"

definition scan_exp :: "bytes \<Rightarrow> (string \<times> bytes) option" where
  "scan_exp s = (case s of
      c # t \<Rightarrow>
        if c = CHR ''e'' \<or> c = CHR ''E'' then
          (let sg = (case t of d # _ \<Rightarrow> if d = CHR ''+'' \<or> d = CHR ''-'' then [d] else [] | [] \<Rightarrow> []);
               u = drop (length sg) t
           in if takeWhile is_digit u = [] then None
              else Some (c # sg @ takeWhile is_digit u, dropWhile is_digit u))
        else Some ([], s)
    | [] \<Rightarrow> Some ([], []))"

definition scan_number :: "bytes \<Rightarrow> (string \<times> bytes) option" where
  "scan_number s =
     (let neg = (case s of c # _ \<Rightarrow> if c = CHR ''-'' then [c] else [] | [] \<Rightarrow> []) in
      case scan_int (drop (length neg) s) of
        None \<Rightarrow> None
      | Some (ip, s1) \<Rightarrow>
          (case scan_frac s1 of
             None \<Rightarrow> None
           | Some (fp, s2) \<Rightarrow>
               (case scan_exp s2 of None \<Rightarrow> None | Some (ep, s3) \<Rightarrow> Some (neg @ ip @ fp @ ep, s3))))"

definition strip_prefix :: "bytes \<Rightarrow> bytes \<Rightarrow> bytes option" where
  "strip_prefix p s = (if take (length p) s = p then Some (drop (length p) s) else None)"

text \<open>\<open>Decode\<close> of a scalar at the first byte of the buffer.\<close>

definition scan_scalar :: "bytes \<Rightarrow> (jtoken \<times> bytes) option" where
  "scan_scalar s = (case s of
      [] \<Rightarrow> None
    | c # t \<Rightarrow>
        if c = quote then map_option (\<lambda>(x, r). (TStr x, r)) (scan_string t)
        else if c = CHR ''-'' \<or> is_digit c then map_option (\<lambda>(x, r). (TNum x, r)) (scan_number s)
        else if c = CHR ''t'' then map_option (\<lambda>r. (TBool True, r)) (strip_prefix ''true'' s)
        else if c = CHR ''f'' then map_option (\<lambda>r. (TBool False, r)) (strip_prefix ''false'' s)
        else if c = CHR ''n'' then map_option (\<lambda>r. (TNull, r)) (strip_prefix ''null'' s)
        else None)"

lemma length_dropWhile_lt: "s \<noteq> [] \<Longrightarrow> P (hd s) \<Longrightarrow> length (dropWhile P s) < length s"
  by (cases s) (auto simp: less_Suc_eq_le length_dropWhile_le)

lemma scan_int_length: "scan_int s = Some (x, r) \<Longrightarrow> length r < length s"
  using length_dropWhile_lt[of s is_digit]
  by (auto simp: scan_int_def simp del: dropWhile.simps split: list.splits if_splits)

lemma scan_frac_length: "scan_frac s = Some (x, r) \<Longrightarrow> length r \<le> length s"
  by (auto simp: scan_frac_def le_SucI length_dropWhile_le split: list.splits if_splits)

lemma scan_exp_length: "scan_exp s = Some (x, r) \<Longrightarrow> length r \<le> length s"
  by (auto simp: scan_exp_def Let_def le_SucI split: list.splits if_splits intro: le_trans[OF length_dropWhile_le])

lemma scan_number_length: "scan_number s = Some (x, r) \<Longrightarrow> length r < length s"
  by (fastforce simp: scan_number_def Let_def split: option.splits
      dest!: scan_int_length scan_frac_length scan_exp_length)

lemma scan_scalar_length: "scan_scalar s = Some (x, r) \<Longrightarrow> length r < length s"
  by (auto simp: scan_scalar_def strip_prefix_def less_Suc_eq split: list.splits if_splits
      dest!: scan_string_length scan_number_length)

section \<open>The decoder\<close>

datatype tstate = TopValue | ArrayStart | ArrayValue | ArrayComma
  | ObjectStart | ObjectKey | ObjectColon | ObjectValue | ObjectComma

record decoder =
  dc_buf :: bytes
  dc_state :: tstate
  dc_stack :: "tstate list"

definition NewDecoder :: "bytes \<Rightarrow> decoder" where
  "NewDecoder raw = \<lparr>dc_buf = raw, dc_state = TopValue, dc_stack = []\<rparr>"

definition tokenValueAllowed :: "tstate \<Rightarrow> bool" where
  "tokenValueAllowed st = (st = TopValue \<or> st = ArrayStart \<or> st = ArrayValue \<or> st = ObjectValue)"

definition tokenValueEnd :: "tstate \<Rightarrow> tstate" where
  "tokenValueEnd st = (if st = ArrayStart \<or> st = ArrayValue then ArrayComma
     else if st = ObjectValue then ObjectComma else st)"

definition More :: "decoder \<Rightarrow> bool" where
  "More d = (case skip_ws (dc_buf d) of [] \<Rightarrow> False | c # _ \<Rightarrow> c \<noteq> CHR '']'' \<and> c \<noteq> CHR ''}'')"

definition open_delim :: "char \<Rightarrow> tstate \<Rightarrow> bytes \<Rightarrow> decoder \<Rightarrow> json_err + jtoken \<times> decoder" where
  "open_delim c st t d =
     (if tokenValueAllowed (dc_state d)
      then Inr (TDelim c, \<lparr>dc_buf = t, dc_state = st, dc_stack = dc_state d # dc_stack d\<rparr>)
      else Inl JsonSyntax)"

definition close_delim :: "char \<Rightarrow> tstate \<Rightarrow> tstate \<Rightarrow> bytes \<Rightarrow> decoder \<Rightarrow> json_err + jtoken \<times> decoder" where
  "close_delim c st st' t d =
     (case dc_stack d of
        up # ups \<Rightarrow>
          if dc_state d = st \<or> dc_state d = st'
          then Inr (TDelim c, \<lparr>dc_buf = t, dc_state = tokenValueEnd up, dc_stack = ups\<rparr>)
          else Inl JsonSyntax
      | [] \<Rightarrow> Inl JsonSyntax)"

text \<open>The two separators are consumed by the loop inside \<open>Token\<close>.\<close>

definition separator :: "char \<Rightarrow> tstate \<Rightarrow> tstate option" where
  "separator c st =
     (if c = CHR '':'' \<and> st = ObjectColon then Some ObjectValue
      else if c = CHR '','' \<and> st = ArrayComma then Some ArrayValue
      else if c = CHR '','' \<and> st = ObjectComma then Some ObjectKey
      else None)"

definition scalar_token :: "decoder \<Rightarrow> bytes \<Rightarrow> json_err + jtoken \<times> decoder" where
  "scalar_token d s =
     (if hd s = quote \<and> (dc_state d = ObjectStart \<or> dc_state d = ObjectKey) then
        (case scan_scalar s of
           Some (tok, r) \<Rightarrow> Inr (tok, d\<lparr>dc_buf := r, dc_state := ObjectColon\<rparr>)
         | None \<Rightarrow> Inl JsonSyntax)
      else if tokenValueAllowed (dc_state d) then
        (case scan_scalar s of
           Some (tok, r) \<Rightarrow> Inr (tok, d\<lparr>dc_buf := r, dc_state := tokenValueEnd (dc_state d)\<rparr>)
         | None \<Rightarrow> Inl JsonSyntax)
      else Inl JsonSyntax)"

function Token :: "decoder \<Rightarrow> json_err + jtoken \<times> decoder" where
  "Token d = (case skip_ws (dc_buf d) of
      [] \<Rightarrow> Inl JsonEOF
    | c # t \<Rightarrow>
        if c = CHR ''['' then open_delim c ArrayStart t d
        else if c = CHR '']'' then close_delim c ArrayStart ArrayComma t d
        else if c = CHR ''{'' then open_delim c ObjectStart t d
        else if c = CHR ''}'' then close_delim c ObjectStart ObjectComma t d
        else if c = CHR '':'' \<or> c = CHR '','' then
          (case separator c (dc_state d) of
             Some st \<Rightarrow> Token (d\<lparr>dc_buf := t, dc_state := st\<rparr>)
           | None \<Rightarrow> Inl JsonSyntax)
        else scalar_token d (c # t))"
  by pat_completeness auto

lemma skip_ws_length: "length (skip_ws s) \<le> length s"
  by (simp add: skip_ws_def length_dropWhile_le)

lemma skip_ws_Cons_length: "skip_ws s = c # t \<Longrightarrow> length t < length s"
  using skip_ws_length[of s] by simp

termination Token
  by (relation "measure (\<lambda>d. length (dc_buf d))") (auto dest: skip_ws_Cons_length)

declare Token.simps [simp del]

lemma Token_length: "Token d = Inr (tok, d') \<Longrightarrow> length (dc_buf d') < length (dc_buf d)"
proof (induction d arbitrary: tok d' rule: Token.induct)
  case (1 d)
  show ?case
  proof (cases "skip_ws (dc_buf d)")
    case (Cons c t)
    note l = skip_ws_Cons_length[OF Cons]
    show ?thesis
    proof (cases "c = CHR '':'' \<or> c = CHR '',''")
      case True
      with 1(2) Cons obtain st where st: "separator c (dc_state d) = Some st"
        "Token (d\<lparr>dc_buf := t, dc_state := st\<rparr>) = Inr (tok, d')"
        by (subst (asm) Token.simps) (auto split: option.splits)
      from True have "c \<noteq> CHR ''[''" "c \<noteq> CHR '']''" "c \<noteq> CHR ''{''" "c \<noteq> CHR ''}''" by auto
      from 1(1)[OF Cons this True st] l show ?thesis by simp
    next
      case False
      with 1(2) Cons l show ?thesis
        by (subst (asm) Token.simps)
           (auto simp: open_delim_def close_delim_def scalar_token_def split: if_splits list.splits option.splits
             dest!: scan_scalar_length)
    qed
  qed (use 1(2) in \<open>simp add: Token.simps\<close>)
qed

end
