(* ===== verification/GoValue.thy ===== *)
theory GoValue
  imports Prelude
begin

text \<open>
  The dynamic values a capability scope or a token claim can hold: Go's \<open>any\<close> with the
  concrete types that JSON decoding and Go literals produce, the exact rational reading of a
  number (\<open>toRat\<close> of src/internal/tbac/scope.go over \<open>math/big\<close>), Go's
  \<open>reflect.DeepEqual\<close> on these values, and the value equality of the scope algebra.

  A \<open>float64\<close> is its exact rational value, the negative zero or one of the three non-finite
  values; \<open>Fin 0\<close> is the positive zero. A
  \<open>json.Number\<close> holds a JSON number literal; \<open>rat_set_string\<close> is \<open>big.Rat.SetString\<close> on
  decimal literals with an optional sign, point and exponent, which covers every JSON number
  (the base prefixes, fractions and digit separators that \<open>SetString\<close> also takes never occur
  in a JSON number). The standard library refuses a decimal whose scale passes one million.
\<close>

section \<open>Values\<close>

datatype gofloat = Fin rat | NegZero | PosInf | NegInf | NaN

datatype itype = I | I8 | I16 | I32 | I64 | U | U8 | U16 | U32 | U64

datatype gval =
    GNil
  | GBool bool
  | GStr string
  | GNum string
  | GFloat64 gofloat
  | GFloat32 gofloat
  | GInt itype int
  | GList "gval list"
  | GMap "(string \<times> gval) list"
  | GScope "(string \<times> gval) list"
  | GSlice string int int

type_synonym scope = "gval gomap"
type_synonym claims = "gval gomap"

fun wf_val :: "gval \<Rightarrow> bool" where
  "wf_val (GList xs) = list_all wf_val xs"
| "wf_val (GMap m) = (wf_map m \<and> list_all (\<lambda>(k, v). wf_val v) m)"
| "wf_val (GScope m) = (wf_map m \<and> list_all (\<lambda>(k, v). wf_val v) m)"
| "wf_val _ = True"

definition wf_scope :: "scope \<Rightarrow> bool" where
  "wf_scope m = (wf_map m \<and> list_all (\<lambda>(k, v). wf_val v) m)"

section \<open>Exact rationals\<close>

definition rat_exp_limit :: int where
  "rat_exp_limit = 1000000"

definition scan_sign :: "string \<Rightarrow> bool \<times> string" where
  "scan_sign s = (case s of
      c # t \<Rightarrow> (if c = CHR ''-'' then (True, t) else if c = CHR ''+'' then (False, t) else (False, s))
    | [] \<Rightarrow> (False, []))"

definition scan_fraction :: "string \<Rightarrow> string \<times> string" where
  "scan_fraction s = (case s of
      c # t \<Rightarrow> (if c = CHR ''.'' then (takeWhile is_digit t, dropWhile is_digit t) else ([], s))
    | [] \<Rightarrow> ([], []))"

definition scan_exponent :: "string \<Rightarrow> int option" where
  "scan_exponent s = (case s of
      [] \<Rightarrow> Some 0
    | c # t \<Rightarrow>
        if c = CHR ''e'' \<or> c = CHR ''E'' then
          (let (neg, ds) = scan_sign t; n = int (digits_val ds) in
             if ds = [] \<or> \<not> list_all is_digit ds then None
             else if neg then (if n > 2 ^ 63 then None else Some (- n))
             else if n > 2 ^ 63 - 1 then None else Some n)
        else None)"

definition scale10 :: "int \<Rightarrow> rat \<Rightarrow> rat" where
  "scale10 x m = (if 0 \<le> x then m * 10 ^ nat x else m / 10 ^ nat (- x))"

definition rat_set_string :: "string \<Rightarrow> rat option" where
  "rat_set_string s =
     (let (neg, s1) = scan_sign s;
          ip = takeWhile is_digit s1;
          (fp, s3) = scan_fraction (dropWhile is_digit s1)
      in if ip = [] \<and> fp = [] then None
         else case scan_exponent s3 of
             None \<Rightarrow> None
           | Some e \<Rightarrow>
               (let m = digits_val (ip @ fp); x = e - int (length fp) in
                  if m = 0 then Some 0
                  else if \<bar>x\<bar> > rat_exp_limit then None
                  else Some (scale10 x (if neg then - of_nat m else of_nat m))))"

definition rat_string :: "rat \<Rightarrow> string" where
  "rat_string r = (let (p, q) = quotient_of r in
     if q = 1 then int_str p else int_str p @ CHR ''/'' # int_str q)"

lemma split_at_slash:
  "CHR ''/'' \<notin> set a \<Longrightarrow> CHR ''/'' \<notin> set c \<Longrightarrow>
   a @ CHR ''/'' # b = c @ CHR ''/'' # d \<longleftrightarrow> a = c \<and> b = d"
proof (induction a arbitrary: c)
  case Nil
  then show ?case by (cases c) auto
next
  case (Cons x a)
  then show ?case by (cases c) auto
qed

lemma rat_string_inj: "rat_string r = rat_string s \<longleftrightarrow> r = s"
proof
  assume eq: "rat_string r = rat_string s"
  obtain p q where r: "quotient_of r = (p, q)" by fastforce
  obtain p' q' where s: "quotient_of s = (p', q')" by fastforce
  have noslash: "int_str i \<noteq> int_str j @ CHR ''/'' # cs" for i j cs
    using int_str_no_slash[of i] by auto
  from eq have "p = p' \<and> q = q'"
    using noslash[of p p'] noslash[of p' p]
    by (auto simp: rat_string_def r s Let_def int_str_inj split_at_slash int_str_no_slash
        split: if_splits dest: sym)
  then show "r = s" using r s by (simp add: quotient_of_inject)
qed simp

text \<open>\<open>int64(f)\<close> truncates; for a value that \<open>int64\<close> cannot hold the language leaves the result to the
  platform, which is the parameter \<open>oob\<close>.\<close>

definition float_to_int :: "(gofloat \<Rightarrow> int) \<Rightarrow> gofloat \<Rightarrow> int" where
  "float_to_int oob f = (case f of
      Fin r \<Rightarrow> (let t = (if 0 \<le> r then floor r else ceiling r) in
        if - (2 ^ 63) \<le> t \<and> t < 2 ^ 63 then t else oob f)
    | NegZero \<Rightarrow> 0
    | _ \<Rightarrow> oob f)"

section \<open>toRat, DeepEqual and equalValue\<close>

definition float_rat :: "gofloat \<Rightarrow> rat option" where
  "float_rat f = (case f of Fin r \<Rightarrow> Some r | NegZero \<Rightarrow> Some 0 | _ \<Rightarrow> None)"

fun toRat :: "gval \<Rightarrow> rat option" where
  "toRat (GFloat64 f) = float_rat f"
| "toRat (GFloat32 f) = float_rat f"
| "toRat (GInt t i) = Some (of_int i)"
| "toRat (GNum s) = rat_set_string s"
| "toRat _ = None"

fun float_eq :: "gofloat \<Rightarrow> gofloat \<Rightarrow> bool" where
  "float_eq NaN g = False"
| "float_eq (Fin r) g = (g = Fin r \<or> r = 0 \<and> g = NegZero)"
| "float_eq NegZero g = (g = NegZero \<or> g = Fin 0)"
| "float_eq f g = (f = g)"

function deep_equal :: "gval \<Rightarrow> gval \<Rightarrow> bool" where
  "deep_equal GNil w = (w = GNil)"
| "deep_equal (GBool b) w = (w = GBool b)"
| "deep_equal (GStr s) w = (w = GStr s)"
| "deep_equal (GNum s) w = (w = GNum s)"
| "deep_equal (GFloat64 f) w = (case w of GFloat64 g \<Rightarrow> float_eq f g | _ \<Rightarrow> False)"
| "deep_equal (GFloat32 f) w = (case w of GFloat32 g \<Rightarrow> float_eq f g | _ \<Rightarrow> False)"
| "deep_equal (GInt t i) w = (w = GInt t i)"
| "deep_equal (GList xs) w = (case w of
      GList ys \<Rightarrow> length xs = length ys \<and> list_all (\<lambda>(x, y). deep_equal x y) (zip xs ys)
    | _ \<Rightarrow> False)"
| "deep_equal (GMap a) w = (case w of
      GMap b \<Rightarrow> length a = length b \<and>
        list_all (\<lambda>(k, v). case map_of b k of None \<Rightarrow> False | Some u \<Rightarrow> deep_equal v u) a
    | _ \<Rightarrow> False)"
| "deep_equal (GScope a) w = (case w of
      GScope b \<Rightarrow> length a = length b \<and>
        list_all (\<lambda>(k, v). case map_of b k of None \<Rightarrow> False | Some u \<Rightarrow> deep_equal v u) a
    | _ \<Rightarrow> False)"
| "deep_equal (GSlice r i e) w = (w = GSlice r i e)"
  by pat_completeness auto
termination
  by (relation "measure (\<lambda>(a, b). size a)")
     (auto dest!: set_zip_leftD simp: size_list_pair_lt less_Suc_eq_le size_list_estimation')

definition equalValue :: "gval \<Rightarrow> gval \<Rightarrow> bool" where
  "equalValue a b = (case toRat a of
      Some x \<Rightarrow> (case toRat b of Some y \<Rightarrow> x = y | None \<Rightarrow> False)
    | None \<Rightarrow> deep_equal a b)"

section \<open>The equality of values is an equivalence\<close>

text \<open>
  \<open>DeepEqual\<close> is transitive on all values, symmetric on values whose maps have distinct
  keys (every Go map), and reflexive on those that hold no NaN. Equal values read as the same
  number, so the equality the scope algebra uses is an equivalence too.
\<close>

fun nan_free :: "gval \<Rightarrow> bool" where
  "nan_free (GFloat64 f) = (f \<noteq> NaN)"
| "nan_free (GFloat32 f) = (f \<noteq> NaN)"
| "nan_free (GList xs) = list_all nan_free xs"
| "nan_free (GMap m) = list_all (\<lambda>(k, v). nan_free v) m"
| "nan_free (GScope m) = list_all (\<lambda>(k, v). nan_free v) m"
| "nan_free _ = True"

lemma gval_induct [case_names Atom List Map Scope]:
  assumes atom: "\<And>v. (\<forall>xs. v \<noteq> GList xs) \<Longrightarrow> (\<forall>m. v \<noteq> GMap m) \<Longrightarrow> (\<forall>m. v \<noteq> GScope m) \<Longrightarrow> P v"
    and lst: "\<And>xs. (\<And>x. x \<in> set xs \<Longrightarrow> P x) \<Longrightarrow> P (GList xs)"
    and mp: "\<And>m. (\<And>k v. (k, v) \<in> set m \<Longrightarrow> P v) \<Longrightarrow> P (GMap m)"
    and sc: "\<And>m. (\<And>k v. (k, v) \<in> set m \<Longrightarrow> P v) \<Longrightarrow> P (GScope m)"
  shows "P v"
proof (induction v rule: measure_induct_rule[where f = size])
  case (less v)
  show ?case
  proof (cases v)
    case (GList xs)
    then show ?thesis using less lst by (simp add: less_Suc_eq_le size_list_estimation')
  next
    case (GMap m)
    then show ?thesis using less mp size_list_pair_lt by fastforce
  next
    case (GScope m)
    then show ?thesis using less sc size_list_pair_lt by fastforce
  qed (auto intro: atom)
qed

lemma float_eq_trans: "float_eq f g \<Longrightarrow> float_eq g h \<Longrightarrow> float_eq f h"
  by (cases f) auto

lemma float_eq_sym: "float_eq f g \<Longrightarrow> float_eq g f"
  by (cases f; cases g) auto

lemma float_eq_refl [simp]: "f \<noteq> NaN \<Longrightarrow> float_eq f f"
  by (cases f) auto

lemma map_trans_aux:
  assumes IH: "\<And>k v. (k, v) \<in> set a \<Longrightarrow> \<forall>u w. R v u \<longrightarrow> R u w \<longrightarrow> R v w"
    and ab: "list_all (\<lambda>(k, v). case map_of b k of None \<Rightarrow> False | Some u \<Rightarrow> R v u) a"
    and bc: "list_all (\<lambda>(k, v). case map_of c k of None \<Rightarrow> False | Some u \<Rightarrow> R v u) b"
  shows "list_all (\<lambda>(k, v). case map_of c k of None \<Rightarrow> False | Some u \<Rightarrow> R v u) a"
  unfolding list_all_iff
proof (clarify)
  fix k v assume kv: "(k, v) \<in> set a"
  with ab obtain u where u: "map_of b k = Some u" "R v u"
    by (auto simp: list_all_iff split: option.splits)
  then have "(k, u) \<in> set b" by (simp add: map_of_SomeD)
  with bc obtain w where w: "map_of c k = Some w" "R u w"
    by (auto simp: list_all_iff split: option.splits)
  with IH[OF kv] u show "case map_of c k of None \<Rightarrow> False | Some u \<Rightarrow> R v u" by simp
qed

lemma deep_equal_trans: "deep_equal a b \<Longrightarrow> deep_equal b c \<Longrightarrow> deep_equal a c"
proof (induction a arbitrary: b c rule: gval_induct)
  case (Atom v)
  then show ?case by (cases v) (auto split: gval.splits intro: float_eq_trans)
next
  case (List xs)
  then obtain ys zs where e: "b = GList ys" "c = GList zs" by (auto split: gval.splits)
  with List.prems have l: "length xs = length ys" "length ys = length zs"
    and xy: "\<forall>i < length xs. deep_equal (xs ! i) (ys ! i)"
    and yz: "\<forall>i < length xs. deep_equal (ys ! i) (zs ! i)"
    by (auto simp: list_all_length)
  then have "\<forall>i < length xs. deep_equal (xs ! i) (zs ! i)"
    using List.IH nth_mem by blast
  with e l show ?case by (auto simp: list_all_length)
next
  case (Map m)
  then obtain m1 m2 where e: "b = GMap m1" "c = GMap m2" by (auto split: gval.splits)
  with Map.prems show ?case
    using map_trans_aux[of m deep_equal m1 m2] Map.IH by auto
next
  case (Scope m)
  then obtain m1 m2 where e: "b = GScope m1" "c = GScope m2" by (auto split: gval.splits)
  with Scope.prems show ?case
    using map_trans_aux[of m deep_equal m1 m2] Scope.IH by auto
qed

lemma map_sym_aux:
  assumes IH: "\<And>k v u. (k, v) \<in> set a \<Longrightarrow> wf_val v \<Longrightarrow> wf_val u \<Longrightarrow> R v u \<Longrightarrow> R u v"
    and wf: "wf_scope a" "wf_scope b" and len: "length a = length b"
    and ab: "list_all (\<lambda>(k, v). case map_of b k of None \<Rightarrow> False | Some u \<Rightarrow> R v u) a"
  shows "list_all (\<lambda>(k, v). case map_of a k of None \<Rightarrow> False | Some u \<Rightarrow> R v u) b"
  unfolding list_all_iff
proof (clarify)
  fix k v assume kv: "(k, v) \<in> set b"
  have "k' \<in> fst ` set b" if kk: "(k', v') \<in> set a" for k' v'
  proof -
    from ab kk obtain u where "map_of b k' = Some u"
      by (auto simp: list_all_iff split: option.splits)
    then have "(k', u) \<in> set b" by (rule map_of_SomeD)
    then show ?thesis by (rule rev_image_eqI) simp
  qed
  then have "fst ` set a \<subseteq> fst ` set b" by auto
  with wf len have "fst ` set a = fst ` set b"
    by (simp add: wf_map_same_keys wf_scope_def)
  with kv obtain u where u: "(k, u) \<in> set a" by force
  with ab obtain w where "map_of b k = Some w" "R u w"
    by (auto simp: list_all_iff split: option.splits)
  moreover have "map_of b k = Some v" using kv wf by (simp add: wf_scope_def wf_map_def)
  ultimately have "R u v" by simp
  moreover have "wf_val u" "wf_val v" using wf u kv by (auto simp: wf_scope_def list_all_iff)
  ultimately have "R v u" using IH[OF u] by blast
  moreover have "map_of a k = Some u" using u wf by (simp add: wf_scope_def wf_map_def)
  ultimately show "case map_of a k of None \<Rightarrow> False | Some u \<Rightarrow> R v u" by simp
qed

lemma deep_equal_sym: "wf_val a \<Longrightarrow> wf_val b \<Longrightarrow> deep_equal a b \<Longrightarrow> deep_equal b a"
proof (induction a arbitrary: b rule: gval_induct)
  case (Atom v)
  then show ?case by (cases v) (auto split: gval.splits intro: float_eq_sym)
next
  case (List xs)
  then obtain ys where e: "b = GList ys" by (auto split: gval.splits)
  with List show ?case by (fastforce simp: list_all_length)
next
  case (Map m)
  then obtain m1 where e: "b = GMap m1" by (auto split: gval.splits)
  with Map.prems show ?case
    using map_sym_aux[of m deep_equal m1] Map.IH by (auto simp: wf_scope_def)
next
  case (Scope m)
  then obtain m1 where e: "b = GScope m1" by (auto split: gval.splits)
  with Scope.prems show ?case
    using map_sym_aux[of m deep_equal m1] Scope.IH by (auto simp: wf_scope_def)
qed

lemma map_refl_aux:
  assumes "wf_map m" and "\<And>k v. (k, v) \<in> set m \<Longrightarrow> R v v"
  shows "list_all (\<lambda>(k, v). case map_of m k of None \<Rightarrow> False | Some u \<Rightarrow> R v u) m"
  unfolding list_all_iff
proof (clarify)
  fix k v assume kv: "(k, v) \<in> set m"
  with assms(1) have "map_of m k = Some v" by (simp add: wf_map_def)
  with assms(2)[OF kv] show "case map_of m k of None \<Rightarrow> False | Some u \<Rightarrow> R v u" by simp
qed

lemma deep_equal_refl: "wf_val a \<Longrightarrow> nan_free a \<Longrightarrow> deep_equal a a"
proof (induction a rule: gval_induct)
  case (Atom v)
  then show ?case by (cases v) auto
next
  case (List xs)
  then show ?case by (auto simp: list_all_length)
next
  case (Map m)
  then have "deep_equal v v" if "(k, v) \<in> set m" for k v
    using that by (fastforce simp: list_all_iff)
  with Map.prems show ?case by (simp add: map_refl_aux)
next
  case (Scope m)
  then have "deep_equal v v" if "(k, v) \<in> set m" for k v
    using that by (fastforce simp: list_all_iff)
  with Scope.prems show ?case by (simp add: map_refl_aux)
qed

lemma float_eq_rat: "float_eq f g \<Longrightarrow> float_rat f = float_rat g"
  by (cases f) (auto simp: float_rat_def)

lemma deep_equal_toRat: "deep_equal a b \<Longrightarrow> toRat a = toRat b"
  by (cases a) (auto dest: float_eq_rat split: gval.splits)

lemma equalValue_trans: "equalValue a b \<Longrightarrow> equalValue b c \<Longrightarrow> equalValue a c"
  by (auto simp: equalValue_def split: option.splits
      dest: deep_equal_toRat deep_equal_trans)

lemma equalValue_sym: "wf_val a \<Longrightarrow> wf_val b \<Longrightarrow> equalValue a b \<Longrightarrow> equalValue b a"
  by (auto simp: equalValue_def split: option.splits
      dest: deep_equal_toRat deep_equal_sym)

lemma equalValue_refl: "wf_val a \<Longrightarrow> nan_free a \<Longrightarrow> equalValue a a"
  by (auto simp: equalValue_def deep_equal_refl split: option.splits)

lemma equalValue_toRat: "equalValue a b \<Longrightarrow> toRat a = toRat b"
  by (auto simp: equalValue_def split: option.splits dest: deep_equal_toRat)

end
