(* ===== verification/Jcs.thy ===== *)
theory Jcs
  imports Json GoValue
begin

text \<open>
  The canonical JSON form (src/pkg/jcs/jcs.go): the accepted subset of numbers and strings, the
  serialisation of a value with its member names in UTF-16 order, and the strict parser over the
  token stream. The parser takes fuel in place of the recursion over the stream;
  four steps for every byte, which \<open>ParseStrict\<close> gives it, always suffice.
\<close>

section \<open>Numbers and strings\<close>

datatype jcs_err = ErrDuplicateKey bytes | ErrNumber | ErrDepth | ErrString | ErrType
  | ErrParse json_err | ErrKey | ErrDelim | ErrTrailing | OutOfFuel

definition MaxDepth :: nat where
  "MaxDepth = 64"

definition MaxInt :: int where
  "MaxInt = 2 ^ 53 - 1"

definition checkNumberLiteral :: "string \<Rightarrow> jcs_err + int" where
  "checkNumberLiteral s =
     (if s = [] \<or> s = ''-'' \<or> s = ''-0'' then Inl ErrNumber
      else let body = (if hd s = CHR ''-'' then tl s else s) in
        if body = [] then Inl ErrNumber
        else if hd body = CHR ''0'' \<and> length body > 1 then Inl ErrNumber
        else if \<not> list_all is_digit body then Inl ErrNumber
        else let n = (if hd s = CHR ''-'' then - int (digits_val body) else int (digits_val body)) in
          if \<not> int64 n then Inl ErrNumber
          else if n > MaxInt \<or> n < - MaxInt then Inl ErrNumber
          else Inr n)"

definition checkString :: "bytes \<Rightarrow> jcs_err + unit" where
  "checkString s =
     (if \<not> ValidString s then Inl ErrString
      else if RuneError \<in> set (runes s) then Inl ErrString else Inr ())"

definition esc_rune :: "nat \<Rightarrow> bytes" where
  "esc_rune r =
     (if r = 0x22 then [backslash, quote]
      else if r = 0x5C then [backslash, backslash]
      else if r = 0x08 then [backslash, CHR ''b'']
      else if r = 0x0C then [backslash, CHR ''f'']
      else if r = 0x0A then [backslash, CHR ''n'']
      else if r = 0x0D then [backslash, CHR ''r'']
      else if r = 0x09 then [backslash, CHR ''t'']
      else if r < 0x20 then [backslash, CHR ''u'', CHR ''0'', CHR ''0'', hex_digit (r div 16), hex_digit (r mod 16)]
      else EncodeRune r)"

definition appendString :: "bytes \<Rightarrow> bytes" where
  "appendString s = quote # concat (map esc_rune (runes s)) @ [quote]"

definition appendInt :: "int \<Rightarrow> jcs_err + bytes" where
  "appendInt n = (if n > MaxInt \<or> n < - MaxInt then Inl ErrNumber else Inr (int_str n))"

definition appendUint :: "int \<Rightarrow> jcs_err + bytes" where
  "appendUint n = (if n > MaxInt then Inl ErrNumber else Inr (int_str n))"

definition appendFloat :: "gofloat \<Rightarrow> jcs_err + bytes" where
  "appendFloat f = (case f of
      Fin r \<Rightarrow> if of_int \<lfloor>r\<rfloor> \<noteq> r then Inl ErrNumber
              else if r > of_int MaxInt \<or> r < - of_int MaxInt then Inl ErrNumber
              else Inr (int_str \<lfloor>r\<rfloor>)
    | _ \<Rightarrow> Inl ErrNumber)"

definition is_unsigned :: "itype \<Rightarrow> bool" where
  "is_unsigned t = (t \<in> {U, U8, U16, U32, U64})"

section \<open>Member order\<close>

fun units_less :: "nat list \<Rightarrow> nat list \<Rightarrow> bool" where
  "units_less (x # xs) (y # ys) = (if x \<noteq> y then x < y else units_less xs ys)"
| "units_less xs ys = (length xs < length ys)"

definition utf16Less :: "bytes \<Rightarrow> bytes \<Rightarrow> bool" where
  "utf16Less a b = units_less (utf16_Encode (runes a)) (utf16_Encode (runes b))"

text \<open>\<open>sort.Slice\<close> with a comparison; on keys that a total order separates every sort agrees.\<close>

fun insert_by :: "('a \<Rightarrow> 'a \<Rightarrow> bool) \<Rightarrow> 'a \<Rightarrow> 'a list \<Rightarrow> 'a list" where
  "insert_by lt x [] = [x]"
| "insert_by lt x (y # ys) = (if lt y x then y # insert_by lt x ys else x # y # ys)"

definition sort_slice :: "('a \<Rightarrow> 'a \<Rightarrow> bool) \<Rightarrow> 'a list \<Rightarrow> 'a list" where
  "sort_slice lt xs = foldr (insert_by lt) xs []"

definition sorted_keys :: "'v gomap \<Rightarrow> bytes list" where
  "sorted_keys m = sort_slice utf16Less (map fst m)"

section \<open>Serialisation\<close>

fun comma_join :: "bytes list \<Rightarrow> bytes" where
  "comma_join [] = []"
| "comma_join [x] = x"
| "comma_join (x # y # zs) = x @ CHR '','' # comma_join (y # zs)"

lemma map_of_size [termination_simp]: "map_of m k = Some v \<Longrightarrow> size v < Suc (size_list (size_prod (\<lambda>x. 0) size) m)"
  by (drule map_of_SomeD) (simp add: size_list_pair_lt)

function appendValue :: "gval \<Rightarrow> nat \<Rightarrow> jcs_err + bytes" where
  "appendValue v depth =
     (if depth > MaxDepth then Inl ErrDepth
      else case v of
        GNil \<Rightarrow> Inr ''null''
      | GBool b \<Rightarrow> Inr (if b then ''true'' else ''false'')
      | GStr s \<Rightarrow> bindr (checkString s) (\<lambda>_. Inr (appendString s))
      | GNum s \<Rightarrow> bindr (checkNumberLiteral s) (\<lambda>n. Inr (int_str n))
      | GInt t i \<Rightarrow> if is_unsigned t then appendUint i else appendInt i
      | GFloat64 f \<Rightarrow> appendFloat f
      | GMap m \<Rightarrow>
          bindr (first_err checkString (map fst m)) (\<lambda>_.
          bindr (map_err (\<lambda>k.
              bindr (case map_of m k of None \<Rightarrow> Inr ''null'' | Some w \<Rightarrow> appendValue w (Suc depth)) (\<lambda>b.
              Inr (appendString k @ CHR '':'' # b))) (sorted_keys m)) (\<lambda>bs.
          Inr (CHR ''{'' # comma_join bs @ ''}'')))
      | GList xs \<Rightarrow>
          bindr (map_err (\<lambda>w. appendValue w (Suc depth)) xs) (\<lambda>bs.
          Inr (CHR ''['' # comma_join bs @ '']''))
      | _ \<Rightarrow> Inl ErrType)"
  by pat_completeness auto
termination
  by (relation "measure (\<lambda>(v, d). size v)")
     (auto simp: less_Suc_eq_le size_list_estimation' dest: map_of_size)

declare appendValue.simps [simp del]

definition Canonicalize :: "gval \<Rightarrow> jcs_err + bytes" where
  "Canonicalize v = appendValue v 0"

section \<open>The strict parser\<close>

fun parseValue :: "nat \<Rightarrow> decoder \<Rightarrow> nat \<Rightarrow> jcs_err + gval \<times> decoder"
  and parseFromToken :: "nat \<Rightarrow> decoder \<Rightarrow> jtoken \<Rightarrow> nat \<Rightarrow> jcs_err + gval \<times> decoder"
  and parse_members :: "nat \<Rightarrow> decoder \<Rightarrow> gval gomap \<Rightarrow> nat \<Rightarrow> jcs_err + gval \<times> decoder"
  and parse_elements :: "nat \<Rightarrow> decoder \<Rightarrow> gval list \<Rightarrow> nat \<Rightarrow> jcs_err + gval \<times> decoder" where
  "parseValue 0 d depth = Inl OutOfFuel"
| "parseValue (Suc f) d depth =
     (if depth > MaxDepth then Inl ErrDepth
      else bindr (wrap_err ErrParse (Token d)) (\<lambda>(tok, d1). parseFromToken f d1 tok depth))"
| "parseFromToken 0 d tok depth = Inl OutOfFuel"
| "parseFromToken (Suc f) d tok depth =
     (if depth > MaxDepth then Inl ErrDepth
      else case tok of
        TDelim c \<Rightarrow> if c = CHR ''{'' then parse_members f d [] depth
                   else if c = CHR ''['' then parse_elements f d [] depth
                   else Inl ErrDelim
      | TStr s \<Rightarrow> bindr (checkString s) (\<lambda>_. Inr (GStr s, d))
      | TNum s \<Rightarrow> bindr (checkNumberLiteral s) (\<lambda>_. Inr (GNum s, d))
      | TBool b \<Rightarrow> Inr (GBool b, d)
      | TNull \<Rightarrow> Inr (GNil, d))"
| "parse_members 0 d obj depth = Inl OutOfFuel"
| "parse_members (Suc f) d obj depth =
     (if More d then
        bindr (wrap_err ErrParse (Token d)) (\<lambda>(tok, d1).
          case tok of
            TStr key \<Rightarrow>
              bindr (checkString key) (\<lambda>_.
              if has_key obj key then Inl (ErrDuplicateKey key)
              else bindr (parseValue f d1 (Suc depth)) (\<lambda>(v, d2).
                   parse_members f d2 (put key v obj) depth))
          | _ \<Rightarrow> Inl ErrKey)
      else bindr (wrap_err ErrParse (Token d)) (\<lambda>(tok, d1). Inr (GMap obj, d1)))"
| "parse_elements 0 d arr depth = Inl OutOfFuel"
| "parse_elements (Suc f) d arr depth =
     (if More d then
        bindr (parseValue f d (Suc depth)) (\<lambda>(v, d1). parse_elements f d1 (arr @ [v]) depth)
      else bindr (wrap_err ErrParse (Token d)) (\<lambda>(tok, d1). Inr (GList arr, d1)))"

definition parse_fuel :: "bytes \<Rightarrow> nat" where
  "parse_fuel raw = 4 * length raw + 4"

definition ParseStrict :: "bytes \<Rightarrow> jcs_err + gval" where
  "ParseStrict raw =
     bindr (parseValue (parse_fuel raw) (NewDecoder raw) 0) (\<lambda>(v, d).
     case Token d of
       Inr _ \<Rightarrow> Inl ErrTrailing
     | Inl e \<Rightarrow> if e = JsonEOF then Inr v else Inl ErrTrailing)"

definition CanonicalizeRaw :: "bytes \<Rightarrow> jcs_err + bytes" where
  "CanonicalizeRaw raw = bindr (ParseStrict raw) Canonicalize"

section \<open>The parser always finishes\<close>

abbreviation unread :: "decoder \<Rightarrow> nat" where
  "unread d \<equiv> length (dc_buf d)"

lemma parse_consumes:
  "\<forall>v d'. parseValue f d depth = Inr (v, d') \<longrightarrow> unread d' < unread d"
  "\<forall>v d'. parseFromToken f d tok depth = Inr (v, d') \<longrightarrow> unread d' \<le> unread d"
  "\<forall>v d'. parse_members f d obj depth = Inr (v, d') \<longrightarrow> unread d' < unread d"
  "\<forall>v d'. parse_elements f d arr depth = Inr (v, d') \<longrightarrow> unread d' < unread d"
proof (induction f d depth and f d tok depth and f d obj depth and f d arr depth
    rule: parseValue_parseFromToken_parse_members_parse_elements.induct)
  case (2 f d depth)
  show ?case
  proof (clarify)
    fix v d' assume "parseValue (Suc f) d depth = Inr (v, d')"
    then obtain tok d1 where t: "\<not> MaxDepth < depth" "Token d = Inr (tok, d1)" "parseFromToken f d1 tok depth = Inr (v, d')"
      by (auto split: if_splits)
    with 2[OF t(1) _ refl, of tok d1] have "unread d' \<le> unread d1" by simp
    with Token_length[OF t(2)] show "unread d' < unread d" by simp
  qed
next
  case (4 f d tok depth)
  show ?case
  proof (cases tok)
    case (TDelim c)
    then show ?thesis using 4(1)[of c] 4(2)[of c] by (simp add: less_imp_le)
  qed simp_all
next
  case (6 f d obj depth)
  show ?case
  proof (cases "More d")
    case True
    show ?thesis
    proof (clarify)
      fix v d' assume a: "parse_members (Suc f) d obj depth = Inr (v, d')"
      with True obtain tok d1 where td: "Token d = Inr (tok, d1)" by auto
      with a True obtain key where k: "tok = TStr key" by (cases tok) auto
      with a True td obtain w d2 where t: "Token d = Inr (TStr key, d1)" "checkString key = Inr ()"
        "\<not> has_key obj key" "parseValue f d1 (Suc depth) = Inr (w, d2)"
        "parse_members f d2 (put key w obj) depth = Inr (v, d')"
        by (auto split: if_split_asm)
      have "unread d2 < unread d1" using 6(1)[OF True _ refl refl t(2,3), of d1] t(1,4) by simp
      moreover have "unread d' < unread d2"
        using 6(2)[OF True _ refl refl t(2,3) t(4) refl] t(1,5) by simp
      ultimately show "unread d' < unread d" using Token_length[OF t(1)] by simp
    qed
  qed (auto dest: Token_length)
next
  case (8 f d arr depth)
  show ?case
  proof (cases "More d")
    case True
    show ?thesis
    proof (clarify)
      fix v d' assume "parse_elements (Suc f) d arr depth = Inr (v, d')"
      with True obtain w d1 where t: "parseValue f d (Suc depth) = Inr (w, d1)" "parse_elements f d1 (arr @ [w]) depth = Inr (v, d')"
        by auto
      with 8(1)[OF True] 8(2)[OF True t(1) refl] show "unread d' < unread d" by fastforce
    qed
  qed (auto dest: Token_length)
qed simp_all

lemma parse_enough_fuel:
  "4 * unread d + 4 \<le> f \<longrightarrow> parseValue f d depth \<noteq> Inl OutOfFuel"
  "4 * unread d + 7 \<le> f \<longrightarrow> parseFromToken f d tok depth \<noteq> Inl OutOfFuel"
  "4 * unread d + 6 \<le> f \<longrightarrow> parse_members f d obj depth \<noteq> Inl OutOfFuel"
  "4 * unread d + 6 \<le> f \<longrightarrow> parse_elements f d arr depth \<noteq> Inl OutOfFuel"
proof (induction f d depth and f d tok depth and f d obj depth and f d arr depth
    rule: parseValue_parseFromToken_parse_members_parse_elements.induct)
  case (2 f d depth)
  show ?case
  proof (cases "Token d")
    case (Inr p)
    then obtain tok d1 where t: "Token d = Inr (tok, d1)" by (cases p) auto
    from Token_length[OF t] 2[OF _ _ refl, of tok d1] t show ?thesis by auto
  qed (simp add: wrap_err_def)
next
  case (4 f d tok depth)
  show ?case
  proof (cases tok)
    case (TDelim c)
    then show ?thesis using 4(1)[of c] 4(2)[of c] by simp
  qed (simp_all add: bindr_def checkString_def checkNumberLiteral_def Let_def)
next
  case (6 f d obj depth)
  show ?case
  proof (cases "Token d")
    case (Inr p)
    then obtain tok d1 where t: "Token d = Inr (tok, d1)" by (cases p) auto
    note l = Token_length[OF t]
    show ?thesis
    proof (cases "More d \<and> (\<exists>k. tok = TStr k \<and> checkString k = Inr () \<and> \<not> has_key obj k)")
      case True
      then obtain k where k: "More d" "tok = TStr k" "checkString k = Inr ()" "\<not> has_key obj k" by blast
      from t k(2) have t': "wrap_err ErrParse (Token d) = Inr (TStr k, d1)" by simp
      note pv = 6(1)[OF k(1) t' refl refl k(3,4)]
      show ?thesis
      proof (cases "parseValue f d1 (Suc depth)")
        case (Inl e)
        with pv k t l show ?thesis by (auto simp: wrap_err_def)
      next
        case (Inr q)
        then obtain v d2 where q: "parseValue f d1 (Suc depth) = Inr (v, d2)" by (cases q) auto
        from parse_consumes(1) q have "unread d2 < unread d1" by blast
        with 6(2)[OF k(1) t' refl refl k(3,4) q refl] k t l q show ?thesis by (auto simp: wrap_err_def)
      qed
    next
      case False
      then show ?thesis using t
        by (auto simp: wrap_err_def bindr_def checkString_def split: jtoken.splits)
    qed
  qed (simp add: wrap_err_def)
next
  case (8 f d arr depth)
  show ?case
  proof (cases "More d")
    case True
    show ?thesis
    proof (cases "parseValue f d (Suc depth)")
      case (Inl e)
      with 8(1)[OF True] True show ?thesis by auto
    next
      case (Inr q)
      then obtain v d2 where q: "parseValue f d (Suc depth) = Inr (v, d2)" by (cases q) auto
      from parse_consumes(1) q have "unread d2 < unread d" by blast
      with 8(2)[OF True q refl] True q show ?thesis by auto
    qed
  next
    case False
    then show ?thesis by (auto simp: wrap_err_def bindr_def split: sum.splits)
  qed
qed simp_all

section \<open>Scalars read back\<close>

text \<open>What follows a value in a document: nothing, a separator or a closing bracket.\<close>

definition delimited :: "bytes \<Rightarrow> bool" where
  "delimited s = (case s of [] \<Rightarrow> True | c # _ \<Rightarrow> c \<in> {CHR '','', CHR '']'', CHR ''}''})"

lemma EncodeRune_ascii: "r < 0x80 \<Longrightarrow> EncodeRune r = [char_of r]"
  by (simp add: EncodeRune_def scalar_def)

lemma EncodeRune_hd: "scalar r \<Longrightarrow> 0x80 \<le> r \<Longrightarrow> \<exists>c t. EncodeRune r = c # t \<and> 0x80 \<le> byte c"
proof -
  assume r: "scalar r" "0x80 \<le> r"
  obtain c t where e: "EncodeRune r = c # t" by (cases "EncodeRune r") auto
  have "byte c < 0x80 \<Longrightarrow> fst (DecodeRune (EncodeRune r @ [])) = byte c"
    by (simp add: DecodeRune_def e)
  with DecodeRune_EncodeRune[OF r(1), of "[]"] r(2) have "0x80 \<le> byte c" by fastforce
  with e show ?thesis by blast
qed

lemma getu4_low: "r < 256 \<Longrightarrow> getu4 (CHR ''0'' # CHR ''0'' # hex_digit (r div 16) # hex_digit (r mod 16) # t) = Some (r, t)"
proof -
  assume r: "r < 256"
  have "hex_val (CHR ''0'') = Some 0" by (simp add: hex_val_def)
  moreover have "hex_val (hex_digit (r div 16)) = Some (r div 16)" using r by simp
  moreover have "hex_val (hex_digit (r mod 16)) = Some (r mod 16)" by simp
  ultimately show ?thesis by (simp add: getu4_def)
qed

lemma byte_code: "byte (CHR 0x22) = 0x22" "byte (CHR 0x5C) = 0x5C"
  by (simp_all add: byte_def)

lemma char_byteI: "byte c = n \<Longrightarrow> c = char_of n"
  by auto

lemma scan_unit_plain:
  assumes "scalar r" "0x20 \<le> r" "r \<noteq> 0x22" "r \<noteq> 0x5C"
  shows "scan_unit (EncodeRune r @ rest) = Some (EncodeRune r, rest) \<and> hd (EncodeRune r) \<noteq> quote"
proof -
  obtain c t where e: "EncodeRune r = c # t" "0x20 \<le> byte c" "byte c \<noteq> 0x22" "byte c \<noteq> 0x5C"
  proof (cases "r < 0x80")
    case True
    with assms that[of "char_of r" "[]"] show ?thesis by (simp add: EncodeRune_ascii)
  next
    case False
    with EncodeRune_hd[of r] assms that show ?thesis by fastforce
  qed
  then have "c \<noteq> quote" "c \<noteq> backslash" by (auto simp: byte_code)
  with e DecodeRune_EncodeRune[OF assms(1), of rest] show ?thesis
    by (simp add: scan_unit_def)
qed

lemma scan_unit_esc:
  assumes "scalar r"
  shows "scan_unit (esc_rune r @ rest) = Some (EncodeRune r, rest) \<and> hd (esc_rune r) \<noteq> quote \<and> esc_rune r \<noteq> []"
proof -
  consider "r \<in> {0x22, 0x5C, 0x08, 0x0C, 0x0A, 0x0D, 0x09}"
    | "r < 0x20" "r \<notin> {0x22, 0x5C, 0x08, 0x0C, 0x0A, 0x0D, 0x09}"
    | "0x20 \<le> r" "r \<noteq> 0x22" "r \<noteq> 0x5C" by fastforce
  then show ?thesis
  proof cases
    case 1
    then show ?thesis
      by (elim insertE emptyE)
         (simp_all add: esc_rune_def scan_unit_def esc_char_def EncodeRune_ascii char_of_def bit_Suc_0_iff)
  next
    case 2
    then show ?thesis by (simp add: esc_rune_def scan_unit_def scan_u_escape_def getu4_low)
  next
    case 3
    then show ?thesis using scan_unit_plain[OF assms 3] by (simp add: esc_rune_def)
  qed
qed

lemma scan_string_esc:
  "list_all scalar rs \<Longrightarrow> scan_string (concat (map esc_rune rs) @ quote # rest) = Some (utf8 rs, rest)"
proof (induction rs)
  case Nil
  show ?case by (simp add: scan_string.simps)
next
  case (Cons r rs)
  then have r: "scalar r" by simp
  let ?t = "concat (map esc_rune rs) @ quote # rest"
  from scan_unit_esc[OF r, of ?t] obtain c u where e: "esc_rune r = c # u" "c \<noteq> quote"
    by (cases "esc_rune r") auto
  have "scan_string (esc_rune r @ ?t) = Some (EncodeRune r @ utf8 rs, rest)"
    using scan_unit_esc[OF r, of ?t] e Cons by (subst scan_string.simps) (simp add: e)
  then show ?case by simp
qed

lemma scan_scalar_string:
  "ValidString s \<Longrightarrow> scan_scalar (appendString s @ rest) = Some (TStr s, rest)"
  using ValidString_runes[of s] scan_string_esc[of "runes s" rest]
  by (simp add: scan_scalar_def appendString_def)

lemma delimited_not_digit: "delimited s \<Longrightarrow> takeWhile is_digit s = [] \<and> dropWhile is_digit s = s"
  by (auto simp: delimited_def is_digit_def split: list.splits)

lemma delimited_scan: "delimited s \<Longrightarrow> scan_frac s = Some ([], s) \<and> scan_exp s = Some ([], s)"
  by (auto simp: delimited_def scan_frac_def scan_exp_def split: list.splits)

lemma nat_str_hd_zero: "hd (nat_str n) = CHR ''0'' \<longleftrightarrow> n = 0"
proof (induction n rule: nat_str.induct)
  case (1 n)
  have d: "digit_char n = CHR ''0'' \<longleftrightarrow> n = 0" if "n < 10"
    using that by (metis digit_char_eval(1) digit_val_char zero_less_numeral)
  with 1 show ?case by (subst nat_str.simps) auto
qed

lemma scan_int_nat_str:
  assumes "delimited rest"
  shows "scan_int (nat_str n @ rest) = Some (nat_str n, rest)"
proof (cases "n = 0")
  case True
  then show ?thesis by (simp add: nat_str.simps[of 0] digit_char_eval scan_int_def)
next
  case False
  obtain c u where e: "nat_str n = c # u" by (cases "nat_str n") auto
  have c: "c \<noteq> CHR ''0''" using nat_str_hd_zero[of n] False e by simp
  have d: "\<forall>x \<in> set (nat_str n). is_digit x" by (rule nat_str_digits)
  have "takeWhile is_digit (nat_str n @ rest) = nat_str n" "dropWhile is_digit (nat_str n @ rest) = rest"
    using d delimited_not_digit[OF assms] by (simp_all add: takeWhile_append2 dropWhile_append2)
  with c d e show ?thesis by (simp add: scan_int_def del: takeWhile.simps dropWhile.simps)
qed

lemma hd_int_str: "hd (int_str i) = CHR ''-'' \<or> is_digit (hd (int_str i))"
  using nat_str_digits[of "nat i"] by (auto simp: int_str_def intro: hd_in_set)

lemma nat_str_hd_minus: "hd (nat_str n) \<noteq> CHR ''-''"
  using nat_str_digits[of n] by (metis hd_in_set minus_not_digit(1) nat_str_not_Nil)

lemma scan_number_int_str:
  assumes "delimited rest"
  shows "scan_number (int_str i @ rest) = Some (int_str i, rest)"
proof (cases "i < 0")
  case True
  then show ?thesis using scan_int_nat_str[OF assms] delimited_scan[OF assms] by (simp add: scan_number_def int_str_def)
next
  case False
  obtain c u where e: "nat_str (nat i) = c # u" by (cases "nat_str (nat i)") auto
  with nat_str_hd_minus[of "nat i"] have "c \<noteq> CHR ''-''" by simp
  with False e show ?thesis
    using scan_int_nat_str[OF assms, of "nat i"] delimited_scan[OF assms] by (simp add: scan_number_def int_str_def)
qed

lemma scan_scalar_int:
  assumes "delimited rest"
  shows "scan_scalar (int_str i @ rest) = Some (TNum (int_str i), rest)"
proof -
  obtain c u where e: "int_str i = c # u" by (cases "int_str i") auto
  moreover have "c = CHR ''-'' \<or> is_digit c" using hd_int_str[of i] e by simp
  moreover from this have "c \<noteq> quote" by (auto simp: is_digit_def)
  ultimately show ?thesis using scan_number_int_str[OF assms, of i] by (auto simp: scan_scalar_def)
qed

lemma digit_char_val: "is_digit c \<Longrightarrow> digit_char (digit_val c) = c"
  by (simp add: is_digit_def digit_val_def digit_char_def)

lemma nat_str_digits_val:
  "list_all is_digit s \<Longrightarrow> s \<noteq> [] \<Longrightarrow> hd s \<noteq> CHR ''0'' \<or> length s = 1 \<Longrightarrow> nat_str (digits_val s) = s"
proof (induction s rule: rev_induct)
  case (snoc c s)
  have c: "is_digit c" "digit_val c < 10" using snoc.prems by (auto simp: is_digit_def digit_val_def)
  show ?case
  proof (cases s)
    case Nil
    then show ?thesis using c by (simp add: nat_str.simps digit_char_val)
  next
    case (Cons d t)
    with snoc.prems have h: "d \<noteq> CHR ''0''" "is_digit d" by auto
    then have "digit_val d \<noteq> 0"
      by (metis digit_char_eval(1) digit_char_val)
    then have "digits_val s \<noteq> 0" using Cons by simp
    moreover have "nat_str (digits_val s) = s" using snoc Cons by auto
    ultimately show ?thesis using c by (subst nat_str.simps) (simp add: digits_val_snoc digit_char_val)
  qed
qed simp

lemma checkNumberLiteral_int_str:
  assumes "\<bar>n\<bar> \<le> MaxInt"
  shows "checkNumberLiteral (int_str n) = Inr n"
proof -
  have i: "int64 n" using assms by (auto simp: int64_def MaxInt_def)
  have d: "list_all is_digit (nat_str k)" for k using nat_str_digits[of k] by (simp add: list_all_iff)
  have z: "\<not> (hd (nat_str k) = CHR ''0'' \<and> length (nat_str k) > 1)" for k
    using nat_str_hd_zero[of k] by (cases "k = 0") (auto simp: nat_str.simps[of 0])
  show ?thesis
  proof (cases "n < 0")
    case True
    have "nat_str (nat (- n)) \<noteq> ''0''" using nat_str_hd_zero[of "nat (- n)"] True by auto
    with True assms i d[of "nat (- n)"] z[of "nat (- n)"] show ?thesis
      by (simp add: checkNumberLiteral_def int_str_def Let_def)
  next
    case False
    have "nat_str (nat n) \<noteq> ''-''" "nat_str (nat n) \<noteq> ''-0''" using nat_str_hd_minus[of "nat n"] by auto
    with False assms i d[of "nat n"] z[of "nat n"] nat_str_hd_minus[of "nat n"] show ?thesis
      by (simp add: checkNumberLiteral_def int_str_def Let_def)
  qed
qed

lemma checkNumberLiteral_Inr:
  assumes "checkNumberLiteral s = Inr n"
  shows "s = int_str n" "\<bar>n\<bar> \<le> MaxInt"
proof -
  define body where "body = (if hd s = CHR ''-'' then tl s else s)"
  have b: "body \<noteq> []" "\<not> (hd body = CHR ''0'' \<and> length body > 1)" "list_all is_digit body" "s \<noteq> []" "s \<noteq> ''-0''"
    "n = (if hd s = CHR ''-'' then - int (digits_val body) else int (digits_val body))" "\<bar>n\<bar> \<le> MaxInt"
    using assms by (auto simp: checkNumberLiteral_def Let_def body_def split: if_split_asm)
  have "hd body \<noteq> CHR ''0'' \<or> length body = 1" using b(1,2) by (cases body) (auto simp: Suc_lessI)
  then have ns: "nat_str (digits_val body) = body" using b nat_str_digits_val by blast
  show "\<bar>n\<bar> \<le> MaxInt" by (rule b(7))
  show "s = int_str n"
  proof (cases "hd s = CHR ''-''")
    case True
    then have s: "s = CHR ''-'' # body" using b(4) by (cases s) (auto simp: body_def)
    have "digits_val body \<noteq> 0"
    proof
      assume "digits_val body = 0"
      with ns have "body = ''0''" by (simp add: nat_str.simps[of 0] digit_char_eval)
      with s b(5) show False by simp
    qed
    with b(6) True s ns show ?thesis by (simp add: int_str_def)
  next
    case False
    then show ?thesis using b(6) ns by (simp add: int_str_def body_def)
  qed
qed

end
