(* ===== verification/JcsRead.thy ===== *)
theory JcsRead
  imports Jcs
begin

text \<open>
  Reading a canonical document back (src/pkg/jcs/jcs.go): the strict parser returns the value in its
  normal form, so the canonical bytes determine the value and canonicalising them again changes
  nothing.
\<close>

section \<open>The order of the members\<close>

definition utf16_key :: "bytes \<Rightarrow> nat list" where
  "utf16_key k = utf16_Encode (runes k)"

lemma units_less_iff: "units_less xs ys \<longleftrightarrow> xs < ys"
proof (induction xs arbitrary: ys)
  case Nil
  show ?case by (cases ys) auto
next
  case (Cons x xs)
  then show ?case by (cases ys) auto
qed

lemma insert_by_insort: "insert_by utf16Less x ys = insort_key utf16_key x ys"
  by (induction ys) (auto simp: utf16Less_def units_less_iff utf16_key_def)

lemma sort_slice_sort_key: "sort_slice utf16Less ks = sort_key utf16_key ks"
proof -
  have "insert_by utf16Less = insort_key utf16_key" by (intro ext) (rule insert_by_insort)
  then show ?thesis by (simp add: sort_slice_def sort_key_def)
qed

lemma set_sorted_keys [simp]: "set (sorted_keys m) = fst ` set m"
  by (simp add: sorted_keys_def sort_slice_sort_key)

lemma length_sorted_keys [simp]: "length (sorted_keys m) = length m"
  by (simp add: sorted_keys_def sort_slice_sort_key)

lemma distinct_sorted_keys [simp]: "distinct (sorted_keys m) \<longleftrightarrow> wf_map m"
  by (simp add: sorted_keys_def sort_slice_sort_key wf_map_def)

lemma utf16_key_inj_on: "\<forall>k \<in> K. ValidString k \<Longrightarrow> inj_on utf16_key K"
  unfolding inj_on_def utf16_key_def
  using utf16_Encode_inj ValidString_runes ValidString_inj by metis

text \<open>Two maps with the same well-formed member names list them in the same order.\<close>

lemma member_order_unique:
  assumes "wf_map a" "wf_map b" "fst ` set a = fst ` set b" "\<forall>k \<in> fst ` set a. ValidString k"
  shows "sorted_keys a = sorted_keys b"
proof (rule map_sorted_distinct_set_unique[where f = utf16_key])
  have i: "inj_on utf16_key (set (sorted_keys a) \<union> set (sorted_keys b))"
    using utf16_key_inj_on[of "fst ` set a"] assms(3,4) by simp
  then show "inj_on utf16_key (set (sorted_keys a) \<union> set (sorted_keys b))" .
  show "sorted (map utf16_key (sorted_keys a))" "sorted (map utf16_key (sorted_keys b))"
    by (simp_all add: sorted_keys_def sort_slice_sort_key)
  show "distinct (map utf16_key (sorted_keys a))" "distinct (map utf16_key (sorted_keys b))"
    using assms(1,2) i by (auto simp: distinct_map intro: inj_on_subset)
qed (simp add: assms(3))

section \<open>Normal form\<close>

text \<open>The value a canonical document denotes: numbers as literals, members in UTF-16 order.\<close>

function jnorm :: "gval \<Rightarrow> gval" where
  "jnorm v = (case v of
      GInt t i \<Rightarrow> GNum (int_str i)
    | GFloat64 f \<Rightarrow> (case f of Fin r \<Rightarrow> GNum (int_str \<lfloor>r\<rfloor>) | _ \<Rightarrow> v)
    | GList xs \<Rightarrow> GList (map jnorm xs)
    | GMap m \<Rightarrow> GMap (map (\<lambda>k. (k, case map_of m k of None \<Rightarrow> GNil | Some w \<Rightarrow> jnorm w)) (sorted_keys m))
    | _ \<Rightarrow> v)"
  by pat_completeness auto
termination
  by (relation "measure size") (auto simp: less_Suc_eq_le size_list_estimation' dest: map_of_size)

declare jnorm.simps [simp del]

lemma jnorm_simps [simp]:
  "jnorm GNil = GNil" "jnorm (GBool b) = GBool b" "jnorm (GStr s) = GStr s" "jnorm (GNum s) = GNum s"
  "jnorm (GInt t i) = GNum (int_str i)" "jnorm (GFloat64 (Fin r)) = GNum (int_str \<lfloor>r\<rfloor>)"
  "jnorm (GList xs) = GList (map jnorm xs)"
  by (simp_all add: jnorm.simps)

lemma jnorm_GMap:
  "jnorm (GMap m) = GMap (map (\<lambda>k. (k, case map_of m k of None \<Rightarrow> GNil | Some w \<Rightarrow> jnorm w)) (sorted_keys m))"
  by (simp add: jnorm.simps)

section \<open>Reading a canonical document\<close>

lemma Token_scalar:
  assumes "dc_buf d = s" "scan_scalar s = Some (tok, r)" "tokenValueAllowed (dc_state d)"
  shows "Token d = Inr (tok, d\<lparr>dc_buf := r, dc_state := tokenValueEnd (dc_state d)\<rparr>)"
proof -
  obtain c t where s: "s = c # t" using assms(2) by (cases s) (auto simp: scan_scalar_def)
  have "c = quote \<or> c = CHR ''-'' \<or> is_digit c \<or> c = CHR ''t'' \<or> c = CHR ''f'' \<or> c = CHR ''n''"
    using assms(2) by (simp add: s scan_scalar_def split: if_split_asm) blast
  then have c: "\<not> is_space c" "c \<noteq> CHR ''[''" "c \<noteq> CHR '']''" "c \<noteq> CHR ''{''" "c \<noteq> CHR ''}''" "c \<noteq> CHR '':''" "c \<noteq> CHR '',''"
    by (auto simp: is_space_def is_digit_def)
  have "dc_state d \<noteq> ObjectStart" "dc_state d \<noteq> ObjectKey" using assms(3) by (auto simp: tokenValueAllowed_def)
  with c assms s show ?thesis by (simp add: Token.simps[of d] skip_ws_def scalar_token_def)
qed

lemma Token_key:
  assumes "dc_buf d = s" "scan_scalar s = Some (TStr k, r)" "hd s = quote" "dc_state d = ObjectStart \<or> dc_state d = ObjectKey"
  shows "Token d = Inr (TStr k, d\<lparr>dc_buf := r, dc_state := ObjectColon\<rparr>)"
proof -
  obtain t where s: "s = quote # t" using assms(2,3) by (cases s) (auto simp: scan_scalar_def)
  then show ?thesis using assms
    by (simp add: Token.simps[of d] skip_ws_def is_space_def scalar_token_def)
qed

lemma Token_open:
  "dc_buf d = CHR ''['' # t \<Longrightarrow> tokenValueAllowed (dc_state d) \<Longrightarrow>
     Token d = Inr (TDelim (CHR ''[''), \<lparr>dc_buf = t, dc_state = ArrayStart, dc_stack = dc_state d # dc_stack d\<rparr>)"
  "dc_buf d = CHR ''{'' # t \<Longrightarrow> tokenValueAllowed (dc_state d) \<Longrightarrow>
     Token d = Inr (TDelim (CHR ''{''), \<lparr>dc_buf = t, dc_state = ObjectStart, dc_stack = dc_state d # dc_stack d\<rparr>)"
  by (simp_all add: Token.simps[of d] skip_ws_def is_space_def open_delim_def)

lemma Token_close:
  "dc_buf d = CHR '']'' # t \<Longrightarrow> dc_state d = ArrayStart \<or> dc_state d = ArrayComma \<Longrightarrow> dc_stack d = up # ups \<Longrightarrow>
     Token d = Inr (TDelim (CHR '']''), \<lparr>dc_buf = t, dc_state = tokenValueEnd up, dc_stack = ups\<rparr>)"
  "dc_buf d = CHR ''}'' # t \<Longrightarrow> dc_state d = ObjectStart \<or> dc_state d = ObjectComma \<Longrightarrow> dc_stack d = up # ups \<Longrightarrow>
     Token d = Inr (TDelim (CHR ''}''), \<lparr>dc_buf = t, dc_state = tokenValueEnd up, dc_stack = ups\<rparr>)"
  by (auto simp: Token.simps[of d] skip_ws_def is_space_def close_delim_def)

lemma Token_separator:
  "dc_buf d = c # t \<Longrightarrow> c = CHR '':'' \<or> c = CHR '','' \<Longrightarrow> separator c (dc_state d) = Some st \<Longrightarrow>
     Token d = Token (d\<lparr>dc_buf := t, dc_state := st\<rparr>)"
  by (auto simp: Token.simps[of d] skip_ws_def is_space_def)

lemma parseValue_separator:
  "dc_buf d = c # t \<Longrightarrow> c = CHR '':'' \<or> c = CHR '','' \<Longrightarrow> separator c (dc_state d) = Some st \<Longrightarrow>
     parseValue f d depth = parseValue f (d\<lparr>dc_buf := t, dc_state := st\<rparr>) depth"
  by (cases f) (simp_all add: Token_separator)

lemma More_Cons: "dc_buf d = c # t \<Longrightarrow> \<not> is_space c \<Longrightarrow> More d \<longleftrightarrow> c \<noteq> CHR '']'' \<and> c \<noteq> CHR ''}''"
  by (simp add: More_def skip_ws_def)

lemma not_space [simp]:
  "\<not> is_space (CHR '','')" "\<not> is_space (CHR '':'')" "\<not> is_space (CHR '']'')" "\<not> is_space (CHR ''}'')"
  "\<not> is_space (CHR ''['')" "\<not> is_space (CHR ''{'')" "\<not> is_space quote"
  by (simp_all add: is_space_def)

lemma delimited_simps [simp]: "delimited []" "delimited (CHR '','' # t)" "delimited (CHR '']'' # t)" "delimited (CHR ''}'' # t)"
  by (simp_all add: delimited_def)

definition starts_value :: "bytes \<Rightarrow> bool" where
  "starts_value b = (case b of [] \<Rightarrow> False | c # _ \<Rightarrow> \<not> is_space c \<and> c \<noteq> CHR '']'' \<and> c \<noteq> CHR ''}'')"

lemma starts_value_int: "starts_value (int_str n)"
  using hd_int_str[of n] by (cases "int_str n") (auto simp: starts_value_def is_digit_def is_space_def)

lemma starts_value_Cons [simp]: "starts_value (c # t) \<longleftrightarrow> \<not> is_space c \<and> c \<noteq> CHR '']'' \<and> c \<noteq> CHR ''}''"
  by (simp add: starts_value_def)

lemma not_space_literal: "\<not> is_space (CHR ''n'')" "\<not> is_space (CHR ''t'')" "\<not> is_space (CHR ''f'')"
  by (simp_all add: is_space_def)

lemma appendValue_starts: "appendValue v depth = Inr b \<Longrightarrow> starts_value b"
  by (subst (asm) appendValue.simps)
     (auto simp: starts_value_int appendString_def appendUint_def appendInt_def appendFloat_def not_space_literal
       split: if_split_asm gval.split_asm gofloat.split_asm)

definition comma_tail :: "bytes list \<Rightarrow> bytes" where
  "comma_tail bs = concat (map (\<lambda>b. CHR '','' # b) bs)"

lemma comma_tail_simps [simp]: "comma_tail [] = []" "comma_tail (b # bs) = CHR '','' # b @ comma_tail bs"
  by (simp_all add: comma_tail_def)

lemma comma_join_Cons: "comma_join (b # bs) = b @ comma_tail bs"
  by (induction bs arbitrary: b) auto

lemma delimited_comma_tail [simp]: "delimited (comma_tail bs @ CHR '']'' # t)" "delimited (comma_tail bs @ CHR ''}'' # t)"
  by (cases bs; simp)+

text \<open>What reading the canonical text of a value returns.\<close>

definition reads_back :: "gval \<Rightarrow> nat \<Rightarrow> bytes \<Rightarrow> bool" where
  "reads_back v depth b =
     (\<forall>f d rest. dc_buf d = b @ rest \<longrightarrow> delimited rest \<longrightarrow> tokenValueAllowed (dc_state d) \<longrightarrow> 4 * length b + 4 \<le> f \<longrightarrow>
        parseValue f d depth = Inr (jnorm v, d\<lparr>dc_buf := rest, dc_state := tokenValueEnd (dc_state d)\<rparr>))"

lemma reads_backD:
  "reads_back v depth b \<Longrightarrow> dc_buf d = b @ rest \<Longrightarrow> delimited rest \<Longrightarrow> tokenValueAllowed (dc_state d) \<Longrightarrow>
   4 * length b + 4 \<le> f \<Longrightarrow>
   parseValue f d depth = Inr (jnorm v, d\<lparr>dc_buf := rest, dc_state := tokenValueEnd (dc_state d)\<rparr>)"
  by (simp add: reads_back_def)

lemma elements_tail_back:
  assumes "list_all2 (\<lambda>x b. reads_back x (Suc depth) b) xs bs"
    and "dc_buf d = comma_tail bs @ CHR '']'' # rest" "dc_state d = ArrayComma" "dc_stack d = up # ups"
    and "4 * length (comma_tail bs) + 10 \<le> f"
  shows "parse_elements f d acc depth =
    Inr (GList (acc @ map jnorm xs), \<lparr>dc_buf = rest, dc_state = tokenValueEnd up, dc_stack = ups\<rparr>)"
  using assms
proof (induction xs bs arbitrary: d f acc rule: list_all2_induct)
  case Nil
  then obtain g where f: "f = Suc g" by (cases f) auto
  from Nil have "\<not> More d" by (simp add: More_Cons)
  with Nil Token_close(1)[of d rest up ups] f show ?case by simp
next
  case (Cons x xs b bs)
  then obtain g where f: "f = Suc g" by (cases f) auto
  from Cons.prems have m: "More d" by (simp add: More_Cons)
  let ?rest = "comma_tail bs @ CHR '']'' # rest"
  let ?d1 = "d\<lparr>dc_buf := b @ ?rest, dc_state := ArrayValue\<rparr>"
  have "parseValue g d (Suc depth) = parseValue g ?d1 (Suc depth)"
    using Cons.prems by (intro parseValue_separator[of _ "CHR '',''"]) (auto simp: separator_def)
  also have "\<dots> = Inr (jnorm x, ?d1\<lparr>dc_buf := ?rest, dc_state := tokenValueEnd (dc_state ?d1)\<rparr>)"
    using Cons.prems f by (intro reads_backD[OF Cons.hyps(1)]) (auto simp: tokenValueAllowed_def)
  also have "\<dots> = Inr (jnorm x, d\<lparr>dc_buf := ?rest, dc_state := ArrayComma\<rparr>)" by (simp add: tokenValueEnd_def)
  finally have v: "parseValue g d (Suc depth) = Inr (jnorm x, d\<lparr>dc_buf := ?rest, dc_state := ArrayComma\<rparr>)" .
  have "parse_elements g (d\<lparr>dc_buf := ?rest, dc_state := ArrayComma\<rparr>) (acc @ [jnorm x]) depth =
    Inr (GList ((acc @ [jnorm x]) @ map jnorm xs), \<lparr>dc_buf = rest, dc_state = tokenValueEnd up, dc_stack = ups\<rparr>)"
    using Cons.prems f by (intro Cons.IH) auto
  with m v f show ?case by simp
qed

lemma elements_back:
  assumes "list_all2 (\<lambda>x b. reads_back x (Suc depth) b) xs bs"
    and "list_all starts_value bs"
    and "dc_buf d = comma_join bs @ CHR '']'' # rest" "dc_state d = ArrayStart" "dc_stack d = up # ups"
    and "4 * length (comma_join bs) + 10 \<le> f"
  shows "parse_elements f d [] depth =
    Inr (GList (map jnorm xs), \<lparr>dc_buf = rest, dc_state = tokenValueEnd up, dc_stack = ups\<rparr>)"
proof (cases bs)
  case Nil
  from assms(6) obtain g where f: "f = Suc g" by (cases f) auto
  from assms(3) Nil have "\<not> More d" by (simp add: More_Cons)
  with Token_close(1)[of d rest up ups] f assms Nil show ?thesis by simp
next
  case (Cons b bs')
  then obtain x xs' where xs: "xs = x # xs'" "reads_back x (Suc depth) b"
    "list_all2 (\<lambda>x b. reads_back x (Suc depth) b) xs' bs'"
    using assms(1) by (auto simp: list_all2_Cons2)
  from assms(6) obtain g where f: "f = Suc g" by (cases f) auto
  from assms(2) Cons obtain c t where ct: "b = c # t" "\<not> is_space c" "c \<noteq> CHR '']''" "c \<noteq> CHR ''}''"
    by (cases b) (auto simp: starts_value_def)
  then have m: "More d" using assms(3) Cons by (auto simp: comma_join_Cons More_Cons)
  let ?rest = "comma_tail bs' @ CHR '']'' # rest"
  have "parseValue g d (Suc depth) = Inr (jnorm x, d\<lparr>dc_buf := ?rest, dc_state := tokenValueEnd (dc_state d)\<rparr>)"
    using assms Cons f by (intro reads_backD[OF xs(2)]) (auto simp: comma_join_Cons tokenValueAllowed_def)
  moreover have "parse_elements g (d\<lparr>dc_buf := ?rest, dc_state := ArrayComma\<rparr>) [jnorm x] depth =
      Inr (GList ([jnorm x] @ map jnorm xs'), \<lparr>dc_buf = rest, dc_state = tokenValueEnd up, dc_stack = ups\<rparr>)"
    using assms Cons f ct by (intro elements_tail_back[OF xs(3)]) (auto simp: comma_join_Cons)
  ultimately show ?thesis using m f assms(4) xs(1) by (simp add: tokenValueEnd_def)
qed

lemma put_new: "\<not> has_key m k \<Longrightarrow> put k v m = m @ [(k, v)]"
  by (induction m) (auto simp: put_def has_key_def split: if_split_asm)

lemma member_back:
  assumes "Token d = Inr (TStr k, d\<lparr>dc_buf := CHR '':'' # b @ rest, dc_state := ObjectColon\<rparr>)" "More d"
    and "checkString k = Inr ()" "\<not> has_key obj k" "reads_back v (Suc depth) b" "delimited rest" "4 * length b + 4 \<le> f"
  shows "parse_members (Suc f) d obj depth =
    parse_members f (d\<lparr>dc_buf := rest, dc_state := ObjectComma\<rparr>) (obj @ [(k, jnorm v)]) depth"
proof -
  let ?d1 = "d\<lparr>dc_buf := CHR '':'' # b @ rest, dc_state := ObjectColon\<rparr>"
  let ?d2 = "d\<lparr>dc_buf := b @ rest, dc_state := ObjectValue\<rparr>"
  have "parseValue f ?d1 (Suc depth) = parseValue f ?d2 (Suc depth)"
    by (subst parseValue_separator[of _ "CHR '':''" "b @ rest" ObjectValue]) (simp_all add: separator_def)
  also have "\<dots> = Inr (jnorm v, ?d2\<lparr>dc_buf := rest, dc_state := tokenValueEnd (dc_state ?d2)\<rparr>)"
    using assms by (intro reads_backD[OF assms(5)]) (auto simp: tokenValueAllowed_def)
  finally show ?thesis using assms(1-4) by (simp add: tokenValueEnd_def put_new)
qed

definition member_text :: "bytes \<Rightarrow> bytes \<Rightarrow> bytes" where
  "member_text k b = appendString k @ CHR '':'' # b"

lemma checkString_valid: "checkString k = Inr u \<Longrightarrow> ValidString k"
  by (auto simp: checkString_def split: if_split_asm)

lemma Token_member:
  assumes "ValidString k" "dc_state d = ObjectStart \<or> dc_state d = ObjectKey" "dc_buf d = member_text k b @ rest"
  shows "Token d = Inr (TStr k, d\<lparr>dc_buf := CHR '':'' # b @ rest, dc_state := ObjectColon\<rparr>)"
  using assms scan_scalar_string[OF assms(1), of "CHR '':'' # b @ rest"]
  by (intro Token_key[of _ "member_text k b @ rest"]) (auto simp: member_text_def appendString_def)

lemma members_tail_back:
  assumes "list_all2 (\<lambda>(k, v) t. \<exists>b. t = member_text k b \<and> reads_back v (Suc depth) b \<and> checkString k = Inr ()) kvs ts"
    and "distinct (map fst (obj @ kvs))"
    and "dc_buf d = comma_tail ts @ CHR ''}'' # rest" "dc_state d = ObjectComma" "dc_stack d = up # ups"
    and "4 * length (comma_tail ts) + 10 \<le> f"
  shows "parse_members f d obj depth =
    Inr (GMap (obj @ map (\<lambda>(k, v). (k, jnorm v)) kvs), \<lparr>dc_buf = rest, dc_state = tokenValueEnd up, dc_stack = ups\<rparr>)"
  using assms
proof (induction kvs ts arbitrary: d f obj rule: list_all2_induct)
  case Nil
  then obtain g where f: "f = Suc g" by (cases f) auto
  from Nil have "\<not> More d" by (simp add: More_Cons)
  with Nil Token_close(2)[of d rest up ups] f show ?case by simp
next
  case (Cons kv kvs t ts)
  then obtain g where f: "f = Suc g" by (cases f) auto
  obtain k v b where kv: "kv = (k, v)" "t = member_text k b" "reads_back v (Suc depth) b" "checkString k = Inr ()"
    using Cons.hyps(1) by (cases kv) auto
  from Cons.prems have m: "More d" by (simp add: More_Cons)
  let ?rest = "comma_tail ts @ CHR ''}'' # rest"
  let ?d1 = "d\<lparr>dc_buf := member_text k b @ ?rest, dc_state := ObjectKey\<rparr>"
  have "Token d = Token ?d1"
    using Cons.prems kv(2) by (intro Token_separator[of _ "CHR '',''"]) (auto simp: separator_def)
  also have "\<dots> = Inr (TStr k, ?d1\<lparr>dc_buf := CHR '':'' # b @ ?rest, dc_state := ObjectColon\<rparr>)"
    using checkString_valid[OF kv(4)] by (intro Token_member) auto
  finally have "Token d = Inr (TStr k, d\<lparr>dc_buf := CHR '':'' # b @ ?rest, dc_state := ObjectColon\<rparr>)" by simp
  moreover have "\<not> has_key obj k" using Cons.prems(1) kv(1) by (auto simp: has_key_iff)
  ultimately have "parse_members f d obj depth =
      parse_members g (d\<lparr>dc_buf := ?rest, dc_state := ObjectComma\<rparr>) (obj @ [(k, jnorm v)]) depth"
    using m kv Cons.prems f unfolding f by (intro member_back) (auto simp: member_text_def)
  also have "\<dots> = Inr (GMap ((obj @ [(k, jnorm v)]) @ map (\<lambda>(k, v). (k, jnorm v)) kvs),
      \<lparr>dc_buf = rest, dc_state = tokenValueEnd up, dc_stack = ups\<rparr>)"
    using Cons.prems kv f by (intro Cons.IH) auto
  finally show ?case using kv(1) by simp
qed

lemma members_back:
  assumes "list_all2 (\<lambda>(k, v) t. \<exists>b. t = member_text k b \<and> reads_back v (Suc depth) b \<and> checkString k = Inr ()) kvs ts"
    and "distinct (map fst kvs)"
    and "dc_buf d = comma_join ts @ CHR ''}'' # rest" "dc_state d = ObjectStart" "dc_stack d = up # ups"
    and "4 * length (comma_join ts) + 10 \<le> f"
  shows "parse_members f d [] depth =
    Inr (GMap (map (\<lambda>(k, v). (k, jnorm v)) kvs), \<lparr>dc_buf = rest, dc_state = tokenValueEnd up, dc_stack = ups\<rparr>)"
proof (cases ts)
  case Nil
  from assms(6) obtain g where f: "f = Suc g" by (cases f) auto
  from assms(3) Nil have "\<not> More d" by (simp add: More_Cons)
  with Token_close(2)[of d rest up ups] f assms Nil show ?thesis by simp
next
  case (Cons t ts')
  then obtain kv kvs' where kvs: "kvs = kv # kvs'"
    "list_all2 (\<lambda>(k, v) t. \<exists>b. t = member_text k b \<and> reads_back v (Suc depth) b \<and> checkString k = Inr ()) kvs' ts'"
    and h: "(\<lambda>(k, v) t. \<exists>b. t = member_text k b \<and> reads_back v (Suc depth) b \<and> checkString k = Inr ()) kv t"
    using assms(1) by (auto simp: list_all2_Cons2)
  obtain k v b where kv: "kv = (k, v)" "t = member_text k b" "reads_back v (Suc depth) b" "checkString k = Inr ()"
    using h by (cases kv) auto
  from assms(6) obtain g where f: "f = Suc g" by (cases f) auto
  let ?rest = "comma_tail ts' @ CHR ''}'' # rest"
  have m: "More d" using assms(3) Cons kv(2) by (simp add: comma_join_Cons member_text_def appendString_def More_Cons)
  have "Token d = Inr (TStr k, d\<lparr>dc_buf := CHR '':'' # b @ ?rest, dc_state := ObjectColon\<rparr>)"
    using assms(3,4) Cons kv checkString_valid[OF kv(4)] by (intro Token_member) (auto simp: comma_join_Cons)
  then have "parse_members f d [] depth =
      parse_members g (d\<lparr>dc_buf := ?rest, dc_state := ObjectComma\<rparr>) ([] @ [(k, jnorm v)]) depth"
    using m kv assms Cons unfolding f by (intro member_back) (auto simp: member_text_def has_key_def comma_join_Cons f)
  also have "\<dots> = Inr (GMap (([] @ [(k, jnorm v)]) @ map (\<lambda>(k, v). (k, jnorm v)) kvs'),
      \<lparr>dc_buf = rest, dc_state = tokenValueEnd up, dc_stack = ups\<rparr>)"
    using assms kv kvs f Cons by (intro members_tail_back) (auto simp: comma_join_Cons member_text_def)
  finally show ?thesis using kv(1) kvs(1) by simp
qed

lemma scalar_reads_back:
  assumes "\<forall>rest. delimited rest \<longrightarrow> scan_scalar (b @ rest) = Some (tok, rest)"
    and "\<forall>g d. parseFromToken (Suc g) d tok depth = Inr (jnorm v, d)" "\<not> MaxDepth < depth"
  shows "reads_back v depth b"
  unfolding reads_back_def
proof (intro allI impI)
  fix f and d :: decoder and rest
  assume a: "dc_buf d = b @ rest" "delimited rest" "tokenValueAllowed (dc_state d)" "4 * length b + 4 \<le> f"
  then obtain g where f: "f = Suc (Suc g)" by (cases f; cases "f - 1") auto
  from Token_scalar[OF a(1) _ a(3)] assms(1) a(2) assms(2,3) f
  show "parseValue f d depth = Inr (jnorm v, d\<lparr>dc_buf := rest, dc_state := tokenValueEnd (dc_state d)\<rparr>)" by simp
qed

lemma int_reads_back:
  assumes "\<bar>n\<bar> \<le> MaxInt" "\<not> MaxDepth < depth" "jnorm v = GNum (int_str n)"
  shows "reads_back v depth (int_str n)"
  using assms checkNumberLiteral_int_str[OF assms(1)] by (intro scalar_reads_back) (auto simp: scan_scalar_int)

lemma literal_reads_back:
  assumes "\<not> MaxDepth < depth"
  shows "reads_back GNil depth ''null''" "reads_back (GBool True) depth ''true''" "reads_back (GBool False) depth ''false''"
proof -
  have "scan_scalar (''null'' @ rest) = Some (TNull, rest)" "scan_scalar (''true'' @ rest) = Some (TBool True, rest)"
    "scan_scalar (''false'' @ rest) = Some (TBool False, rest)" for rest
    by (simp_all add: scan_scalar_def is_digit_def strip_prefix_def)
  then show "reads_back GNil depth ''null''" "reads_back (GBool True) depth ''true''" "reads_back (GBool False) depth ''false''"
    using assms by (auto intro!: scalar_reads_back)
qed

text \<open>Unsigned values are not negative.\<close>

fun typed_ints :: "gval \<Rightarrow> bool" where
  "typed_ints (GInt t i) = (is_unsigned t \<longrightarrow> 0 \<le> i)"
| "typed_ints (GList xs) = list_all typed_ints xs"
| "typed_ints (GMap m) = list_all (\<lambda>(k, v). typed_ints v) m"
| "typed_ints _ = True"

lemma appendFloat_Inr: "appendFloat f = Inr b \<Longrightarrow> \<exists>n. f = Fin (of_int n) \<and> \<bar>n\<bar> \<le> MaxInt \<and> b = int_str n"
proof -
  assume a: "appendFloat f = Inr b"
  then obtain r where r: "f = Fin r" "of_int \<lfloor>r\<rfloor> = r" "\<not> r > of_int MaxInt" "\<not> r < - of_int MaxInt" "b = int_str \<lfloor>r\<rfloor>"
    by (auto simp: appendFloat_def split: gofloat.split_asm if_split_asm)
  from r(2,3) have u: "\<lfloor>r\<rfloor> \<le> MaxInt" by (metis not_less of_int_less_iff)
  from r(2,4) have "- MaxInt \<le> \<lfloor>r\<rfloor>" by (metis not_less of_int_less_iff of_int_minus)
  with u r show ?thesis by (intro exI[of _ "\<lfloor>r\<rfloor>"]) auto
qed

lemma delim_reads_back:
  assumes "\<And>f (d :: decoder) rest. dc_buf d = t @ rest \<Longrightarrow> dc_state d = st \<Longrightarrow> dc_stack d \<noteq> [] \<Longrightarrow> 4 * length t + 6 \<le> f \<Longrightarrow>
      parseFromToken (Suc f) d (TDelim c) depth =
        Inr (jnorm v, \<lparr>dc_buf = rest, dc_state = tokenValueEnd (hd (dc_stack d)), dc_stack = tl (dc_stack d)\<rparr>)"
    and "c = CHR ''['' \<and> st = ArrayStart \<or> c = CHR ''{'' \<and> st = ObjectStart" "\<not> MaxDepth < depth"
  shows "reads_back v depth (c # t)"
  unfolding reads_back_def
proof (intro allI impI)
  fix f and d :: decoder and rest
  assume a: "dc_buf d = (c # t) @ rest" "delimited rest" "tokenValueAllowed (dc_state d)" "4 * length (c # t) + 4 \<le> f"
  then obtain g where f: "f = Suc (Suc g)" by (cases f; cases "f - 1") auto
  let ?d = "\<lparr>dc_buf = t @ rest, dc_state = st, dc_stack = dc_state d # dc_stack d\<rparr>"
  have "Token d = Inr (TDelim c, ?d)" using assms(2) a(1,3) Token_open[of d "t @ rest"] by auto
  then show "parseValue f d depth = Inr (jnorm v, d\<lparr>dc_buf := rest, dc_state := tokenValueEnd (dc_state d)\<rparr>)"
    using assms(1)[of ?d rest g] assms(3) a(4) f by simp
qed

lemma appendValue_reads_back:
  "wf_val v \<Longrightarrow> typed_ints v \<Longrightarrow> appendValue v depth = Inr b \<Longrightarrow> reads_back v depth b"
proof (induction v arbitrary: depth b rule: gval_induct)
  case (Atom v)
  then have d: "\<not> MaxDepth < depth" by (subst (asm) appendValue.simps) (auto split: if_split_asm)
  show ?case
  proof (cases v)
    case GNil
    with Atom d literal_reads_back[OF d] show ?thesis by (simp add: appendValue.simps)
  next
    case (GBool x)
    with Atom d literal_reads_back[OF d] show ?thesis by (cases x) (simp_all add: appendValue.simps)
  next
    case (GStr s)
    with Atom d have s: "checkString s = Inr ()" "b = appendString s" by (auto simp: appendValue.simps)
    with GStr d show ?thesis
      by (auto intro!: scalar_reads_back simp: scan_scalar_string[OF checkString_valid[OF s(1)]])
  next
    case (GNum s)
    with Atom d obtain n where "checkNumberLiteral s = Inr n" "b = int_str n" by (auto simp: appendValue.simps)
    with GNum d checkNumberLiteral_Inr[of s n] show ?thesis by (auto intro: int_reads_back)
  next
    case (GFloat64 f)
    with Atom d have "appendFloat f = Inr b" by (simp add: appendValue.simps)
    from appendFloat_Inr[OF this] GFloat64 d show ?thesis by (auto intro: int_reads_back)
  next
    case (GInt t i)
    with Atom d show ?thesis
      by (auto simp: appendValue.simps appendUint_def appendInt_def MaxInt_def split: if_split_asm intro!: int_reads_back)
  qed (use Atom d in \<open>auto simp: appendValue.simps\<close>)
next
  case (List xs)
  then have d: "\<not> MaxDepth < depth" by (subst (asm) appendValue.simps) (auto split: if_split_asm)
  with List.prems obtain bs where bs: "list_all2 (\<lambda>x b. appendValue x (Suc depth) = Inr b) xs bs"
    and b: "b = CHR ''['' # comma_join bs @ '']''"
    by (auto simp: appendValue.simps[of "GList xs"] map_err_Inr)
  have rb: "list_all2 (\<lambda>x b. reads_back x (Suc depth) b) xs bs"
    by (rule list.rel_mono_strong[OF bs]) (use List in \<open>auto simp: list_all_iff\<close>)
  have sv: "list_all starts_value bs"
    using bs by (auto simp: list_all_length list_all2_conv_all_nth intro: appendValue_starts)
  show ?case unfolding b
  proof (rule delim_reads_back[where st = ArrayStart])
    fix f and d :: decoder and rest
    assume "dc_buf d = (comma_join bs @ '']'') @ rest" "dc_state d = ArrayStart" "dc_stack d \<noteq> []"
      "4 * length (comma_join bs @ '']'') + 6 \<le> f"
    then show "parseFromToken (Suc f) d (TDelim (CHR ''['')) depth = Inr (jnorm (GList xs),
        \<lparr>dc_buf = rest, dc_state = tokenValueEnd (hd (dc_stack d)), dc_stack = tl (dc_stack d)\<rparr>)"
      using elements_back[OF rb sv, of d rest "hd (dc_stack d)" "tl (dc_stack d)" f] d by simp
  qed (use d in auto)
next
  case (Map m)
  then have d: "\<not> MaxDepth < depth" by (subst (asm) appendValue.simps) (auto split: if_split_asm)
  let ?val = "\<lambda>k. case map_of m k of None \<Rightarrow> GNil | Some w \<Rightarrow> w"
  let ?kvs = "map (\<lambda>k. (k, ?val k)) (sorted_keys m)"
  from Map.prems d obtain ts where cs: "\<forall>k \<in> fst ` set m. checkString k = Inr ()"
    and ts: "list_all2 (\<lambda>k t. \<exists>b. (case map_of m k of None \<Rightarrow> Inr ''null'' | Some w \<Rightarrow> appendValue w (Suc depth)) = Inr b \<and>
        member_text k b = t) (sorted_keys m) ts"
    and b: "b = CHR ''{'' # comma_join ts @ ''}''"
    by (auto simp: appendValue.simps[of "GMap m"] map_err_Inr first_err_Inr member_text_def)
  have rb: "list_all2 (\<lambda>(k, v) t. \<exists>b. t = member_text k b \<and> reads_back v (Suc depth) b \<and> checkString k = Inr ()) ?kvs ts"
    unfolding list.rel_map
  proof (rule list.rel_mono_strong[OF ts])
    fix k t assume k: "k \<in> set (sorted_keys m)" and
      h: "\<exists>b. (case map_of m k of None \<Rightarrow> Inr ''null'' | Some w \<Rightarrow> appendValue w (Suc depth)) = Inr b \<and> member_text k b = t"
    from k have km: "k \<in> fst ` set m" by simp
    then obtain w where w: "map_of m k = Some w" by (metis domD dom_map_of_conv_image_fst)
    with h obtain b where b: "appendValue w (Suc depth) = Inr b" "t = member_text k b" by auto
    from w have kw: "(k, w) \<in> set m" by (rule map_of_SomeD)
    with Map.prems have "wf_val w" "typed_ints w" by (auto simp: list_all_iff)
    from Map.IH[OF kw this b(1)] b(2) cs km w
    show "(case (k, ?val k) of (k, v) \<Rightarrow> \<lambda>t. \<exists>b. t = member_text k b \<and> reads_back v (Suc depth) b \<and> checkString k = Inr ()) t"
      by auto
  qed
  show ?case unfolding b
  proof (rule delim_reads_back[where st = ObjectStart])
    fix f and d :: decoder and rest
    assume "dc_buf d = (comma_join ts @ ''}'') @ rest" "dc_state d = ObjectStart" "dc_stack d \<noteq> []"
      "4 * length (comma_join ts @ ''}'') + 6 \<le> f"
    moreover have "distinct (map fst ?kvs)" using Map.prems(1) by (simp add: comp_def)
    moreover have "map (\<lambda>(k, v). (k, jnorm v)) ?kvs =
        map (\<lambda>k. (k, case map_of m k of None \<Rightarrow> GNil | Some w \<Rightarrow> jnorm w)) (sorted_keys m)"
      by (auto split: option.split)
    ultimately show "parseFromToken (Suc f) d (TDelim (CHR ''{'')) depth = Inr (jnorm (GMap m),
        \<lparr>dc_buf = rest, dc_state = tokenValueEnd (hd (dc_stack d)), dc_stack = tl (dc_stack d)\<rparr>)"
      using members_back[OF rb, of d rest "hd (dc_stack d)" "tl (dc_stack d)" f] d by (simp add: jnorm_GMap)
  qed (use d in auto)
qed (simp add: appendValue.simps split: if_split_asm)

section \<open>Canonical bytes\<close>

lemma appendValue_depth: "appendValue v depth = Inr b \<Longrightarrow> \<not> MaxDepth < depth"
  by (subst (asm) appendValue.simps) (auto split: if_split_asm)

lemma appendValue_GList:
  "appendValue (GList xs) depth = Inr b \<longleftrightarrow> \<not> MaxDepth < depth \<and>
     (\<exists>bs. list_all2 (\<lambda>x b. appendValue x (Suc depth) = Inr b) xs bs \<and> b = CHR ''['' # comma_join bs @ '']'')"
  by (auto simp: appendValue.simps[of "GList xs"] map_err_Inr)

lemma appendValue_GMap:
  "appendValue (GMap m) depth = Inr b \<longleftrightarrow> \<not> MaxDepth < depth \<and> (\<forall>k \<in> fst ` set m. checkString k = Inr ()) \<and>
     (\<exists>ts. list_all2 (\<lambda>k t. \<exists>w b. map_of m k = Some w \<and> appendValue w (Suc depth) = Inr b \<and> member_text k b = t)
        (sorted_keys m) ts \<and> b = CHR ''{'' # comma_join ts @ ''}'')"
proof -
  have "list_all2 (\<lambda>k t. \<exists>b. (case map_of m k of None \<Rightarrow> Inr ''null'' | Some w \<Rightarrow> appendValue w (Suc depth)) = Inr b \<and>
      member_text k b = t) (sorted_keys m) ts \<longleftrightarrow>
    list_all2 (\<lambda>k t. \<exists>w b. map_of m k = Some w \<and> appendValue w (Suc depth) = Inr b \<and> member_text k b = t) (sorted_keys m) ts" for ts
  proof (rule list.rel_cong_simp[OF refl refl], unfold simp_implies_def)
    fix k t assume "k \<in> set (sorted_keys m)"
    then obtain w where "map_of m k = Some w" by (metis domD dom_map_of_conv_image_fst set_sorted_keys)
    then show "(\<exists>b. (case map_of m k of None \<Rightarrow> Inr ''null'' | Some w \<Rightarrow> appendValue w (Suc depth)) = Inr b \<and> member_text k b = t) =
      (\<exists>w b. map_of m k = Some w \<and> appendValue w (Suc depth) = Inr b \<and> member_text k b = t)" by auto
  qed
  then show ?thesis
    by (auto simp: appendValue.simps[of "GMap m"] map_err_Inr first_err_Inr member_text_def)
qed

lemma map_of_keys: "k \<in> set ks \<Longrightarrow> map_of (map (\<lambda>k. (k, f k)) ks) k = Some (f k)"
  by (simp add: map_of_map_restrict)

lemma appendValue_jnorm:
  "wf_val v \<Longrightarrow> typed_ints v \<Longrightarrow> appendValue v depth = Inr b \<Longrightarrow> appendValue (jnorm v) depth = Inr b"
proof (induction v arbitrary: depth b rule: gval_induct)
  case (Atom v)
  have num: "appendValue (GNum (int_str n)) depth = Inr (int_str n)" if "\<bar>n\<bar> \<le> MaxInt" for n
    using checkNumberLiteral_int_str[OF that] appendValue_depth[OF Atom.prems(3)] by (simp add: appendValue.simps)
  show ?case
  proof (cases v)
    case (GFloat64 f)
    with Atom.prems(3) have "appendFloat f = Inr b" by (subst (asm) appendValue.simps) (simp split: if_split_asm)
    from appendFloat_Inr[OF this] GFloat64 num show ?thesis by auto
  next
    case (GInt t i)
    with Atom.prems(2,3) have "\<bar>i\<bar> \<le> MaxInt \<and> b = int_str i"
      by (subst (asm) appendValue.simps) (auto simp: appendUint_def appendInt_def MaxInt_def split: if_split_asm)
    with GInt num show ?thesis by simp
  qed (use Atom in \<open>simp_all add: jnorm.simps\<close>)
next
  case (List xs)
  then obtain bs where bs: "list_all2 (\<lambda>x b. appendValue x (Suc depth) = Inr b) xs bs"
    and b: "\<not> MaxDepth < depth" "b = CHR ''['' # comma_join bs @ '']''" by (auto simp: appendValue_GList)
  have "list_all2 (\<lambda>x b. appendValue (jnorm x) (Suc depth) = Inr b) xs bs"
    by (rule list.rel_mono_strong[OF bs]) (use List in \<open>auto simp: list_all_iff\<close>)
  with b show ?case by (auto simp: appendValue_GList list.rel_map)
next
  case (Map m)
  let ?m = "map (\<lambda>k. (k, case map_of m k of None \<Rightarrow> GNil | Some w \<Rightarrow> jnorm w)) (sorted_keys m)"
  from Map.prems(3) obtain ts where cs: "\<forall>k \<in> fst ` set m. checkString k = Inr ()"
    and ts: "list_all2 (\<lambda>k t. \<exists>w b. map_of m k = Some w \<and> appendValue w (Suc depth) = Inr b \<and> member_text k b = t) (sorted_keys m) ts"
    and b: "b = CHR ''{'' # comma_join ts @ ''}''" and d: "\<not> MaxDepth < depth" by (auto simp: appendValue_GMap)
  have keys: "fst ` set ?m = fst ` set m" by (simp add: image_image)
  have wf: "wf_map m" "wf_map ?m" using Map.prems(1) by (auto simp: wf_map_def[of ?m] comp_def)
  have s: "sorted_keys ?m = sorted_keys m"
    using wf keys cs by (intro member_order_unique) (auto dest: checkString_valid)
  have "list_all2 (\<lambda>k t. \<exists>w b. map_of ?m k = Some w \<and> appendValue w (Suc depth) = Inr b \<and> member_text k b = t) (sorted_keys m) ts"
  proof (rule list.rel_mono_strong[OF ts])
    fix k t assume k: "k \<in> set (sorted_keys m)"
      and "\<exists>w b. map_of m k = Some w \<and> appendValue w (Suc depth) = Inr b \<and> member_text k b = t"
    then obtain w b where w: "map_of m k = Some w" "appendValue w (Suc depth) = Inr b" "member_text k b = t" by blast
    then have kw: "(k, w) \<in> set m" by (simp add: map_of_SomeD)
    with Map.prems have "wf_val w" "typed_ints w" by (auto simp: list_all_iff)
    from Map.IH[OF kw this w(2)] w map_of_keys[OF k, of "\<lambda>k. case map_of m k of None \<Rightarrow> GNil | Some w \<Rightarrow> jnorm w"]
    show "\<exists>w b. map_of ?m k = Some w \<and> appendValue w (Suc depth) = Inr b \<and> member_text k b = t" by simp
  qed
  with s cs keys b d show ?case by (auto simp: jnorm_GMap appendValue_GMap)
qed (simp add: appendValue.simps split: if_split_asm)

lemma parseValue_canonical:
  assumes "wf_val v" "typed_ints v" "Canonicalize v = Inr b"
  shows "ParseStrict b = Inr (jnorm v)"
proof -
  have "reads_back v 0 b" using assms by (intro appendValue_reads_back) (auto simp: Canonicalize_def)
  then have "parseValue (parse_fuel b) (NewDecoder b) 0 =
      Inr (jnorm v, (NewDecoder b)\<lparr>dc_buf := [], dc_state := tokenValueEnd (dc_state (NewDecoder b))\<rparr>)"
    by (rule reads_backD) (auto simp: NewDecoder_def parse_fuel_def tokenValueAllowed_def)
  then show ?thesis by (simp add: ParseStrict_def Token.simps skip_ws_def)
qed

lemma Canonicalize_jnorm: "wf_val v \<Longrightarrow> typed_ints v \<Longrightarrow> Canonicalize v = Inr b \<Longrightarrow> Canonicalize (jnorm v) = Inr b"
  by (simp add: Canonicalize_def appendValue_jnorm)

lemma Canonicalize_eq_iff:
  assumes "wf_val v" "typed_ints v" "Canonicalize v = Inr b" "wf_val w" "typed_ints w" "Canonicalize w = Inr c"
  shows "b = c \<longleftrightarrow> jnorm v = jnorm w"
  using parseValue_canonical[OF assms(1-3)] parseValue_canonical[OF assms(4-6)]
    Canonicalize_jnorm[OF assms(1-3)] Canonicalize_jnorm[OF assms(4-6)] by auto

section \<open>What the canonical bytes identify\<close>

text \<open>Two decoded values denote the same JSON document: numbers by value, objects as maps.\<close>

function same_json :: "gval \<Rightarrow> gval \<Rightarrow> bool" where
  "same_json v w = (case v of
      GList xs \<Rightarrow> (case w of
          GList ys \<Rightarrow> length xs = length ys \<and> list_all (\<lambda>(x, y). same_json x y) (zip xs ys)
        | _ \<Rightarrow> False)
    | GMap a \<Rightarrow> (case w of
          GMap b \<Rightarrow> length a = length b \<and>
            list_all (\<lambda>(k, x). case map_of b k of None \<Rightarrow> False | Some y \<Rightarrow> same_json x y) a
        | _ \<Rightarrow> False)
    | _ \<Rightarrow> (case toRat v of Some x \<Rightarrow> toRat w = Some x | None \<Rightarrow> v = w))"
  by pat_completeness auto
termination
  by (relation "measure (\<lambda>(a, b). size a)")
     (auto dest!: set_zip_leftD simp: size_list_pair_lt less_Suc_eq_le size_list_estimation')

declare same_json.simps [simp del]

lemma rat_set_string_int: "rat_set_string (int_str n) = Some (of_int n)"
proof -
  have tw: "takeWhile is_digit (nat_str k) = nat_str k" "dropWhile is_digit (nat_str k) = []" for k
    using nat_str_digits[of k] by (simp_all add: takeWhile_eq_all_conv dropWhile_eq_Nil_conv)
  have sg: "scan_sign (nat_str k) = (False, nat_str k)" for k
  proof -
    obtain c u where e: "nat_str k = c # u" by (cases "nat_str k") auto
    with nat_str_digits[of k] have "is_digit c" by simp
    then have "c \<noteq> CHR ''-''" "c \<noteq> CHR ''+''" by (auto simp: is_digit_def)
    with e show ?thesis by (simp add: scan_sign_def)
  qed
  have pos: "rat_set_string (nat_str k) = Some (of_nat k)" for k
    by (simp add: rat_set_string_def sg tw scan_fraction_def scan_exponent_def scale10_def rat_exp_limit_def Let_def)
  have neg: "rat_set_string (CHR ''-'' # nat_str k) = Some (- of_nat k)" for k
    by (simp add: rat_set_string_def scan_sign_def tw scan_fraction_def scan_exponent_def scale10_def rat_exp_limit_def Let_def)
  show ?thesis by (simp add: int_str_def pos neg)
qed

lemma number_jnorm:
  assumes "appendValue v depth = Inr b" "toRat v = Some x"
  shows "\<exists>n. x = of_int n \<and> jnorm v = GNum (int_str n)"
proof (cases v)
  case (GNum s)
  with assms obtain n where "checkNumberLiteral s = Inr n" by (auto simp: appendValue.simps split: if_split_asm)
  with checkNumberLiteral_Inr[of s n] GNum assms(2) show ?thesis by (auto simp: rat_set_string_int)
next
  case (GFloat64 f)
  with assms have "appendFloat f = Inr b" by (auto simp: appendValue.simps split: if_split_asm)
  from appendFloat_Inr[OF this] GFloat64 assms(2) show ?thesis by (auto simp: float_rat_def)
qed (use assms in \<open>auto simp: appendValue.simps split: if_split_asm\<close>)

lemma plain_jnorm:
  assumes "appendValue v depth = Inr b" "toRat v = None" "\<forall>xs. v \<noteq> GList xs" "\<forall>m. v \<noteq> GMap m"
  shows "jnorm v = v \<and> (v = GNil \<or> (\<exists>b. v = GBool b) \<or> (\<exists>s. v = GStr s))"
proof (cases v)
  case (GNum s)
  with assms obtain n where "checkNumberLiteral s = Inr n" by (auto simp: appendValue.simps split: if_split_asm)
  with checkNumberLiteral_Inr[of s n] GNum assms(2) show ?thesis by (auto simp: rat_set_string_int)
next
  case (GFloat64 f)
  with assms have "appendFloat f = Inr b" by (auto simp: appendValue.simps split: if_split_asm)
  from appendFloat_Inr[OF this] GFloat64 assms(2) show ?thesis by (auto simp: float_rat_def)
qed (use assms in \<open>auto simp: appendValue.simps split: if_split_asm\<close>)

lemma map_keyed_eq:
  "map (\<lambda>k. (k, f k)) xs = map (\<lambda>k. (k, g k)) ys \<longleftrightarrow> xs = ys \<and> (\<forall>k \<in> set xs. f k = g k)"
  by (induction xs arbitrary: ys) (auto simp: map_eq_Cons_conv Cons_eq_map_conv)

lemma member_serialised:
  assumes "appendValue (GMap m) depth = Inr b" "map_of m k = Some w"
  shows "\<exists>t. appendValue w (Suc depth) = Inr t"
proof -
  from assms(1) obtain ts where
    "list_all2 (\<lambda>k t. \<exists>w b. map_of m k = Some w \<and> appendValue w (Suc depth) = Inr b \<and> member_text k b = t) (sorted_keys m) ts"
    by (auto simp: appendValue_GMap)
  moreover obtain i where "i < length (sorted_keys m)" "sorted_keys m ! i = k"
    using assms(2) by (metis domI dom_map_of_conv_image_fst set_sorted_keys in_set_conv_nth)
  ultimately show ?thesis using assms(2) by (auto simp: list_all2_conv_all_nth)
qed

lemma jnorm_eq_iff:
  "wf_val v \<Longrightarrow> wf_val w \<Longrightarrow> appendValue v depth = Inr b \<Longrightarrow> appendValue w depth = Inr c \<Longrightarrow>
   jnorm v = jnorm w \<longleftrightarrow> same_json v w"
proof (induction v arbitrary: w depth b c rule: gval_induct)
  case (Atom v)
  show ?case
  proof (cases "toRat v")
    case (Some x)
    with Atom.hyps have s: "same_json v w \<longleftrightarrow> toRat w = Some x" by (auto simp: same_json.simps split: gval.splits)
    obtain n where n: "x = of_int n" "jnorm v = GNum (int_str n)" using number_jnorm[OF Atom.prems(3) Some] by blast
    show ?thesis
    proof (cases "toRat w")
      case (Some y)
      from number_jnorm[OF Atom.prems(4) this] n s Some show ?thesis by (auto simp: int_str_inj)
    next
      case None
      have "jnorm w \<noteq> GNum t" for t
      proof (cases w)
        case (GMap m) then show ?thesis by (simp add: jnorm_GMap)
      qed (use plain_jnorm[OF Atom.prems(4) None] in auto)
      with n s None show ?thesis by (metis option.distinct(1))
    qed
  next
    case None
    with Atom.hyps have s: "same_json v w \<longleftrightarrow> v = w" by (auto simp: same_json.simps split: gval.splits)
    have v: "jnorm v = v" "v = GNil \<or> (\<exists>b. v = GBool b) \<or> (\<exists>s. v = GStr s)"
      using plain_jnorm[OF Atom.prems(3) None] Atom.hyps by auto
    have "jnorm w = v \<longleftrightarrow> w = v"
    proof (cases "toRat w")
      case (Some y)
      from number_jnorm[OF Atom.prems(4) this] v(2) None Some show ?thesis by auto
    next
      case None
      show ?thesis
      proof (cases w)
        case (GMap m) then show ?thesis using v(2) by (auto simp: jnorm_GMap)
      qed (use plain_jnorm[OF Atom.prems(4) None] v(2) in auto)
    qed
    with v s show ?thesis by auto
  qed
next
  case (List xs)
  show ?case
  proof (cases w)
    case (GList ys)
    from List.prems GList obtain bs cs where
      bs: "list_all2 (\<lambda>x b. appendValue x (Suc depth) = Inr b) xs bs" and
      cs: "list_all2 (\<lambda>x b. appendValue x (Suc depth) = Inr b) ys cs" by (auto simp: appendValue_GList)
    have "jnorm (xs ! i) = jnorm (ys ! i) \<longleftrightarrow> same_json (xs ! i) (ys ! i)" if i: "i < length xs" "length xs = length ys" for i
    proof (rule List.IH)
      show "xs ! i \<in> set xs" using i by simp
      show "wf_val (xs ! i)" "wf_val (ys ! i)" using List.prems GList i by (auto simp: list_all_length)
      show "appendValue (xs ! i) (Suc depth) = Inr (bs ! i)" "appendValue (ys ! i) (Suc depth) = Inr (cs ! i)"
        using bs cs i by (auto simp: list_all2_conv_all_nth)
    qed
    then show ?thesis using GList by (auto simp: same_json.simps[of "GList xs"] list_eq_iff_nth_eq list_all_length)
  next
    case (GMap m)
    then show ?thesis by (simp add: jnorm_GMap same_json.simps[of "GList xs"])
  qed (use List.prems(4) in \<open>auto simp: same_json.simps[of "GList xs"] appendValue.simps jnorm.simps[of "GFloat64 f" for f] split: if_split_asm gofloat.splits\<close>)
next
  case (Map a)
  show ?case
  proof (cases w)
    case (GMap b)
    let ?val = "\<lambda>m k. case map_of m k of None \<Rightarrow> GNil | Some w \<Rightarrow> jnorm w"
    from Map.prems GMap have wf: "wf_map a" "wf_map b" by auto
    have same: "same_json (GMap a) w \<longleftrightarrow> length a = length b \<and>
        (\<forall>(k, x) \<in> set a. case map_of b k of None \<Rightarrow> False | Some y \<Rightarrow> same_json x y)"
      by (simp add: same_json.simps[of "GMap a"] GMap list_all_iff)
    have norm: "jnorm (GMap a) = jnorm w \<longleftrightarrow> sorted_keys a = sorted_keys b \<and> (\<forall>k \<in> fst ` set a. ?val a k = ?val b k)"
    proof -
      have "map (\<lambda>k. (k, ?val a k)) (sorted_keys a) = map (\<lambda>k. (k, ?val b k)) (sorted_keys b) \<longleftrightarrow>
          sorted_keys a = sorted_keys b \<and> (\<forall>k \<in> set (sorted_keys a). ?val a k = ?val b k)"
        by (rule map_keyed_eq)
      then show ?thesis by (simp add: jnorm_GMap GMap)
    qed
    have key_in: "\<exists>y. map_of b k = Some y \<and> same_json x y" if "same_json (GMap a) w" "(k, x) \<in> set a" for k x
      using that same by (fastforce split: option.splits)
    have child: "jnorm x = jnorm y \<longleftrightarrow> same_json x y" if x: "map_of a k = Some x" and y: "map_of b k = Some y" for k x y
    proof -
      have ax: "(k, x) \<in> set a" and by': "(k, y) \<in> set b" using x y by (auto simp: map_of_SomeD)
      then have "wf_val x" "wf_val y" using Map.prems GMap by (auto simp: list_all_iff)
      moreover have "\<exists>bx. appendValue x (Suc depth) = Inr bx"
        using member_serialised[OF Map.prems(3) x] .
      moreover have "\<exists>cy. appendValue y (Suc depth) = Inr cy"
        using member_serialised[OF Map.prems(4)[unfolded GMap] y] .
      ultimately show ?thesis using Map.IH[OF ax] by blast
    qed
    show ?thesis
    proof
      assume "jnorm (GMap a) = jnorm w"
      with norm have k: "sorted_keys a = sorted_keys b" "\<forall>k \<in> fst ` set a. ?val a k = ?val b k" by auto
      from k(1) have keys: "fst ` set a = fst ` set b" "length a = length b" by (metis set_sorted_keys, metis length_sorted_keys)
      have "\<exists>y. map_of b i = Some y \<and> same_json x y" if ix: "(i, x) \<in> set a" for i x
      proof -
        from ix wf have x: "map_of a i = Some x" by (simp add: wf_map_def)
        from ix keys(1) have "i \<in> fst ` set b" by force
        then obtain y where y: "map_of b i = Some y" by (metis domD dom_map_of_conv_image_fst)
        from ix have "i \<in> fst ` set a" by force
        with k(2) x y have "jnorm x = jnorm y" by fastforce
        with child[OF x y] y show ?thesis by blast
      qed
      with same keys(2) show "same_json (GMap a) w" by fastforce
    next
      assume sj: "same_json (GMap a) w"
      have "fst ` set a \<subseteq> fst ` set b"
        using key_in[OF sj] by (metis image_subsetI dom_map_of_conv_image_fst domI prod.collapse)
      moreover have "length a = length b" using sj same by blast
      ultimately have keys: "fst ` set a = fst ` set b" using wf wf_map_same_keys by blast
      have "\<forall>k \<in> fst ` set a. ValidString k"
        using Map.prems(3) by (auto simp: appendValue_GMap dest: checkString_valid)
      from member_order_unique[OF wf keys this] have "sorted_keys a = sorted_keys b" .
      moreover have "?val a i = ?val b i" if "i \<in> fst ` set a" for i
      proof -
        from that obtain x where x: "map_of a i = Some x" by (metis domD dom_map_of_conv_image_fst)
        then have "(i, x) \<in> set a" by (rule map_of_SomeD)
        from key_in[OF sj this] obtain y where "map_of b i = Some y" "same_json x y" by blast
        with child[OF x] x show ?thesis by simp
      qed
      ultimately show "jnorm (GMap a) = jnorm w" using norm by blast
    qed
  next
    case (GFloat64 f)
    then show ?thesis by (cases f) (simp_all add: jnorm_GMap same_json.simps[of "GMap a"] jnorm.simps[of "GFloat64 f" for f])
  qed (simp_all add: jnorm_GMap same_json.simps[of "GMap a"] jnorm.simps[of "GScope s" for s] jnorm.simps[of "GFloat32 f" for f]
      jnorm.simps[of "GSlice i j k" for i j k])
qed (simp add: appendValue.simps split: if_split_asm)

section \<open>What the strict parser accepts\<close>

text \<open>A value with a canonical form at a nesting depth, as the parser builds it.\<close>

definition canonical_at :: "nat \<Rightarrow> gval \<Rightarrow> bool" where
  "canonical_at depth v = (wf_val v \<and> typed_ints v \<and> is_ok (appendValue v depth))"

lemma canonical_at_simps:
  assumes "\<not> MaxDepth < depth"
  shows "canonical_at depth GNil" "canonical_at depth (GBool x)"
    "checkString s = Inr () \<Longrightarrow> canonical_at depth (GStr s)"
    "checkNumberLiteral t = Inr n \<Longrightarrow> canonical_at depth (GNum t)"
  using assms by (simp_all add: canonical_at_def appendValue.simps)

lemma canonical_at_GList:
  assumes "\<not> MaxDepth < depth" "\<forall>x \<in> set xs. canonical_at (Suc depth) x"
  shows "canonical_at depth (GList xs)"
proof -
  have "\<exists>bs. list_all2 (\<lambda>x b. appendValue x (Suc depth) = Inr b) xs bs"
    using assms(2) by (induction xs) (auto simp: canonical_at_def is_ok_iff list_all2_Cons1)
  with assms show ?thesis by (auto simp: canonical_at_def is_ok_iff appendValue_GList list_all_iff)
qed

lemma canonical_at_GMap:
  assumes "\<not> MaxDepth < depth" "wf_map m" "\<forall>(k, x) \<in> set m. checkString k = Inr () \<and> canonical_at (Suc depth) x"
  shows "canonical_at depth (GMap m)"
proof -
  have "\<exists>ts. list_all2 (\<lambda>k t. \<exists>w b. map_of m k = Some w \<and> appendValue w (Suc depth) = Inr b \<and> member_text k b = t) ks ts"
    if "set ks \<subseteq> fst ` set m" for ks
    using that
  proof (induction ks)
    case (Cons k ks)
    then obtain w where w: "map_of m k = Some w" by (metis domD dom_map_of_conv_image_fst insert_subset list.simps(15))
    then have "(k, w) \<in> set m" by (rule map_of_SomeD)
    with assms(3) obtain b where "appendValue w (Suc depth) = Inr b" by (auto simp: canonical_at_def is_ok_iff)
    with Cons w show ?case by (auto simp: list_all2_Cons1)
  qed auto
  from this[of "sorted_keys m"] have "is_ok (appendValue (GMap m) depth)"
    using assms by (auto simp: is_ok_iff appendValue_GMap)
  with assms show ?thesis by (auto simp: canonical_at_def list_all_iff)
qed

lemma parse_canonical:
  "\<forall>v d'. parseValue f d depth = Inr (v, d') \<longrightarrow> canonical_at depth v"
  "\<forall>v d'. parseFromToken f d tok depth = Inr (v, d') \<longrightarrow> canonical_at depth v"
  "\<not> MaxDepth < depth \<and> wf_map obj \<and> (\<forall>(k, x) \<in> set obj. checkString k = Inr () \<and> canonical_at (Suc depth) x) \<longrightarrow>
     (\<forall>v d'. parse_members f d obj depth = Inr (v, d') \<longrightarrow> canonical_at depth v)"
  "\<not> MaxDepth < depth \<and> (\<forall>x \<in> set arr. canonical_at (Suc depth) x) \<longrightarrow>
     (\<forall>v d'. parse_elements f d arr depth = Inr (v, d') \<longrightarrow> canonical_at depth v)"
proof (induction f d depth and f d tok depth and f d obj depth and f d arr depth
    rule: parseValue_parseFromToken_parse_members_parse_elements.induct)
  case (2 f d depth)
  show ?case
  proof (clarify)
    fix v d' assume "parseValue (Suc f) d depth = Inr (v, d')"
    then obtain tok d1 where t: "\<not> MaxDepth < depth" "Token d = Inr (tok, d1)" "parseFromToken f d1 tok depth = Inr (v, d')"
      by (auto split: if_splits)
    with 2[OF t(1) _ refl, of tok d1] show "canonical_at depth v" by simp
  qed
next
  case (4 f d tok depth)
  show ?case
  proof (cases tok)
    case (TDelim c)
    then show ?thesis using 4(1)[of c] 4(2)[of c] by (auto split: if_split_asm)
  qed (auto simp: canonical_at_simps split: if_split_asm)
next
  case (6 f d obj depth)
  show ?case
  proof (cases "More d")
    case True
    show ?thesis
    proof (intro impI allI)
      fix v d' assume i: "\<not> MaxDepth < depth \<and> wf_map obj \<and> (\<forall>(k, x) \<in> set obj. checkString k = Inr () \<and> canonical_at (Suc depth) x)"
        and a: "parse_members (Suc f) d obj depth = Inr (v, d')"
      from a True obtain tok d1 where td: "Token d = Inr (tok, d1)" by auto
      with a True obtain key where k: "tok = TStr key" by (cases tok) auto
      with a True td obtain w d2 where t: "wrap_err ErrParse (Token d) = Inr (TStr key, d1)" "checkString key = Inr ()"
        "\<not> has_key obj key" "parseValue f d1 (Suc depth) = Inr (w, d2)"
        "parse_members f d2 (put key w obj) depth = Inr (v, d')"
        by (auto split: if_split_asm)
      have "canonical_at (Suc depth) w" using 6(1)[OF True t(1) refl refl t(2,3)] t(4) by blast
      with i t(2,3) have "wf_map (put key w obj)" and
        "\<forall>(k, x) \<in> set (put key w obj). checkString k = Inr () \<and> canonical_at (Suc depth) x"
        by (simp, auto simp: put_new)
      with 6(2)[OF True t(1) refl refl t(2,3,4) refl] i t(5) show "canonical_at depth v" by blast
    qed
  qed (auto intro: canonical_at_GMap)
next
  case (8 f d arr depth)
  show ?case
  proof (cases "More d")
    case True
    show ?thesis
    proof (intro impI allI)
      fix v d' assume i: "\<not> MaxDepth < depth \<and> (\<forall>x \<in> set arr. canonical_at (Suc depth) x)"
        and a: "parse_elements (Suc f) d arr depth = Inr (v, d')"
      with True obtain w d1 where t: "parseValue f d (Suc depth) = Inr (w, d1)" "parse_elements f d1 (arr @ [w]) depth = Inr (v, d')"
        by auto
      with 8(1)[OF True] 8(2)[OF True t(1) refl] i show "canonical_at depth v" by auto
    qed
  qed (auto intro: canonical_at_GList)
qed simp_all

lemma ParseStrict_canonical: "ParseStrict raw = Inr v \<Longrightarrow> canonical_at 0 v"
proof -
  assume a: "ParseStrict raw = Inr v"
  then obtain w d where w: "parseValue (parse_fuel raw) (NewDecoder raw) 0 = Inr (w, d)" by (auto simp: ParseStrict_def)
  with a have "w = v" by (cases "Token d") (auto simp: ParseStrict_def split: if_split_asm)
  with w parse_canonical(1) show ?thesis by blast
qed

section \<open>Properties\<close>

text \<open>C12: The strict parser returns on every input. For every byte string it gives a value or one of the
  package's own errors; the fuel that stands for its recursion, four steps for each byte, never runs
  out.\<close>

theorem parse_strict_terminates: "ParseStrict raw \<noteq> Inl OutOfFuel"
proof -
  have "parseValue (parse_fuel raw) (NewDecoder raw) 0 \<noteq> Inl OutOfFuel"
    using parse_enough_fuel(1)[of "NewDecoder raw" "parse_fuel raw" 0] by (simp add: NewDecoder_def parse_fuel_def)
  then show ?thesis by (auto simp: ParseStrict_def bindr_def split: sum.split if_split)
qed

text \<open>C10: The canonical bytes identify the document. Two values that both have a canonical form have the
  same bytes exactly when they denote the same JSON document: equal numbers, whatever Go type or
  literal holds them, equal strings, the same elements in order, and objects with the same members
  whatever their order.\<close>

theorem canonical_bytes_identify_document:
  assumes "wf_val v" and "wf_val w" and "typed_ints v" and "typed_ints w"
    and "Canonicalize v = Inr b" and "Canonicalize w = Inr c"
  shows "b = c \<longleftrightarrow> same_json v w"
  using Canonicalize_eq_iff[of v b w c] jnorm_eq_iff[of v w 0 b c] assms by (simp add: Canonicalize_def)

definition sample_doc1 :: gval where
  "sample_doc1 = GMap [(''b'', GInt U8 7), (''a'', GList [GBool True, GStr ''x'', GNil])]"

definition sample_doc2 :: gval where
  "sample_doc2 = GMap [(''a'', GList [GBool True, GStr ''x'', GNil]), (''b'', GFloat64 (Fin 7))]"

lemma sample_docs: "wf_val sample_doc1" "wf_val sample_doc2" "typed_ints sample_doc1" "typed_ints sample_doc2"
  "same_json sample_doc1 sample_doc2"
  by code_simp+

lemma appendValue_eval:
  "\<not> MaxDepth < depth \<Longrightarrow> appendValue GNil depth = Inr ''null''"
  "\<not> MaxDepth < depth \<Longrightarrow> appendValue (GBool x) depth = Inr (if x then ''true'' else ''false'')"
  "\<not> MaxDepth < depth \<Longrightarrow> appendValue (GStr s) depth = bindr (checkString s) (\<lambda>_. Inr (appendString s))"
  "\<not> MaxDepth < depth \<Longrightarrow> appendValue (GNum s) depth = bindr (checkNumberLiteral s) (\<lambda>n. Inr (int_str n))"
  "\<not> MaxDepth < depth \<Longrightarrow> appendValue (GInt t i) depth = (if is_unsigned t then appendUint i else appendInt i)"
  "\<not> MaxDepth < depth \<Longrightarrow> appendValue (GFloat64 f) depth = appendFloat f"
  by (simp_all add: appendValue.simps)

lemma runes_ascii: "byte c < 0x80 \<Longrightarrow> runes (c # s) = byte c # runes s" "byte c < 0x80 \<Longrightarrow> ValidString (c # s) = ValidString s"
  by (auto simp: runes.simps[of "c # s"] ValidString.simps[of "c # s"] DecodeRune_def RuneError_def)

lemma checkString_ascii: "list_all (\<lambda>c. byte c < 0x80) s \<Longrightarrow> checkString s = Inr ()"
proof -
  assume "list_all (\<lambda>c. byte c < 0x80) s"
  then have "ValidString s \<and> (\<forall>r \<in> set (runes s). r < 0x80)" by (induction s) (auto simp: runes_ascii)
  then show ?thesis by (auto simp: checkString_def RuneError_def)
qed

lemma canonical_at_ok: "canonical_at 0 v \<Longrightarrow> is_ok (Canonicalize v)"
  by (simp add: canonical_at_def Canonicalize_def)

lemma sample_docs_ok: "is_ok (Canonicalize sample_doc1)" "is_ok (Canonicalize sample_doc2)"
proof -
  have m: "\<not> MaxDepth < Suc 0" "\<not> MaxDepth < Suc (Suc 0)" "\<not> MaxDepth < 0" by (simp_all add: MaxDepth_def)
  have s: "checkString ''a'' = Inr ()" "checkString ''b'' = Inr ()" "checkString ''x'' = Inr ()"
    by (rule checkString_ascii, simp add: byte_def)+
  have l: "canonical_at (Suc 0) (GList [GBool True, GStr ''x'', GNil])"
    using m s by (intro canonical_at_GList) (auto intro: canonical_at_simps)
  have i: "canonical_at (Suc 0) (GInt U8 7)" "canonical_at (Suc 0) (GFloat64 (Fin 7))"
    using m by (simp_all add: canonical_at_def appendValue_eval is_unsigned_def appendUint_def appendFloat_def MaxInt_def)
  show "is_ok (Canonicalize sample_doc1)" "is_ok (Canonicalize sample_doc2)"
    unfolding sample_doc1_def sample_doc2_def using m s l i
    by (intro canonical_at_ok canonical_at_GMap; simp add: wf_map_def)+
qed

theorem canonical_bytes_identify_document_witness:
  "Canonicalize sample_doc1 = Canonicalize sample_doc2"
proof -
  obtain b c where "Canonicalize sample_doc1 = Inr b" "Canonicalize sample_doc2 = Inr c"
    using sample_docs_ok by (auto simp: is_ok_iff)
  with canonical_bytes_identify_document[OF sample_docs(1-4) this] sample_docs(5) show ?thesis by simp
qed

text \<open>C11: Everything the strict parser accepts has one canonical form, and reading that form back is
  stable. The parsed value is well typed (distinct member names, valid strings, integers in range,
  bounded nesting), canonicalising it succeeds, the strict parser accepts the canonical bytes, they
  denote the same document, and canonicalising them once more returns the same bytes.\<close>

theorem parsed_document_has_canonical_form:
  assumes "ParseStrict raw = Inr v"
  shows "wf_val v \<and> typed_ints v \<and>
    (\<exists>b. CanonicalizeRaw raw = Inr b \<and> ParseStrict b = Inr (jnorm v) \<and> same_json v (jnorm v) \<and> CanonicalizeRaw b = Inr b)"
proof -
  have v: "wf_val v" "typed_ints v" "is_ok (Canonicalize v)"
    using ParseStrict_canonical[OF assms] by (auto simp: canonical_at_def Canonicalize_def)
  then obtain b where b: "Canonicalize v = Inr b" by (auto simp: is_ok_iff)
  have p: "ParseStrict b = Inr (jnorm v)" using v b by (intro parseValue_canonical) auto
  then have n: "wf_val (jnorm v)" "typed_ints (jnorm v)" using ParseStrict_canonical by (auto simp: canonical_at_def)
  have cn: "Canonicalize (jnorm v) = Inr b" using v b by (intro Canonicalize_jnorm) auto
  then have "same_json v (jnorm v)"
    using jnorm_eq_iff[of v "jnorm v" 0 b b] Canonicalize_eq_iff[OF v(1,2) b n cn] v n b by (simp add: Canonicalize_def)
  with v b p cn assms show ?thesis by (auto simp: CanonicalizeRaw_def)
qed

theorem parsed_document_has_canonical_form_witness:
  "\<exists>b. Canonicalize sample_doc1 = Inr b \<and> CanonicalizeRaw b = Inr b"
proof -
  obtain b where b: "Canonicalize sample_doc1 = Inr b" using sample_docs_ok(1) by (auto simp: is_ok_iff)
  from parsed_document_has_canonical_form[OF parseValue_canonical[OF sample_docs(1,3) b]]
  obtain c where "CanonicalizeRaw b = Inr c" "CanonicalizeRaw c = Inr c" by blast
  moreover from parseValue_canonical[OF sample_docs(1,3) b] Canonicalize_jnorm[OF sample_docs(1,3) b]
  have "CanonicalizeRaw b = Inr b" by (simp add: CanonicalizeRaw_def)
  ultimately show ?thesis using b by auto
qed

end
