(* ===== verification/Amount.thy ===== *)
theory Amount
  imports GoValue
begin

text \<open>
  The single amount parser of the system (src/internal/ledger/amount.go): the canonical
  decimal grammar, the parser built on it, and the exact characterisation of what is accepted.
  The index loop of \<open>checkAmountGrammar\<close> is a walk over the remaining characters.
\<close>

datatype amount_err = AmountEmpty | AmountGrammar string | AmountNotPositive

definition fracGrammar :: "string \<Rightarrow> amount_err + unit" where
  "fracGrammar u =
     (if u = [] then Inl (AmountGrammar ''no digits after the decimal point'')
      else if list_all is_digit u then Inr ()
      else Inl (AmountGrammar ''non-digit in the fractional part''))"

definition checkAmountGrammar :: "string \<Rightarrow> amount_err + unit" where
  "checkAmountGrammar s = (case s of
      [] \<Rightarrow> Inl (AmountGrammar ''empty'')
    | c # t \<Rightarrow>
        if c = CHR ''0'' then
          (case t of
             [] \<Rightarrow> Inr ()
           | d # u \<Rightarrow> if d \<noteq> CHR ''.'' then Inl (AmountGrammar ''leading zero'') else fracGrammar u)
        else if is_digit c then
          (case dropWhile is_digit t of
             [] \<Rightarrow> Inr ()
           | d # u \<Rightarrow>
               if d \<noteq> CHR ''.''
               then Inl (AmountGrammar ''unexpected character after the integer part'')
               else fracGrammar u)
        else Inl (AmountGrammar ''must start with a digit''))"

definition ParseAmount :: "string \<Rightarrow> amount_err + rat" where
  "ParseAmount s =
     (if s = [] then Inl AmountEmpty
      else case checkAmountGrammar s of
          Inl e \<Rightarrow> Inl e
        | Inr _ \<Rightarrow>
            (case rat_set_string s of
               None \<Rightarrow> Inl (AmountGrammar ''unparsed'')
             | Some r \<Rightarrow> if r \<le> 0 then Inl AmountNotPositive else Inr r))"

section \<open>The grammar as a language\<close>

text \<open>
  The ABNF of the source comment: an integer part without leading zeros, optionally followed
  by a point and at least one digit.
\<close>

definition int_part :: "string \<Rightarrow> bool" where
  "int_part ip = (ip = ''0'' \<or> (ip \<noteq> [] \<and> list_all is_digit ip \<and> hd ip \<noteq> CHR ''0''))"

definition frac_part :: "string \<Rightarrow> bool" where
  "frac_part fp = (fp \<noteq> [] \<and> list_all is_digit fp)"

definition amount_text :: "string \<Rightarrow> string \<Rightarrow> string" where
  "amount_text ip fp = (if fp = [] then ip else ip @ CHR ''.'' # fp)"

definition amount_form :: "string \<Rightarrow> string \<Rightarrow> bool" where
  "amount_form ip fp = (int_part ip \<and> (fp = [] \<or> frac_part fp))"

lemma dot_not_digit [simp]: "\<not> is_digit CHR ''.''" "\<not> is_digit CHR ''-''" "\<not> is_digit CHR ''+''"
  "\<not> is_digit CHR ''e''" "\<not> is_digit CHR ''E''"
  by (simp_all add: is_digit_def)

lemma zero_digit [simp]: "is_digit CHR ''0''"
  by (simp add: is_digit_def)

lemma int_part_digits: "int_part ip \<Longrightarrow> list_all is_digit ip \<and> ip \<noteq> []"
  by (auto simp: int_part_def)

lemma fracGrammar_ok: "fracGrammar u = Inr x \<longleftrightarrow> frac_part u"
  by (simp add: fracGrammar_def frac_part_def)

lemma span_digits [simp]:
  assumes "list_all is_digit a" and "b = [] \<or> \<not> is_digit (hd b)"
  shows "takeWhile is_digit (a @ b) = a" and "dropWhile is_digit (a @ b) = b"
  using assms by (induction a) (cases b; auto)+

lemma dropWhile_digits: "list_all is_digit t \<Longrightarrow> dropWhile is_digit t = []"
  by (simp add: list_all_iff)

lemma checkAmountGrammar_complete:
  assumes "amount_form ip fp"
  shows "checkAmountGrammar (amount_text ip fp) = Inr ()"
proof -
  from assms have ip: "int_part ip" and fp: "fp = [] \<or> frac_part fp"
    by (auto simp: amount_form_def)
  have fg: "fp \<noteq> [] \<Longrightarrow> fracGrammar fp = Inr ()"
    using fp by (simp add: fracGrammar_ok)
  show ?thesis
  proof (cases "ip = ''0''")
    case True
    with fg show ?thesis by (simp add: checkAmountGrammar_def amount_text_def)
  next
    case False
    with ip obtain c t where c: "ip = c # t" "c \<noteq> CHR ''0''" "is_digit c" "list_all is_digit t"
      by (cases ip) (auto simp: int_part_def)
    with span_digits[of t "CHR ''.'' # fp"] fg show ?thesis
      by (simp add: checkAmountGrammar_def amount_text_def dropWhile_digits)
  qed
qed

lemma amount_textI:
  assumes "int_part ip" and "r = [] \<or> (\<exists>u. r = CHR ''.'' # u \<and> frac_part u)"
  shows "\<exists>ip' fp. amount_form ip' fp \<and> ip @ r = amount_text ip' fp"
  using assms(2)
proof
  assume "r = []"
  with assms(1) have "amount_form ip [] \<and> ip @ r = amount_text ip []"
    by (simp add: amount_form_def amount_text_def)
  then show ?thesis by blast
next
  assume "\<exists>u. r = CHR ''.'' # u \<and> frac_part u"
  then obtain u where "r = CHR ''.'' # u" "frac_part u" by blast
  with assms(1) have "amount_form ip u \<and> ip @ r = amount_text ip u"
    by (simp add: amount_form_def amount_text_def frac_part_def)
  then show ?thesis by blast
qed

lemma checkAmountGrammar_sound:
  assumes "checkAmountGrammar s = Inr x"
  shows "\<exists>ip fp. amount_form ip fp \<and> s = amount_text ip fp"
proof (cases s)
  case Nil
  with assms show ?thesis by (simp add: checkAmountGrammar_def)
next
  case (Cons c t)
  show ?thesis
  proof (cases "c = CHR ''0''")
    case True
    with assms Cons have "t = [] \<or> (\<exists>u. t = CHR ''.'' # u \<and> frac_part u)"
      by (auto simp: checkAmountGrammar_def fracGrammar_ok split: list.splits if_splits)
    then show ?thesis using amount_textI[of "''0''" t] Cons True by (simp add: int_part_def)
  next
    case False
    define ip where "ip = c # takeWhile is_digit t"
    define r where "r = dropWhile is_digit t"
    have s: "s = ip @ r" using Cons by (simp add: ip_def r_def)
    have d: "is_digit c" using assms Cons False
      by (auto simp: checkAmountGrammar_def split: if_splits)
    have "int_part ip" using False d
      by (auto simp: ip_def int_part_def list_all_iff dest: set_takeWhileD)
    moreover have "r = [] \<or> (\<exists>u. r = CHR ''.'' # u \<and> frac_part u)"
      using assms Cons False d
      by (auto simp: checkAmountGrammar_def r_def fracGrammar_ok split: list.splits if_splits)
    ultimately show ?thesis using amount_textI[of ip r] s by simp
  qed
qed

lemma amount_text_unique:
  assumes "amount_form ip fp" and "amount_form ip' fp'" and "amount_text ip fp = amount_text ip' fp'"
  shows "ip = ip' \<and> fp = fp'"
proof -
  have tw: "takeWhile is_digit (amount_text i f) = i" if "amount_form i f" for i f
    using that int_part_digits[of i] span_digits[of i "CHR ''.'' # f"] span_digits[of i "[]"]
    by (auto simp: amount_form_def amount_text_def)
  from tw[OF assms(1)] tw[OF assms(2)] assms(3) have "ip = ip'" by simp
  with assms(3) show ?thesis by (auto simp: amount_text_def split: if_splits)
qed

section \<open>What the parser returns\<close>

definition amount_value :: "string \<Rightarrow> string \<Rightarrow> rat" where
  "amount_value ip fp = of_nat (digits_val (ip @ fp)) / 10 ^ length fp"

lemma rat_set_string_amount:
  assumes "amount_form ip fp"
  shows "rat_set_string (amount_text ip fp) =
    (if digits_val (ip @ fp) = 0 then Some 0
     else if int (length fp) > rat_exp_limit then None
     else Some (amount_value ip fp))"
proof -
  from assms have ip: "list_all is_digit ip" "ip \<noteq> []" and fp: "fp = [] \<or> frac_part fp"
    using int_part_digits by (auto simp: amount_form_def)
  have sign: "scan_sign (amount_text ip fp) = (False, amount_text ip fp)"
    using ip by (cases ip) (auto simp: scan_sign_def amount_text_def split: if_splits)
  have sc: "takeWhile is_digit (amount_text ip fp) = ip"
    "dropWhile is_digit (amount_text ip fp) = (if fp = [] then [] else CHR ''.'' # fp)"
    using ip span_digits[of ip "CHR ''.'' # fp"] span_digits[of ip "[]"]
    by (auto simp: amount_text_def)
  have fr: "scan_fraction (if fp = [] then [] else CHR ''.'' # fp) = (fp, [])"
    using fp span_digits[of fp "[]"] by (auto simp: scan_fraction_def frac_part_def)
  show ?thesis
    using ip by (auto simp: rat_set_string_def sign sc fr scan_exponent_def Let_def
        scale10_def amount_value_def)
qed

text \<open>C39: \<open>ParseAmount\<close> accepts exactly the texts of the documented grammar (an integer part without
  leading zeros, optionally a point and digits) that denote a positive number and have at most
  1,000,000 fractional digits, and returns the exact rational they denote.\<close>

theorem parse_amount_iff:
  "ParseAmount s = Inr r \<longleftrightarrow>
    (\<exists>ip fp. amount_form ip fp \<and> s = amount_text ip fp \<and>
       0 < digits_val (ip @ fp) \<and> int (length fp) \<le> rat_exp_limit \<and> r = amount_value ip fp)"
  (is "?L \<longleftrightarrow> ?R")
proof
  assume L: ?L
  then have "checkAmountGrammar s = Inr ()"
    by (auto simp: ParseAmount_def split: if_splits sum.splits)
  then obtain ip fp where f: "amount_form ip fp" "s = amount_text ip fp"
    using checkAmountGrammar_sound by blast
  have "rat_set_string s = Some r" "0 < r"
    using L by (auto simp: ParseAmount_def split: if_splits sum.splits option.splits)
  with f rat_set_string_amount[OF f(1)]
  have "0 < digits_val (ip @ fp) \<and> int (length fp) \<le> rat_exp_limit \<and> r = amount_value ip fp"
    by (auto split: if_splits)
  with f show ?R by blast
next
  assume ?R
  then obtain ip fp where f: "amount_form ip fp" "s = amount_text ip fp"
    "0 < digits_val (ip @ fp)" "int (length fp) \<le> rat_exp_limit" "r = amount_value ip fp" by blast
  then have "s \<noteq> []" using int_part_digits[of ip] by (auto simp: amount_form_def amount_text_def)
  moreover have "0 < r" using f by (simp add: amount_value_def)
  ultimately show ?L
    using f rat_set_string_amount[OF f(1)] checkAmountGrammar_complete[OF f(1)]
    by (auto simp: ParseAmount_def)
qed

lemma ParseAmount_pos: "ParseAmount s = Inr r \<Longrightarrow> 0 < r"
  by (auto simp: ParseAmount_def split: if_splits sum.splits option.splits)

lemma ParseAmount_rat_set_string: "ParseAmount s = Inr r \<Longrightarrow> rat_set_string s = Some r"
  by (auto simp: ParseAmount_def split: if_splits sum.splits option.splits)

end
