(* ===== verification/Ledger.thy ===== *)
theory Ledger
  imports Amount "HOL-Library.Char_ord" "HOL-Library.List_Lexorder"
begin

text \<open>
  The ledger boundary (src/internal/ledger): the transaction context, the canonical
  encoding that is hashed into \<open>spt_txn_context_hash\<close>, the adapter registry, and the
  adapters of fifteen chains. The interface \<open>ledger_adapter\<close> states what an adapter promises;
  every modelled adapter interprets it, and the binding theorem is proved once from it.

  \<open>sort.Strings\<close> is the bytewise lexicographic order, here the list order over characters.
  A \<open>range\<close> over a Go string visits code points; every character test below accepts only
  ASCII characters, so testing each byte gives the same answer.
\<close>

section \<open>Transaction context and canonical encoding\<close>

record txnctx =
  tc_Chain :: string
  tc_Originator :: string
  tc_Beneficiary :: string
  tc_Amount :: string
  tc_Currency :: string
  tc_Timestamp :: int
  tc_Extra :: "string gomap"

datatype ledger_err =
    BadBeneficiary string
  | BadOriginator string
  | BadAmount amount_err
  | CurrencyRequired
  | BadCurrency string
  | BadExtra string
  | ReservedByte string
  | NoAdapter string
  | ValidateFailed string ledger_err
  | CanonicalizeFailed string ledger_err

definition US :: char where "US = CHR 0x1F"
definition RS :: char where "RS = CHR 0x1E"

definition reserved :: "string \<Rightarrow> bool" where
  "reserved s = (US \<in> set s \<or> RS \<in> set s)"

fun encode_fields :: "(string \<times> string) list \<Rightarrow> ledger_err + bytes" where
  "encode_fields [] = Inr []"
| "encode_fields ((k, v) # fs) =
     (if reserved k \<or> reserved v then Inl (ReservedByte k)
      else case encode_fields fs of
          Inl e \<Rightarrow> Inl e
        | Inr b \<Rightarrow> Inr (k @ US # v @ RS # b))"

definition extra_fields :: "string gomap \<Rightarrow> (string \<times> string) list" where
  "extra_fields extra =
     map (\<lambda>k. (''x:'' @ k, case map_of extra k of None \<Rightarrow> [] | Some v \<Rightarrow> v)) (sort (map fst extra))"

definition canonicalEncode :: "(string \<times> string) list \<Rightarrow> string gomap \<Rightarrow> ledger_err + bytes" where
  "canonicalEncode ordered extra = encode_fields (ordered @ extra_fields extra)"

lemma US_RS [simp]: "US \<noteq> RS" "RS \<noteq> US"
  by (simp_all add: US_def RS_def)

lemma reserved_simps: "reserved [] = False" "reserved (c # s) = (c = US \<or> c = RS \<or> reserved s)"
  by (auto simp: reserved_def)

lemma split_at_sep:
  "x \<notin> set a \<Longrightarrow> x \<notin> set c \<Longrightarrow> a @ x # b = c @ x # d \<longleftrightarrow> a = c \<and> b = d"
proof (induction a arbitrary: c)
  case Nil
  then show ?case by (cases c) auto
next
  case (Cons y a)
  then show ?case by (cases c) auto
qed

lemma encode_fields_inj:
  "encode_fields fs = Inr b \<Longrightarrow> encode_fields gs = Inr b \<Longrightarrow> fs = gs"
proof (induction fs arbitrary: gs b)
  case Nil
  then show ?case by (cases gs) (auto split: if_splits sum.splits)
next
  case (Cons f fs)
  obtain k v where f: "f = (k, v)" by fastforce
  with Cons.prems obtain b1 where b1: "encode_fields fs = Inr b1"
    "b = k @ US # v @ RS # b1" "\<not> reserved k" "\<not> reserved v"
    by (auto split: if_splits sum.splits)
  with Cons.prems(2) obtain k' v' gs' b2 where g: "gs = (k', v') # gs'"
    "encode_fields gs' = Inr b2" "b = k' @ US # v' @ RS # b2" "\<not> reserved k'" "\<not> reserved v'"
    by (cases gs) (auto split: if_splits sum.splits)
  from b1 g have "k = k' \<and> v = v' \<and> b1 = b2"
    by (metis reserved_def split_at_sep)
  with Cons.IH[OF b1(1)] g f show ?case by simp
qed

lemma extra_fields_inj:
  assumes "extra_fields a = extra_fields b"
  shows "map_of a = map_of b"
proof
  fix k
  have sorted: "sort (map fst a) = sort (map fst b)"
  proof -
    from assms have "map (drop 2 \<circ> fst) (extra_fields a) = map (drop 2 \<circ> fst) (extra_fields b)"
      by simp
    moreover have "map (drop 2 \<circ> fst) (extra_fields c) = sort (map fst c)" for c
      by (simp add: extra_fields_def comp_def)
    ultimately show ?thesis by simp
  qed
  show "map_of a k = map_of b k"
  proof (cases "k \<in> fst ` set a")
    case True
    then have kb: "k \<in> fst ` set b" using sorted by (metis set_map set_sort)
    from True obtain v where v: "map_of a k = Some v" by (metis map_of_eq_None_iff not_None_eq)
    from kb obtain w where w: "map_of b k = Some w" by (metis map_of_eq_None_iff not_None_eq)
    from assms sorted True have "\<forall>j \<in> set (sort (map fst a)).
        (case map_of a j of None \<Rightarrow> [] | Some v \<Rightarrow> v) = (case map_of b j of None \<Rightarrow> [] | Some v \<Rightarrow> v)"
      by (simp add: extra_fields_def)
    moreover from True have "k \<in> set (sort (map fst a))" by simp
    ultimately show ?thesis using v w by (metis option.simps(5))
  next
    case False
    then have "k \<notin> fst ` set b" using sorted by (metis set_map set_sort)
    with False show ?thesis by (metis map_of_eq_None_iff)
  qed
qed

lemma canonicalEncode_inj:
  assumes "canonicalEncode o1 e1 = Inr b" and "canonicalEncode o2 e2 = Inr b"
    and "length o1 = length o2"
  shows "o1 = o2 \<and> map_of e1 = map_of e2"
proof -
  from assms(1,2) have "o1 @ extra_fields e1 = o2 @ extra_fields e2"
    unfolding canonicalEncode_def by (rule encode_fields_inj)
  with assms(3) have "o1 = o2" and "extra_fields e1 = extra_fields e2" by simp_all
  with extra_fields_inj show ?thesis by blast
qed

section \<open>Adapters\<close>

record adapter =
  ad_name :: string
  ad_validate :: "txnctx \<Rightarrow> ledger_err + unit"
  ad_canonicalize :: "txnctx \<Rightarrow> ledger_err + bytes"

definition validAmount :: "string \<Rightarrow> ledger_err + unit" where
  "validAmount s = (case ParseAmount s of Inl e \<Rightarrow> Inl (BadAmount e) | Inr _ \<Rightarrow> Inr ())"

definition ContextHash ::
  "(bytes \<Rightarrow> bytes) \<Rightarrow> adapter \<Rightarrow> txnctx \<Rightarrow> ledger_err + bytes \<times> string" where
  "ContextHash sha256 l tc = (case ad_validate l tc of
      Inl e \<Rightarrow> Inl (ValidateFailed (ad_name l) e)
    | Inr _ \<Rightarrow> (case ad_canonicalize l tc of
          Inl e \<Rightarrow> Inl (CanonicalizeFailed (ad_name l) e)
        | Inr pre \<Rightarrow> Inr (sha256 pre, hex_encode (sha256 pre))))"

definition Register :: "adapter \<Rightarrow> adapter gomap \<Rightarrow> adapter gomap" where
  "Register l reg = put (ad_name l) l reg"

definition Get :: "adapter gomap \<Rightarrow> string \<Rightarrow> ledger_err + adapter" where
  "Get reg name = (case map_of reg name of None \<Rightarrow> Inl (NoAdapter name) | Some l \<Rightarrow> Inr l)"

subsection \<open>Shape checks\<close>

definition in_range :: "char \<Rightarrow> nat \<Rightarrow> nat \<Rightarrow> bool" where
  "in_range c lo hi = (lo \<le> (of_char c :: nat) \<and> (of_char c :: nat) \<le> hi)"

definition is_hex_char :: "char \<Rightarrow> bool" where
  "is_hex_char c = (in_range c 48 57 \<or> in_range c 97 102 \<or> in_range c 65 70)"

definition isHexStr :: "string \<Rightarrow> bool" where
  "isHexStr s = (s \<noteq> [] \<and> list_all is_hex_char s)"

definition isHex64 :: "string \<Rightarrow> bool" where
  "isHex64 s = (length s = 64 \<and> list_all is_hex_char s)"

definition has_prefix :: "string \<Rightarrow> string \<Rightarrow> bool" where
  "has_prefix p s = (take (length p) s = p)"

definition has_0x :: "string \<Rightarrow> bool" where
  "has_0x s = (has_prefix ''0x'' s \<or> has_prefix ''0X'' s)"

definition looksLikeEVMAddress :: "string \<Rightarrow> bool" where
  "looksLikeEVMAddress s = (has_0x s \<and> length (drop 2 s) = 40 \<and> isHexStr (drop 2 s))"

text \<open>\<open>strings.ToLower\<close>, \<open>strings.EqualFold\<close>: only the ASCII letters matter, since the code
  compares the result with ASCII text that has no other case variants.\<close>

definition lower_char :: "char \<Rightarrow> char" where
  "lower_char c = (if in_range c 65 90 then char_of ((of_char c :: nat) + 32) else c)"

definition to_lower :: "string \<Rightarrow> string" where
  "to_lower s = map lower_char s"

definition looksLikeXDCAddress :: "string \<Rightarrow> bool" where
  "looksLikeXDCAddress s =
     (if has_prefix ''xdc'' (to_lower s) then length (drop 3 s) = 40 \<and> isHexStr (drop 3 s)
      else if has_prefix ''0x'' (to_lower s) then length (drop 2 s) = 40 \<and> isHexStr (drop 2 s)
      else False)"

definition looksLikeXRPLAddress :: "string \<Rightarrow> bool" where
  "looksLikeXRPLAddress s =
     (has_prefix ''r'' s \<and> 25 \<le> length s \<and> length s \<le> 35 \<or> has_prefix ''X'' s \<and> 25 \<le> length s)"

definition isUint32 :: "string \<Rightarrow> bool" where
  "isUint32 s = (s \<noteq> [] \<and> list_all is_digit s \<and> length s \<le> 10)"

definition looksLikeStarknetAddress :: "string \<Rightarrow> bool" where
  "looksLikeStarknetAddress s =
     (has_0x s \<and> 1 \<le> length (drop 2 s) \<and> length (drop 2 s) \<le> 64 \<and> isHexStr (drop 2 s))"

definition isBase58 :: "string \<Rightarrow> bool" where
  "isBase58 s = (s \<noteq> [] \<and>
     list_all (\<lambda>c. c \<in> set ''123456789ABCDEFGHJKLMNPQRSTUVWXYZabcdefghijkmnopqrstuvwxyz'') s)"

definition looksLikeSolanaAddress :: "string \<Rightarrow> bool" where
  "looksLikeSolanaAddress s = (32 \<le> length s \<and> length s \<le> 44 \<and> isBase58 s)"

definition isBase32 :: "string \<Rightarrow> bool" where
  "isBase32 s = (s \<noteq> [] \<and> list_all (\<lambda>c. c \<in> set ''ABCDEFGHIJKLMNOPQRSTUVWXYZ234567'') s)"

definition looksLikeStellarAddress :: "string \<Rightarrow> bool" where
  "looksLikeStellarAddress s =
     (has_prefix ''G'' s \<and> length s = 56 \<and> isBase32 s \<or> has_prefix ''M'' s \<and> length s = 69 \<and> isBase32 s)"

definition isAssetCode :: "string \<Rightarrow> bool" where
  "isAssetCode s = (1 \<le> length s \<and> length s \<le> 12 \<and>
     list_all (\<lambda>c. in_range c 48 57 \<or> in_range c 97 122 \<or> in_range c 65 90) s)"

definition looksLikeAlgorandAddress :: "string \<Rightarrow> bool" where
  "looksLikeAlgorandAddress s =
     (length s = 58 \<and> list_all (\<lambda>c. in_range c 65 90 \<or> in_range c 50 55) s)"

definition isASAID :: "string \<Rightarrow> bool" where
  "isASAID s = (s \<noteq> [] \<and> s \<noteq> ''0'' \<and> list_all is_digit s)"

definition extra_ok :: "txnctx \<Rightarrow> string \<Rightarrow> (string \<Rightarrow> bool) \<Rightarrow> bool" where
  "extra_ok tc k P = (case map_of (tc_Extra tc) k of None \<Rightarrow> True | Some v \<Rightarrow> P v)"

text \<open>\<open>strings.Split\<close> by a one-character and by a two-character separator.\<close>

fun split_char :: "char \<Rightarrow> string \<Rightarrow> string list" where
  "split_char d [] = [[]]"
| "split_char d (c # cs) =
     (if c = d then [] # split_char d cs
      else case split_char d cs of [] \<Rightarrow> [[c]] | p # ps \<Rightarrow> (c # p) # ps)"

fun split_colons :: "string \<Rightarrow> string list" where
  "split_colons [] = [[]]"
| "split_colons [c] = [[c]]"
| "split_colons (c # d # cs) =
     (if c = CHR '':'' \<and> d = CHR '':'' then [] # split_colons cs
      else case split_colons (d # cs) of [] \<Rightarrow> [[c]] | p # ps \<Rightarrow> (c # p) # ps)"

definition is_alnum_lower :: "char \<Rightarrow> bool" where
  "is_alnum_lower c = (in_range c 97 122 \<or> in_range c 48 57)"

text \<open>The language of \<open>nearNamedRe\<close>: non-empty runs of lower-case letters and digits, joined by
  single separators. The flag says whether the last character read was a letter or digit.\<close>

fun near_named :: "bool \<Rightarrow> string \<Rightarrow> bool" where
  "near_named p [] = p"
| "near_named p (c # cs) =
     (if is_alnum_lower c then near_named True cs
      else if c = CHR ''.'' \<or> c = CHR ''-'' \<or> c = CHR ''_'' then p \<and> near_named False cs
      else False)"

definition isLowerHex :: "string \<Rightarrow> bool" where
  "isLowerHex s = (s \<noteq> [] \<and> list_all (\<lambda>c. in_range c 48 57 \<or> in_range c 97 102) s)"

definition looksLikeNearAccount :: "string \<Rightarrow> bool" where
  "looksLikeNearAccount s =
     (if length s < 2 \<or> 64 < length s then False
      else if length s = 64 \<and> isLowerHex s then True
      else near_named False s)"

definition is_move_letter :: "char \<Rightarrow> bool" where
  "is_move_letter c = (in_range c 97 122 \<or> in_range c 65 90 \<or> c = CHR ''_'')"

definition isMoveIdent :: "string \<Rightarrow> bool" where
  "isMoveIdent s = (s \<noteq> [] \<and> is_move_letter (hd s) \<and> list_all (\<lambda>c. is_move_letter c \<or> is_digit c) s)"

definition looksLikeAptosAddress :: "string \<Rightarrow> bool" where
  "looksLikeAptosAddress s =
     (has_0x s \<and> 1 \<le> length (drop 2 s) \<and> length (drop 2 s) \<le> 64 \<and> isHexStr (drop 2 s))"

definition looksLikeAptosCoinType :: "string \<Rightarrow> bool" where
  "looksLikeAptosCoinType s = (case split_colons s of
      [a, m, t] \<Rightarrow> looksLikeAptosAddress a \<and> isMoveIdent m \<and> isMoveIdent t
    | _ \<Rightarrow> False)"

definition looksLikeSuiAddress :: "string \<Rightarrow> bool" where
  "looksLikeSuiAddress s =
     (has_0x s \<and> 1 \<le> length (drop 2 s) \<and> length (drop 2 s) \<le> 64 \<and> isHexStr (drop 2 s))"

definition looksLikeSuiCoinType :: "string \<Rightarrow> bool" where
  "looksLikeSuiCoinType s = (case split_colons s of
      [a, m, t] \<Rightarrow> looksLikeSuiAddress a \<and> isMoveIdent m \<and> isMoveIdent t
    | _ \<Rightarrow> False)"

definition isUintStr :: "string \<Rightarrow> bool" where
  "isUintStr s = (s \<noteq> [] \<and> list_all is_digit s)"

definition isHex40 :: "string \<Rightarrow> bool" where
  "isHex40 s = (length s = 40 \<and> list_all is_hex_char s)"

definition looksLikeHederaAccount :: "string \<Rightarrow> bool" where
  "looksLikeHederaAccount s =
     (if has_0x s then isHex40 (drop 2 s)
      else length (split_char CHR ''.'' s) = 3 \<and> list_all isUintStr (split_char CHR ''.'' s))"

definition isBech32 :: "string \<Rightarrow> bool" where
  "isBech32 s = list_all (\<lambda>c. in_range c 97 122 \<or> in_range c 48 57 \<or> c = CHR ''_'') s"

definition looksLikeCardanoAddress :: "string \<Rightarrow> bool" where
  "looksLikeCardanoAddress s =
     (if has_prefix ''addr1'' s \<or> has_prefix ''addr_test1'' s
      then \<not> (length s < 20 \<or> 130 < length s) \<and> isBech32 s
      else if has_prefix ''Ae2'' s \<or> has_prefix ''DdzFF'' s
      then 40 \<le> length s \<and> length s \<le> 130 \<and> isBase58 s
      else False)"

definition isLowerOrHex :: "string \<Rightarrow> bool" where
  "isLowerOrHex s = list_all is_hex_char s"

definition looksLikeNativeAsset :: "string \<Rightarrow> bool" where
  "looksLikeNativeAsset s =
     (let policy = takeWhile (\<lambda>c. c \<noteq> CHR ''.'') s; rest = dropWhile (\<lambda>c. c \<noteq> CHR ''.'') s in
      (rest \<noteq> [] \<longrightarrow> (tl rest \<noteq> [] \<and> length (tl rest) \<le> 64 \<and> isLowerOrHex (tl rest))) \<and>
      length policy = 56 \<and> isLowerOrHex policy)"

definition looksLikePolkadotAddress :: "string \<Rightarrow> bool" where
  "looksLikePolkadotAddress s =
     (if has_0x s then isHex64 (drop 2 s)
      else 46 \<le> length s \<and> length s \<le> 50 \<and> isBase58 s)"

text \<open>The checks every chain adapter runs, in order: parties, amount, currency present.\<close>

definition validate_transfer ::
  "(string \<Rightarrow> bool) \<Rightarrow> (string \<Rightarrow> bool) \<Rightarrow> txnctx \<Rightarrow> (ledger_err + unit) \<Rightarrow> ledger_err + unit" where
  "validate_transfer addr cur_ok tc rest =
     (if \<not> addr (tc_Beneficiary tc) then Inl (BadBeneficiary (tc_Beneficiary tc))
      else if tc_Originator tc \<noteq> [] \<and> \<not> addr (tc_Originator tc)
        then Inl (BadOriginator (tc_Originator tc))
      else case validAmount (tc_Amount tc) of
          Inl e \<Rightarrow> Inl e
        | Inr _ \<Rightarrow>
            if tc_Currency tc = [] then Inl CurrencyRequired
            else if \<not> cur_ok (tc_Currency tc) then Inl (BadCurrency (tc_Currency tc))
            else rest)"

definition anchor_check :: "txnctx \<Rightarrow> ledger_err + unit" where
  "anchor_check tc = (if extra_ok tc ''anchor_hash'' isHex64 then Inr () else Inl (BadExtra ''anchor_hash''))"

definition transfer_fields :: "string \<Rightarrow> string \<Rightarrow> string \<Rightarrow> txnctx \<Rightarrow> (string \<times> string) list" where
  "transfer_fields chain ty asset tc =
     [(''chain'', chain), (''TransactionType'', ty), (''sender'', tc_Originator tc),
      (''receiver'', tc_Beneficiary tc), (''amount'', tc_Amount tc), (asset, tc_Currency tc),
      (''timestamp'', int_str (tc_Timestamp tc))]"

definition evm_adapter :: "string \<Rightarrow> string \<Rightarrow> adapter" where
  "evm_adapter chain native = \<lparr>ad_name = chain,
     ad_validate = (\<lambda>tc. validate_transfer looksLikeEVMAddress
        (\<lambda>c. c = native \<or> looksLikeEVMAddress c) tc (anchor_check tc)),
     ad_canonicalize = (\<lambda>tc. canonicalEncode (transfer_fields chain ''Transfer'' ''token'' tc) (tc_Extra tc))\<rparr>"

subsection \<open>The adapters\<close>

definition generic_fields :: "txnctx \<Rightarrow> (string \<times> string) list" where
  "generic_fields tc =
     [(''chain'', ''none''), (''originator'', tc_Originator tc), (''beneficiary'', tc_Beneficiary tc),
      (''amount'', tc_Amount tc), (''currency'', tc_Currency tc),
      (''timestamp'', int_str (tc_Timestamp tc))]"

definition Generic :: adapter where
  "Generic = \<lparr>ad_name = ''none'',
     ad_validate = (\<lambda>tc.
       if tc_Beneficiary tc = [] then Inl (BadBeneficiary [])
       else case validAmount (tc_Amount tc) of
           Inl e \<Rightarrow> Inl e
         | Inr _ \<Rightarrow> if tc_Currency tc = [] then Inl CurrencyRequired else Inr ()),
     ad_canonicalize = (\<lambda>tc. canonicalEncode (generic_fields tc) (tc_Extra tc))\<rparr>"

definition xrpl_fields :: "txnctx \<Rightarrow> (string \<times> string) list" where
  "xrpl_fields tc =
     [(''chain'', ''xrpl''), (''TransactionType'', ''Payment''), (''Account'', tc_Originator tc),
      (''Destination'', tc_Beneficiary tc), (''Amount'', tc_Amount tc), (''Currency'', tc_Currency tc),
      (''timestamp'', int_str (tc_Timestamp tc))]"

definition XRPL :: adapter where
  "XRPL = \<lparr>ad_name = ''xrpl'',
     ad_validate = (\<lambda>tc. validate_transfer looksLikeXRPLAddress (\<lambda>_. True) tc
       (if extra_ok tc ''DestinationTag'' isUint32 then Inr () else Inl (BadExtra ''DestinationTag''))),
     ad_canonicalize = (\<lambda>tc. canonicalEncode (xrpl_fields tc) (tc_Extra tc))\<rparr>"

definition Ethereum :: adapter where "Ethereum = evm_adapter ''ethereum'' ''ETH''"
definition Base :: adapter where "Base = evm_adapter ''base'' ''ETH''"
definition Optimism :: adapter where "Optimism = evm_adapter ''optimism'' ''ETH''"
definition Arbitrum :: adapter where "Arbitrum = evm_adapter ''arbitrum'' ''ETH''"
definition Avalanche :: adapter where "Avalanche = evm_adapter ''avalanche'' ''AVAX''"
definition BSC :: adapter where "BSC = evm_adapter ''bsc'' ''BNB''"
definition Morph :: adapter where "Morph = evm_adapter ''morph'' ''ETH''"
definition XLayer :: adapter where "XLayer = evm_adapter ''xlayer'' ''OKB''"

definition XDC :: adapter where
  "XDC = \<lparr>ad_name = ''xdc'',
     ad_validate = (\<lambda>tc. validate_transfer looksLikeXDCAddress
        (\<lambda>c. c = ''XDC'' \<or> looksLikeXDCAddress c) tc (anchor_check tc)),
     ad_canonicalize = (\<lambda>tc. canonicalEncode (transfer_fields ''xdc'' ''Transfer'' ''token'' tc) (tc_Extra tc))\<rparr>"

definition Starknet :: adapter where
  "Starknet = \<lparr>ad_name = ''starknet'',
     ad_validate = (\<lambda>tc. validate_transfer looksLikeStarknetAddress
        (\<lambda>c. c = ''ETH'' \<or> c = ''STRK'' \<or> looksLikeStarknetAddress c) tc (anchor_check tc)),
     ad_canonicalize = (\<lambda>tc. canonicalEncode (transfer_fields ''starknet'' ''Transfer'' ''token'' tc) (tc_Extra tc))\<rparr>"

definition Solana :: adapter where
  "Solana = \<lparr>ad_name = ''solana'',
     ad_validate = (\<lambda>tc. validate_transfer looksLikeSolanaAddress (\<lambda>_. True) tc
       (if extra_ok tc ''memo'' (\<lambda>m. length m \<le> 566) then Inr () else Inl (BadExtra ''memo''))),
     ad_canonicalize = (\<lambda>tc. canonicalEncode (transfer_fields ''solana'' ''Transfer'' ''currency'' tc) (tc_Extra tc))\<rparr>"

definition stellar_fields :: "txnctx \<Rightarrow> (string \<times> string) list" where
  "stellar_fields tc =
     [(''chain'', ''stellar''), (''TransactionType'', ''Payment''), (''source'', tc_Originator tc),
      (''destination'', tc_Beneficiary tc), (''amount'', tc_Amount tc), (''asset'', tc_Currency tc),
      (''timestamp'', int_str (tc_Timestamp tc))]"

definition Stellar :: adapter where
  "Stellar = \<lparr>ad_name = ''stellar'',
     ad_validate = (\<lambda>tc. validate_transfer looksLikeStellarAddress
       (\<lambda>c. c = ''XLM'' \<or> isAssetCode c) tc
       (if \<not> extra_ok tc ''memo'' (\<lambda>m. length m \<le> 28) then Inl (BadExtra ''memo'')
        else if \<not> extra_ok tc ''memo_hash'' isHex64 then Inl (BadExtra ''memo_hash'')
        else Inr ())),
     ad_canonicalize = (\<lambda>tc. canonicalEncode (stellar_fields tc) (tc_Extra tc))\<rparr>"

definition Algorand :: adapter where
  "Algorand = \<lparr>ad_name = ''algorand'',
     ad_validate = (\<lambda>tc. validate_transfer looksLikeAlgorandAddress
        (\<lambda>c. c = ''ALGO'' \<or> isASAID c) tc (anchor_check tc)),
     ad_canonicalize = (\<lambda>tc. canonicalEncode (transfer_fields ''algorand'' ''Transfer'' ''asset'' tc) (tc_Extra tc))\<rparr>"

definition Near :: adapter where
  "Near = \<lparr>ad_name = ''near'',
     ad_validate = (\<lambda>tc. validate_transfer looksLikeNearAccount
        (\<lambda>c. to_lower c = ''near'' \<or> looksLikeNearAccount c) tc (Inr ())),
     ad_canonicalize = (\<lambda>tc. canonicalEncode (transfer_fields ''near'' ''Transfer'' ''currency'' tc) (tc_Extra tc))\<rparr>"

definition Sui :: adapter where
  "Sui = \<lparr>ad_name = ''sui'',
     ad_validate = (\<lambda>tc. validate_transfer looksLikeSuiAddress
        (\<lambda>c. c = ''SUI'' \<or> looksLikeSuiCoinType c) tc (anchor_check tc)),
     ad_canonicalize = (\<lambda>tc. canonicalEncode (transfer_fields ''sui'' ''Transfer'' ''asset'' tc) (tc_Extra tc))\<rparr>"

definition Aptos :: adapter where
  "Aptos = \<lparr>ad_name = ''aptos'',
     ad_validate = (\<lambda>tc. validate_transfer looksLikeAptosAddress
        (\<lambda>c. c = ''APT'' \<or> looksLikeAptosCoinType c \<or> looksLikeAptosAddress c) tc (anchor_check tc)),
     ad_canonicalize = (\<lambda>tc. canonicalEncode (transfer_fields ''aptos'' ''Transfer'' ''asset'' tc) (tc_Extra tc))\<rparr>"

definition Hedera :: adapter where
  "Hedera = \<lparr>ad_name = ''hedera'',
     ad_validate = (\<lambda>tc. validate_transfer looksLikeHederaAccount (\<lambda>_. True) tc
       (if extra_ok tc ''memo'' (\<lambda>m. length m \<le> 100) then Inr () else Inl (BadExtra ''memo''))),
     ad_canonicalize = (\<lambda>tc. canonicalEncode
       (transfer_fields ''hedera'' ''CryptoTransfer'' ''currency'' tc) (tc_Extra tc))\<rparr>"

definition Cardano :: adapter where
  "Cardano = \<lparr>ad_name = ''cardano'',
     ad_validate = (\<lambda>tc. validate_transfer looksLikeCardanoAddress
       (\<lambda>c. to_lower c = ''ada'' \<or> looksLikeNativeAsset c) tc
       (if \<not> extra_ok tc ''metadata'' (\<lambda>m. length m \<le> 1024) then Inl (BadExtra ''metadata'')
        else anchor_check tc)),
     ad_canonicalize = (\<lambda>tc. canonicalEncode (transfer_fields ''cardano'' ''Transfer'' ''currency'' tc) (tc_Extra tc))\<rparr>"

definition Polkadot :: adapter where
  "Polkadot = \<lparr>ad_name = ''polkadot'',
     ad_validate = (\<lambda>tc. validate_transfer looksLikePolkadotAddress (\<lambda>_. True) tc
       (if extra_ok tc ''remark'' (\<lambda>r. r = [] \<or> isHex64 r) then Inr () else Inl (BadExtra ''remark''))),
     ad_canonicalize = (\<lambda>tc. canonicalEncode
       (transfer_fields ''polkadot'' ''balances.transfer'' ''asset'' tc) (tc_Extra tc))\<rparr>"

text \<open>Each adapter's file registers it from \<open>init\<close>.\<close>

definition adapters :: "adapter list" where
  "adapters = [Algorand, Aptos, Arbitrum, Avalanche, Base, BSC, Cardano, Ethereum, Generic, Hedera,
     Morph, Near, Optimism, Polkadot, Solana, Starknet, Stellar, Sui, XDC, XLayer, XRPL]"

definition registry :: "adapter gomap" where
  "registry = fold Register adapters []"

section \<open>What an adapter promises\<close>

locale ledger_adapter =
  fixes ad :: adapter and fields :: "txnctx \<Rightarrow> (string \<times> string) list"
  assumes canon: "ad_canonicalize ad tc = canonicalEncode (fields tc) (tc_Extra tc)"
    and tag: "\<exists>rest. fields tc = (''chain'', ad_name ad) # rest"
    and fields_length: "length (fields tc) = length (fields tc')"
    and fields_core: "fields tc = fields tc' \<Longrightarrow>
      tc_Originator tc = tc_Originator tc' \<and> tc_Beneficiary tc = tc_Beneficiary tc' \<and>
      tc_Amount tc = tc_Amount tc' \<and> tc_Currency tc = tc_Currency tc' \<and>
      tc_Timestamp tc = tc_Timestamp tc'"
    and checks: "ad_validate ad tc = Inr () \<Longrightarrow>
      tc_Beneficiary tc \<noteq> [] \<and> tc_Currency tc \<noteq> [] \<and> is_ok (ParseAmount (tc_Amount tc))"
begin

lemma preimage_tag:
  assumes "ad_canonicalize ad tc = Inr b"
  shows "\<exists>rest. encode_fields ((''chain'', ad_name ad) # rest) = Inr b"
  using assms tag[of tc] by (auto simp: canon canonicalEncode_def)

lemma preimage_binds:
  assumes "ad_canonicalize ad tc = Inr b" and "ad_canonicalize ad tc' = Inr b"
  shows "tc_Originator tc = tc_Originator tc' \<and> tc_Beneficiary tc = tc_Beneficiary tc' \<and>
    tc_Amount tc = tc_Amount tc' \<and> tc_Currency tc = tc_Currency tc' \<and>
    tc_Timestamp tc = tc_Timestamp tc' \<and> map_of (tc_Extra tc) = map_of (tc_Extra tc')"
  using canonicalEncode_inj[OF assms[unfolded canon] fields_length] fields_core[of tc tc']
  by blast

end

lemma validate_transfer_ok:
  assumes "validate_transfer addr cur_ok tc rest = Inr ()" and "\<not> addr []"
  shows "tc_Beneficiary tc \<noteq> [] \<and> tc_Currency tc \<noteq> [] \<and> is_ok (ParseAmount (tc_Amount tc))"
  using assms by (auto simp: validate_transfer_def validAmount_def is_ok_iff split: if_splits sum.splits)

lemma transfer_adapter:
  assumes "ad_validate ad = (\<lambda>tc. validate_transfer addr cur_ok tc (rest tc))" and "\<not> addr []"
    and "ad_canonicalize ad = (\<lambda>tc. canonicalEncode (transfer_fields (ad_name ad) ty asset tc) (tc_Extra tc))"
  shows "ledger_adapter ad (transfer_fields (ad_name ad) ty asset)"
  by unfold_locales
     (use assms validate_transfer_ok in \<open>auto simp: transfer_fields_def int_str_inj\<close>)

lemma empty_address [simp]:
  "\<not> looksLikeEVMAddress []" "\<not> looksLikeXDCAddress []" "\<not> looksLikeXRPLAddress []"
  "\<not> looksLikeStarknetAddress []" "\<not> looksLikeSolanaAddress []" "\<not> looksLikeStellarAddress []"
  "\<not> looksLikeAlgorandAddress []" "\<not> looksLikeNearAccount []" "\<not> looksLikeAptosAddress []"
  "\<not> looksLikeSuiAddress []" "\<not> looksLikeHederaAccount []" "\<not> looksLikeCardanoAddress []"
  "\<not> looksLikePolkadotAddress []"
  by (simp_all add: looksLikeEVMAddress_def looksLikeXDCAddress_def looksLikeXRPLAddress_def
      looksLikeStarknetAddress_def looksLikeSolanaAddress_def looksLikeStellarAddress_def
      looksLikeAlgorandAddress_def looksLikeNearAccount_def looksLikeAptosAddress_def
      looksLikeSuiAddress_def looksLikeHederaAccount_def looksLikeCardanoAddress_def
      looksLikePolkadotAddress_def has_prefix_def has_0x_def to_lower_def)

lemma evm_ledger_adapter: "ledger_adapter (evm_adapter chain native) (transfer_fields chain ''Transfer'' ''token'')"
  using transfer_adapter[of "evm_adapter chain native" looksLikeEVMAddress
      "\<lambda>c. c = native \<or> looksLikeEVMAddress c" anchor_check "''Transfer''" "''token''"]
  by (simp add: evm_adapter_def)

interpretation algorand_ad: ledger_adapter Algorand "transfer_fields ''algorand'' ''Transfer'' ''asset''"
  using transfer_adapter[of Algorand _ _ _ "''Transfer''" "''asset''"] by (simp add: Algorand_def)

interpretation aptos_ad: ledger_adapter Aptos "transfer_fields ''aptos'' ''Transfer'' ''asset''"
  using transfer_adapter[of Aptos _ _ _ "''Transfer''" "''asset''"] by (simp add: Aptos_def)

interpretation arbitrum_ad: ledger_adapter Arbitrum "transfer_fields ''arbitrum'' ''Transfer'' ''token''"
  unfolding Arbitrum_def by (rule evm_ledger_adapter)

interpretation avalanche_ad: ledger_adapter Avalanche "transfer_fields ''avalanche'' ''Transfer'' ''token''"
  unfolding Avalanche_def by (rule evm_ledger_adapter)

interpretation base_ad: ledger_adapter Base "transfer_fields ''base'' ''Transfer'' ''token''"
  unfolding Base_def by (rule evm_ledger_adapter)

interpretation bsc_ad: ledger_adapter BSC "transfer_fields ''bsc'' ''Transfer'' ''token''"
  unfolding BSC_def by (rule evm_ledger_adapter)

interpretation cardano_ad: ledger_adapter Cardano "transfer_fields ''cardano'' ''Transfer'' ''currency''"
  using transfer_adapter[of Cardano _ _ _ "''Transfer''" "''currency''"] by (simp add: Cardano_def)

interpretation ethereum_ad: ledger_adapter Ethereum "transfer_fields ''ethereum'' ''Transfer'' ''token''"
  unfolding Ethereum_def by (rule evm_ledger_adapter)

interpretation generic_ad: ledger_adapter Generic generic_fields
  by unfold_locales
     (use validate_transfer_ok in \<open>auto simp: Generic_def generic_fields_def int_str_inj
        validAmount_def split: if_splits sum.splits\<close>)

interpretation hedera_ad: ledger_adapter Hedera "transfer_fields ''hedera'' ''CryptoTransfer'' ''currency''"
  using transfer_adapter[of Hedera _ _ _ "''CryptoTransfer''" "''currency''"] by (simp add: Hedera_def)

interpretation morph_ad: ledger_adapter Morph "transfer_fields ''morph'' ''Transfer'' ''token''"
  unfolding Morph_def by (rule evm_ledger_adapter)

interpretation near_ad: ledger_adapter Near "transfer_fields ''near'' ''Transfer'' ''currency''"
  using transfer_adapter[of Near _ _ _ "''Transfer''" "''currency''"] by (simp add: Near_def)

interpretation optimism_ad: ledger_adapter Optimism "transfer_fields ''optimism'' ''Transfer'' ''token''"
  unfolding Optimism_def by (rule evm_ledger_adapter)

interpretation polkadot_ad: ledger_adapter Polkadot "transfer_fields ''polkadot'' ''balances.transfer'' ''asset''"
  using transfer_adapter[of Polkadot _ _ _ "''balances.transfer''" "''asset''"] by (simp add: Polkadot_def)

interpretation solana_ad: ledger_adapter Solana "transfer_fields ''solana'' ''Transfer'' ''currency''"
  using transfer_adapter[of Solana _ _ _ "''Transfer''" "''currency''"] by (simp add: Solana_def)

interpretation starknet_ad: ledger_adapter Starknet "transfer_fields ''starknet'' ''Transfer'' ''token''"
  using transfer_adapter[of Starknet _ _ _ "''Transfer''" "''token''"] by (simp add: Starknet_def)

interpretation stellar_ad: ledger_adapter Stellar stellar_fields
  by unfold_locales
     (use validate_transfer_ok in \<open>auto simp: Stellar_def stellar_fields_def int_str_inj
        validAmount_def split: if_splits sum.splits\<close>)

interpretation sui_ad: ledger_adapter Sui "transfer_fields ''sui'' ''Transfer'' ''asset''"
  using transfer_adapter[of Sui _ _ _ "''Transfer''" "''asset''"] by (simp add: Sui_def)

interpretation xdc_ad: ledger_adapter XDC "transfer_fields ''xdc'' ''Transfer'' ''token''"
  using transfer_adapter[of XDC _ _ _ "''Transfer''" "''token''"] by (simp add: XDC_def)

interpretation xlayer_ad: ledger_adapter XLayer "transfer_fields ''xlayer'' ''Transfer'' ''token''"
  unfolding XLayer_def by (rule evm_ledger_adapter)

interpretation xrpl_ad: ledger_adapter XRPL xrpl_fields
  by unfold_locales
     (use validate_transfer_ok in \<open>auto simp: XRPL_def xrpl_fields_def int_str_inj
        validAmount_def split: if_splits sum.splits\<close>)

section \<open>Binding across adapters\<close>

lemma adapters_laws: "\<forall>l \<in> set adapters. \<exists>fields. ledger_adapter l fields"
  unfolding adapters_def
  using algorand_ad.ledger_adapter_axioms aptos_ad.ledger_adapter_axioms
    arbitrum_ad.ledger_adapter_axioms avalanche_ad.ledger_adapter_axioms
    base_ad.ledger_adapter_axioms bsc_ad.ledger_adapter_axioms cardano_ad.ledger_adapter_axioms
    ethereum_ad.ledger_adapter_axioms generic_ad.ledger_adapter_axioms
    hedera_ad.ledger_adapter_axioms morph_ad.ledger_adapter_axioms near_ad.ledger_adapter_axioms
    optimism_ad.ledger_adapter_axioms polkadot_ad.ledger_adapter_axioms
    solana_ad.ledger_adapter_axioms starknet_ad.ledger_adapter_axioms
    stellar_ad.ledger_adapter_axioms sui_ad.ledger_adapter_axioms xdc_ad.ledger_adapter_axioms
    xlayer_ad.ledger_adapter_axioms xrpl_ad.ledger_adapter_axioms
  by (simp, blast)

lemma adapter_names:
  "map ad_name adapters = [''algorand'', ''aptos'', ''arbitrum'', ''avalanche'', ''base'', ''bsc'',
     ''cardano'', ''ethereum'', ''none'', ''hedera'', ''morph'', ''near'', ''optimism'', ''polkadot'',
     ''solana'', ''starknet'', ''stellar'', ''sui'', ''xdc'', ''xlayer'', ''xrpl'']"
  by (simp add: adapters_def Algorand_def Aptos_def Arbitrum_def Avalanche_def Base_def BSC_def
      Cardano_def Ethereum_def Generic_def Hedera_def Morph_def Near_def Optimism_def Polkadot_def
      Solana_def Starknet_def Stellar_def Sui_def XDC_def XLayer_def XRPL_def evm_adapter_def)

lemma distinct_adapter_names: "distinct (map ad_name adapters)"
  unfolding adapter_names by code_simp

lemma same_adapter:
  "l1 \<in> set adapters \<Longrightarrow> l2 \<in> set adapters \<Longrightarrow> ad_name l1 = ad_name l2 \<Longrightarrow> l1 = l2"
  using distinct_adapter_names by (auto simp: distinct_map dest: inj_onD)

lemma map_of_fold_Register:
  "distinct (map ad_name ls) \<Longrightarrow> map_of (fold Register ls m) n =
     (case filter (\<lambda>l. ad_name l = n) ls of [] \<Rightarrow> map_of m n | l # _ \<Rightarrow> Some l)"
proof (induction ls arbitrary: m)
  case (Cons l ls)
  have "ad_name l = n \<Longrightarrow> filter (\<lambda>l. ad_name l = n) ls = []"
    using Cons.prems by (auto simp: filter_empty_conv) (metis image_eqI)
  with Cons show ?case by (auto simp: Register_def split: list.split)
qed simp

lemma preimage_same_adapter:
  assumes "l1 \<in> set adapters" and "l2 \<in> set adapters"
    and "ad_canonicalize l1 tc1 = Inr b" and "ad_canonicalize l2 tc2 = Inr b"
  shows "l1 = l2"
proof -
  obtain f1 f2 where "ledger_adapter l1 f1" "ledger_adapter l2 f2"
    using adapters_laws assms(1,2) by blast
  then obtain r1 r2 where "encode_fields ((''chain'', ad_name l1) # r1) = Inr b"
    "encode_fields ((''chain'', ad_name l2) # r2) = Inr b"
    using ledger_adapter.preimage_tag assms(3,4) by blast
  from encode_fields_inj[OF this] have "ad_name l1 = ad_name l2" by simp
  with same_adapter assms(1,2) show ?thesis by blast
qed

lemma adapter_preimage_binds:
  assumes "l \<in> set adapters" and "ad_canonicalize l tc1 = Inr b" and "ad_canonicalize l tc2 = Inr b"
  shows "tc_Originator tc1 = tc_Originator tc2 \<and> tc_Beneficiary tc1 = tc_Beneficiary tc2 \<and>
    tc_Amount tc1 = tc_Amount tc2 \<and> tc_Currency tc1 = tc_Currency tc2 \<and>
    tc_Timestamp tc1 = tc_Timestamp tc2 \<and> map_of (tc_Extra tc1) = map_of (tc_Extra tc2)"
  using adapters_laws assms(1) ledger_adapter.preimage_binds[OF _ assms(2,3)] by blast

lemma ContextHash_ok:
  "ContextHash sha256 l tc = Inr (d, h) \<longleftrightarrow>
     (\<exists>b. ad_validate l tc = Inr () \<and> ad_canonicalize l tc = Inr b \<and> d = sha256 b \<and> h = hex_encode d)"
  by (auto simp: ContextHash_def split: sum.splits)

text \<open>C28: two successful \<open>ContextHash\<close> calls that print the same hex digest were made through the
  same chain adapter and for the same transaction: same parties, amount text, currency, timestamp
  and extra fields. The hash function is a parameter that has to be collision free on the two
  preimages only.\<close>

theorem context_hash_binds_transaction:
  assumes "l1 \<in> set adapters" and "l2 \<in> set adapters"
    and "ContextHash sha256 l1 tc1 = Inr (d1, h)" and "ContextHash sha256 l2 tc2 = Inr (d2, h)"
    and "inj_on sha256 {b. ad_canonicalize l1 tc1 = Inr b \<or> ad_canonicalize l2 tc2 = Inr b}"
  shows "l1 = l2 \<and> tc_Originator tc1 = tc_Originator tc2 \<and> tc_Beneficiary tc1 = tc_Beneficiary tc2 \<and>
    tc_Amount tc1 = tc_Amount tc2 \<and> tc_Currency tc1 = tc_Currency tc2 \<and>
    tc_Timestamp tc1 = tc_Timestamp tc2 \<and> map_of (tc_Extra tc1) = map_of (tc_Extra tc2)"
proof -
  from assms(3,4) obtain b1 b2 where b: "ad_canonicalize l1 tc1 = Inr b1"
    "ad_canonicalize l2 tc2 = Inr b2" "sha256 b1 = sha256 b2"
    by (auto simp: ContextHash_ok hex_encode_inj)
  with assms(5) have "b1 = b2" by (auto dest: inj_onD)
  with b preimage_same_adapter[OF assms(1,2)] adapter_preimage_binds[OF assms(1)] show ?thesis
    by blast
qed

definition sample_txn :: txnctx where
  "sample_txn = \<lparr>tc_Chain = ''xrpl'', tc_Originator = [],
     tc_Beneficiary = ''rHb9CJAWyB4rj91VRWn96DkukG4bwdty'', tc_Amount = ''25.50'',
     tc_Currency = ''USD'', tc_Timestamp = 1700000000, tc_Extra = [(''DestinationTag'', ''7'')]\<rparr>"

lemmas parse_amount_eval = ParseAmount_def checkAmountGrammar_def fracGrammar_def is_digit_def
  rat_set_string_def scan_sign_def scan_fraction_def scan_exponent_def scale10_def digit_val_def
  rat_exp_limit_def

lemma sample_txn_valid: "ad_validate XRPL sample_txn = Inr ()"
  by (simp add: XRPL_def sample_txn_def validate_transfer_def looksLikeXRPLAddress_def has_prefix_def
      validAmount_def extra_ok_def isUint32_def parse_amount_eval)

lemma sample_txn_canonical: "is_ok (ad_canonicalize XRPL sample_txn)"
  by (simp add: XRPL_def sample_txn_def xrpl_fields_def canonicalEncode_def extra_fields_def
      int_str_def nat_str.simps digit_char_eval reserved_simps US_def RS_def)

lemma sample_txn_hash: "is_ok (ContextHash sha256 XRPL sample_txn)"
  using sample_txn_valid sample_txn_canonical
  by (auto simp: ContextHash_def is_ok_iff)

lemma sample_adapters: "XRPL \<in> set adapters" "Generic \<in> set adapters"
  by (simp_all add: adapters_def)

theorem context_hash_binds_transaction_witness:
  "\<exists>d h. ContextHash (\<lambda>b. b) XRPL sample_txn = Inr (d, h) \<and> XRPL = XRPL \<and>
     map_of (tc_Extra sample_txn) = map_of (tc_Extra sample_txn)"
proof -
  obtain d h where *: "ContextHash (\<lambda>b. b) XRPL sample_txn = Inr (d, h)"
    using sample_txn_hash[of "\<lambda>b. b"] by (auto simp: is_ok_iff)
  have "inj_on (\<lambda>b. b) {b. ad_canonicalize XRPL sample_txn = Inr b \<or> ad_canonicalize XRPL sample_txn = Inr b}"
    by (simp add: inj_on_def)
  from context_hash_binds_transaction[OF sample_adapters(1) sample_adapters(1) * * this] * show ?thesis
    by blast
qed

text \<open>The registry built by the adapters' \<open>init\<close> functions answers exactly for the registered
  chains: \<open>Get\<close> returns the adapter whose name was asked for, and an error for every other name.\<close>

lemma registry_get_iff:
  "Get registry n = Inr l \<longleftrightarrow> l \<in> set adapters \<and> ad_name l = n"
proof -
  have "Get registry n = Inr l \<longleftrightarrow> (\<exists>ls. filter (\<lambda>l. ad_name l = n) adapters = l # ls)"
    unfolding Get_def registry_def
    by (auto simp: map_of_fold_Register[OF distinct_adapter_names] split: list.split)
  also have "\<dots> \<longleftrightarrow> l \<in> set adapters \<and> ad_name l = n"
  proof
    assume "\<exists>ls. filter (\<lambda>l. ad_name l = n) adapters = l # ls"
    then have "l \<in> set (filter (\<lambda>l. ad_name l = n) adapters)" by (metis list.set_intros(1))
    then show "l \<in> set adapters \<and> ad_name l = n" by simp
  next
    assume l: "l \<in> set adapters \<and> ad_name l = n"
    then obtain l' ls where f: "filter (\<lambda>l. ad_name l = n) adapters = l' # ls"
      by (cases "filter (\<lambda>l. ad_name l = n) adapters") (auto simp: filter_empty_conv)
    then have "l' \<in> set (filter (\<lambda>l. ad_name l = n) adapters)" by simp
    with l same_adapter have "l' = l" by auto
    with f show "\<exists>ls. filter (\<lambda>l. ad_name l = n) adapters = l # ls" by simp
  qed
  finally show ?thesis .
qed

lemma sorted_keys_unique:
  assumes "wf_map a" and "wf_map b" and "map_of a = map_of b"
  shows "sort (map fst a) = sort (map fst b)"
proof -
  have "set (map fst a) = set (map fst b)"
    using assms(3) by (metis dom_map_of_conv_image_fst set_map)
  moreover have "distinct (map fst a)" "distinct (map fst b)"
    using assms(1,2) by (simp_all add: wf_map_def)
  ultimately show ?thesis
    by (metis sorted_list_of_set_sort_remdups distinct_remdups_id)
qed

text \<open>the preimage does not depend on the iteration order of the \<open>Extra\<close> map: two maps with the
  same entries, listed in any order, give the same bytes, and the same error when a field holds a
  separator byte.\<close>

theorem canonical_encoding_deterministic:
  assumes "wf_map e1" and "wf_map e2" and "map_of e1 = map_of e2"
  shows "canonicalEncode ordered e1 = canonicalEncode ordered e2"
  using assms sorted_keys_unique[of e1 e2] by (simp add: canonicalEncode_def extra_fields_def)

theorem canonical_encoding_deterministic_witness:
  "canonicalEncode [(''chain'', ''none'')] [(''a'', ''1''), (''b'', ''2'')] =
   canonicalEncode [(''chain'', ''none'')] [(''b'', ''2''), (''a'', ''1'')]"
  by (rule canonical_encoding_deterministic) (auto simp: wf_map_def fun_eq_iff)

end
