(* ===== verification/MerkleTree.thy ===== *)
theory MerkleTree
  imports Prelude
begin

text \<open>
  The tree shape shared by the audit log (src/pkg/audit/merkle.go) and the sub-band commitment
  (src/internal/tbac/subband_commit.go): nodes are paired level by level, an unpaired last node is
  carried up unchanged. The node hash is a parameter. The theory relates the level-by-level loops
  to the recursive tree of RFC 6962, and proves completeness and soundness of membership proofs.

  Soundness asks the node hash to be injective only on the pairs that the two computations
  actually hash, which is what collision resistance gives for a hash function.
\<close>

section \<open>Building and proving\<close>

fun next_level :: "('h \<Rightarrow> 'h \<Rightarrow> 'h) \<Rightarrow> 'h list \<Rightarrow> 'h list" where
  "next_level node (x # y # zs) = node x y # next_level node zs"
| "next_level node xs = xs"

lemma length_next_level: "length (next_level node xs) = (length xs + 1) div 2"
  by (induction node xs rule: next_level.induct) auto

function tree_root :: "('h \<Rightarrow> 'h \<Rightarrow> 'h) \<Rightarrow> 'h list \<Rightarrow> 'h" where
  "tree_root node level = (if length level \<le> 1 then hd level else tree_root node (next_level node level))"
  by pat_completeness auto
termination by (relation "measure (\<lambda>(node, l). length l)") (auto simp: length_next_level)

declare tree_root.simps [simp del]

lemma next_level_Nil [simp]: "next_level node xs = [] \<longleftrightarrow> xs = []"
  by (cases xs; cases "tl xs") auto

lemma next_level_all:
  "(\<And>a b. P (node a b)) \<Longrightarrow> \<forall>x \<in> set xs. P x \<Longrightarrow> \<forall>x \<in> set (next_level node xs). P x"
  by (induction node xs rule: next_level.induct) auto

lemma tree_root_all:
  "(\<And>a b. P (node a b)) \<Longrightarrow> xs \<noteq> [] \<Longrightarrow> \<forall>x \<in> set xs. P x \<Longrightarrow> P (tree_root node xs)"
proof (induction node xs rule: tree_root.induct)
  case (1 node xs)
  show ?case
  proof (cases "length xs \<le> 1")
    case True
    with 1(3,4) show ?thesis by (subst tree_root.simps) simp
  next
    case False
    then have "tree_root node xs = tree_root node (next_level node xs)" by (subst tree_root.simps) simp
    with 1(1)[OF False 1(2)] 1(3) next_level_all[of P node xs, OF 1(2) 1(4)] show ?thesis by simp
  qed
qed

definition sibling :: "nat \<Rightarrow> nat" where
  "sibling pos = (if even pos then pos + 1 else pos - 1)"

function tree_path :: "('h \<Rightarrow> 'h \<Rightarrow> 'h) \<Rightarrow> 'h list \<Rightarrow> nat \<Rightarrow> 'h list" where
  "tree_path node level pos =
     (if length level \<le> 1 then []
      else (if sibling pos < length level then [level ! sibling pos] else []) @
           tree_path node (next_level node level) (pos div 2))"
  by pat_completeness auto
termination by (relation "measure (\<lambda>(node, l, p). length l)") (auto simp: length_next_level)

declare tree_path.simps [simp del]

text \<open>The verifier's walk: the node reached and the unused rest of the path.\<close>

function tree_fold :: "('h \<Rightarrow> 'h \<Rightarrow> 'h) \<Rightarrow> 'h \<Rightarrow> nat \<Rightarrow> nat \<Rightarrow> 'h list \<Rightarrow> ('h \<times> 'h list) option" where
  "tree_fold node h pos len path =
     (if len \<le> 1 then Some (h, path)
      else if sibling pos < len then
        (case path of
           [] \<Rightarrow> None
         | p # ps \<Rightarrow>
             tree_fold node (if even pos then node h p else node p h) (pos div 2) ((len + 1) div 2) ps)
      else tree_fold node h (pos div 2) ((len + 1) div 2) path)"
  by pat_completeness auto
termination by (relation "measure (\<lambda>(node, h, p, l, path). l)") auto

declare tree_fold.simps [simp del]

section \<open>Completeness\<close>

lemma sibling_Suc_Suc [simp]: "sibling (Suc (Suc q)) = Suc (Suc (sibling q))"
  by (auto simp: sibling_def elim!: oddE)

lemma next_level_nth:
  "pos < length xs \<Longrightarrow> next_level node xs ! (pos div 2) =
     (if sibling pos < length xs
      then (if even pos then node (xs ! pos) (xs ! sibling pos) else node (xs ! sibling pos) (xs ! pos))
      else xs ! pos)"
proof (induction node xs arbitrary: pos rule: next_level.induct)
  case (1 node x y zs)
  show ?case
  proof (cases "pos < 2")
    case True
    then show ?thesis by (auto simp: sibling_def less_2_cases_iff)
  next
    case False
    then obtain q where q: "pos = Suc (Suc q)" by (metis add_2_eq_Suc le_Suc_ex not_less)
    from 1 q have "q < length zs" by simp
    from "1.IH"[OF this] show ?thesis by (simp add: q)
  qed
qed (auto simp: sibling_def)

lemma half_less: "(pos :: nat) < len \<Longrightarrow> pos div 2 < (len + 1) div 2"
  by linarith

lemma tree_path_complete:
  "pos < length xs \<Longrightarrow> tree_fold node (xs ! pos) pos (length xs) (tree_path node xs pos @ rest) =
     Some (tree_root node xs, rest)"
proof (induction node xs pos rule: tree_path.induct)
  case (1 node xs pos)
  show ?case
  proof (cases "length xs \<le> 1")
    case True
    with 1(2) obtain x where "xs = [x]" by (cases xs) auto
    with 1(2) show ?thesis by (simp add: tree_fold.simps tree_root.simps tree_path.simps)
  next
    case False
    have lt: "pos div 2 < length (next_level node xs)"
      using half_less[OF 1(2)] by (simp add: length_next_level)
    note IH = 1(1)[OF False lt]
    have path: "tree_path node xs pos =
        (if sibling pos < length xs then [xs ! sibling pos] else []) @
        tree_path node (next_level node xs) (pos div 2)"
      using False by (subst tree_path.simps) simp
    have root: "tree_root node xs = tree_root node (next_level node xs)"
      using False by (subst tree_root.simps) simp
    show ?thesis
      unfolding path root
      using False IH next_level_nth[OF 1(2), of node]
      by (subst tree_fold.simps) (auto simp: length_next_level)
  qed
qed

section \<open>Soundness\<close>

fun level_pairs :: "'h list \<Rightarrow> ('h \<times> 'h) set" where
  "level_pairs (x # y # zs) = insert (x, y) (level_pairs zs)"
| "level_pairs xs = {}"

function tree_pairs :: "('h \<Rightarrow> 'h \<Rightarrow> 'h) \<Rightarrow> 'h list \<Rightarrow> ('h \<times> 'h) set" where
  "tree_pairs node level =
     (if length level \<le> 1 then {} else level_pairs level \<union> tree_pairs node (next_level node level))"
  by pat_completeness auto
termination by (relation "measure (\<lambda>(node, l). length l)") (auto simp: length_next_level)

declare tree_pairs.simps [simp del]

function fold_pairs :: "('h \<Rightarrow> 'h \<Rightarrow> 'h) \<Rightarrow> 'h \<Rightarrow> nat \<Rightarrow> nat \<Rightarrow> 'h list \<Rightarrow> ('h \<times> 'h) set" where
  "fold_pairs node h pos len path =
     (if len \<le> 1 then {}
      else if sibling pos < len then
        (case path of
           [] \<Rightarrow> {}
         | p # ps \<Rightarrow>
             insert (if even pos then (h, p) else (p, h))
               (fold_pairs node (if even pos then node h p else node p h) (pos div 2) ((len + 1) div 2) ps))
      else fold_pairs node h (pos div 2) ((len + 1) div 2) path)"
  by pat_completeness auto
termination by (relation "measure (\<lambda>(node, h, p, l, path). l)") auto

declare fold_pairs.simps [simp del]

definition collision_free :: "('h \<Rightarrow> 'h \<Rightarrow> 'h) \<Rightarrow> ('h \<times> 'h) set \<Rightarrow> bool" where
  "collision_free node S = inj_on (\<lambda>(a, b). node a b) S"

lemma collision_freeD:
  "collision_free node S \<Longrightarrow> node a b = node c d \<Longrightarrow> (a, b) \<in> S \<Longrightarrow> (c, d) \<in> S \<Longrightarrow> a = c \<and> b = d"
  using inj_onD[of "\<lambda>(a, b). node a b" S "(a, b)" "(c, d)"] by (simp add: collision_free_def)

lemma collision_free_subset: "collision_free node T \<Longrightarrow> S \<subseteq> T \<Longrightarrow> collision_free node S"
  by (auto simp: collision_free_def intro: inj_on_subset)

lemma level_pairs_nth:
  "pos < length xs \<Longrightarrow> sibling pos < length xs \<Longrightarrow>
    (if even pos then (xs ! pos, xs ! sibling pos) else (xs ! sibling pos, xs ! pos)) \<in> level_pairs xs"
proof (induction xs arbitrary: pos rule: level_pairs.induct)
  case (1 x y zs)
  show ?case
  proof (cases "pos < 2")
    case True
    then show ?thesis by (auto simp: sibling_def less_2_cases_iff)
  next
    case False
    then obtain q where q: "pos = Suc (Suc q)" by (metis add_2_eq_Suc le_Suc_ex not_less)
    show ?thesis using "1.IH"[of q] "1.prems" by (auto simp: q)
  qed
qed (auto simp: sibling_def)

lemma tree_fold_sound:
  "pos < length xs \<Longrightarrow> tree_fold node h pos (length xs) path = Some (tree_root node xs, rest) \<Longrightarrow>
   collision_free node (tree_pairs node xs \<union> fold_pairs node h pos (length xs) path) \<Longrightarrow>
   h = xs ! pos \<and> path = tree_path node xs pos @ rest"
proof (induction node xs pos arbitrary: h path rule: tree_path.induct)
  case (1 node xs pos)
  show ?case
  proof (cases "length xs \<le> 1")
    case True
    with 1(2) obtain x where "xs = [x]" by (cases xs) auto
    with 1 show ?thesis by (simp add: tree_fold.simps tree_root.simps tree_path.simps)
  next
    case False
    let ?ys = "next_level node xs"
    have lt: "pos div 2 < length ?ys" using half_less[OF 1(2)] by (simp add: length_next_level)
    have ylen: "length ?ys = (length xs + 1) div 2" by (rule length_next_level)
    have root: "tree_root node xs = tree_root node ?ys"
      using False by (subst tree_root.simps) simp
    have pairs: "tree_pairs node xs = level_pairs xs \<union> tree_pairs node ?ys"
      using False by (subst tree_pairs.simps) simp
    have path_eq: "tree_path node xs pos =
        (if sibling pos < length xs then [xs ! sibling pos] else []) @ tree_path node ?ys (pos div 2)"
      using False by (subst tree_path.simps) simp
    show ?thesis
    proof (cases "sibling pos < length xs")
      case True
      with 1(3) False obtain p ps where path: "path = p # ps"
        by (subst (asm) tree_fold.simps) (auto split: list.splits)
      define h' where "h' = (if even pos then node h p else node p h)"
      have f: "tree_fold node h' (pos div 2) (length ?ys) ps = Some (tree_root node ?ys, rest)"
        using 1(3) False True path by (subst (asm) tree_fold.simps) (simp add: h'_def ylen root)
      have fp: "fold_pairs node h pos (length xs) path =
          insert (if even pos then (h, p) else (p, h)) (fold_pairs node h' (pos div 2) (length ?ys) ps)"
        using False True path by (subst fold_pairs.simps) (simp add: h'_def ylen)
      have "h' = ?ys ! (pos div 2) \<and> ps = tree_path node ?ys (pos div 2) @ rest"
        by (rule 1(1)[OF False lt f])
           (rule collision_free_subset[OF 1(4)], auto simp: pairs fp)
      then have h': "h' = ?ys ! (pos div 2)" and ps: "ps = tree_path node ?ys (pos div 2) @ rest"
        by simp_all
      have "h = xs ! pos \<and> p = xs ! sibling pos"
      proof (cases "even pos")
        case True
        with h' next_level_nth[OF 1(2), of node] \<open>sibling pos < length xs\<close>
        have "node h p = node (xs ! pos) (xs ! sibling pos)" by (simp add: h'_def)
        from collision_freeD[OF 1(4) this] level_pairs_nth[OF 1(2) \<open>sibling pos < length xs\<close>] True
        show ?thesis by (simp add: fp pairs)
      next
        case False
        with h' next_level_nth[OF 1(2), of node] \<open>sibling pos < length xs\<close>
        have "node p h = node (xs ! sibling pos) (xs ! pos)" by (simp add: h'_def)
        from collision_freeD[OF 1(4) this] level_pairs_nth[OF 1(2) \<open>sibling pos < length xs\<close>] False
        show ?thesis by (simp add: fp pairs)
      qed
      with ps True path path_eq show ?thesis by simp
    next
      case noSib: False
      have f: "tree_fold node h (pos div 2) (length ?ys) path = Some (tree_root node ?ys, rest)"
        using 1(3) False noSib by (subst (asm) tree_fold.simps) (simp add: ylen root)
      have fp: "fold_pairs node h pos (length xs) path = fold_pairs node h (pos div 2) (length ?ys) path"
        using False noSib by (subst fold_pairs.simps) (simp add: ylen)
      have "h = ?ys ! (pos div 2) \<and> path = tree_path node ?ys (pos div 2) @ rest"
        by (rule 1(1)[OF False lt f]) (rule collision_free_subset[OF 1(4)], auto simp: pairs fp)
      with next_level_nth[OF 1(2), of node] noSib path_eq show ?thesis by simp
    qed
  qed
qed

lemma level_pairs_binding:
  assumes "length xs = length ys" and "next_level node xs = next_level node ys"
    and "collision_free node (level_pairs xs \<union> level_pairs ys)"
  shows "xs = ys"
  using assms
proof (induction xs arbitrary: ys rule: level_pairs.induct)
  case (1 x y zs)
  then obtain x' y' zs' where ys: "ys = x' # y' # zs'"
    by (cases ys; cases "tl ys") auto
  with 1(3) have "node x y = node x' y'" by simp
  from collision_freeD[OF 1(4) this] ys have xy: "x = x' \<and> y = y'" by simp
  have "collision_free node (level_pairs zs \<union> level_pairs zs')"
    by (rule collision_free_subset[OF 1(4)]) (auto simp: ys)
  with "1.IH"[of zs'] 1(2,3) ys have "zs = zs'" by simp
  with xy ys show ?case by simp
next
  case "2_2"
  then show ?case by (cases ys; cases "tl ys") auto
qed simp

lemma tree_root_binding:
  "length xs = length ys \<Longrightarrow> xs \<noteq> [] \<Longrightarrow> tree_root node xs = tree_root node ys \<Longrightarrow>
   collision_free node (tree_pairs node xs \<union> tree_pairs node ys) \<Longrightarrow> xs = ys"
proof (induction node xs arbitrary: ys rule: tree_root.induct)
  case (1 node xs)
  show ?case
  proof (cases "length xs \<le> 1")
    case True
    with 1(2,3) obtain x y where "xs = [x]" "ys = [y]" by (cases xs; cases ys) auto
    with 1(4) show ?thesis by (simp add: tree_root.simps)
  next
    case False
    have root: "tree_root node zs = tree_root node (next_level node zs)" if "length zs = length xs" for zs
      using False that by (subst tree_root.simps) simp
    have pairs: "tree_pairs node zs = level_pairs zs \<union> tree_pairs node (next_level node zs)"
      if "length zs = length xs" for zs
      using False that by (subst tree_pairs.simps) simp
    note p = pairs[OF refl] pairs[OF 1(2)[symmetric]]
    have "next_level node xs \<noteq> []" using False by (cases xs; cases "tl xs") auto
    then have "next_level node xs = next_level node ys"
      using 1(1)[OF False, of "next_level node ys"] 1(2,4) root[OF refl] root[OF 1(2)[symmetric]]
        collision_free_subset[OF 1(5), of "tree_pairs node (next_level node xs) \<union> tree_pairs node (next_level node ys)"]
      by (auto simp: length_next_level p)
    moreover have "collision_free node (level_pairs xs \<union> level_pairs ys)"
      by (rule collision_free_subset[OF 1(5)]) (auto simp: p)
    ultimately show ?thesis using level_pairs_binding 1(2) by blast
  qed
qed

section \<open>The tree of RFC 6962\<close>

text \<open>The largest power of two strictly below \<open>n\<close>, for \<open>n \<ge> 2\<close>.\<close>

function split_point :: "nat \<Rightarrow> nat" where
  "split_point n = (if n \<le> 2 then 1 else 2 * split_point ((n + 1) div 2))"
  by pat_completeness auto
termination by (relation "measure id") auto

declare split_point.simps [simp del]

lemma split_point_bounds:
  "2 \<le> n \<Longrightarrow> split_point n < n \<and> n \<le> 2 * split_point n \<and> (\<exists>j. split_point n = 2 ^ j)"
proof (induction n rule: split_point.induct)
  case (1 n)
  show ?case
  proof (cases "n \<le> 2")
    case True
    with 1(2) show ?thesis by (auto simp: split_point.simps intro: exI[of _ 0])
  next
    case False
    then have "2 \<le> (n + 1) div 2" by linarith
    with 1(1)[OF False] obtain j where "split_point ((n + 1) div 2) < (n + 1) div 2"
      "(n + 1) div 2 \<le> 2 * split_point ((n + 1) div 2)" "split_point ((n + 1) div 2) = 2 ^ j" by auto
    moreover from False have "split_point n = 2 * split_point ((n + 1) div 2)"
      by (subst split_point.simps) simp
    ultimately show ?thesis by (auto intro: exI[of _ "Suc j"])
  qed
qed

lemma split_point_pos: "0 < split_point n"
  by (induction n rule: split_point.induct) (subst split_point.simps, auto)

function mth :: "('h \<Rightarrow> 'h \<Rightarrow> 'h) \<Rightarrow> 'h list \<Rightarrow> 'h" where
  "mth node xs =
     (if length xs \<le> 1 then hd xs
      else node (mth node (take (split_point (length xs)) xs)) (mth node (drop (split_point (length xs)) xs)))"
  by pat_completeness auto
termination
  by (relation "measure (\<lambda>(node, l). length l)")
     (use split_point_bounds split_point_pos in
        \<open>auto simp: not_le Suc_le_eq numeral_2_eq_2 intro!: diff_less\<close>)

declare mth.simps [simp del]

lemma next_level_append:
  "even (length xs) \<Longrightarrow> next_level node (xs @ ys) = next_level node xs @ next_level node ys"
  by (induction node xs rule: next_level.induct) auto

lemma mth_next_level: "2 \<le> length xs \<Longrightarrow> mth node (next_level node xs) = mth node xs"
proof (induction xs rule: measure_induct_rule[where f = length])
  case (less xs)
  show ?case
  proof (cases "length xs = 2")
    case True
    then obtain x y where "xs = [x, y]" by (auto simp: length_Suc_conv numeral_2_eq_2)
    then show ?thesis by (simp add: mth.simps split_point.simps)
  next
    case False
    let ?n = "length xs"
    define k where "k = split_point ((?n + 1) div 2)"
    have n: "2 < ?n" using less.prems False by simp
    then have sp: "split_point ?n = 2 * k" by (subst split_point.simps) (simp add: k_def)
    have kb: "2 * k < ?n" "?n \<le> 4 * k" "k < (?n + 1) div 2" "0 < k"
      using split_point_bounds[of ?n] split_point_bounds[of "(?n + 1) div 2"] split_point_pos n sp
      by (auto simp: k_def)
    have IH: "mth node (next_level node ys) = mth node ys" if "length ys < ?n" for ys
    proof (cases "2 \<le> length ys")
      case False
      then show ?thesis by (cases ys; cases "tl ys") auto
    qed (use less.IH that in blast)
    have halves: "next_level node xs =
        next_level node (take (2 * k) xs) @ next_level node (drop (2 * k) xs)"
      using next_level_append[of "take (2 * k) xs" node "drop (2 * k) xs"] kb by simp
    have len: "length (next_level node (take (2 * k) xs)) = k" using kb by (simp add: length_next_level)
    have "mth node (next_level node xs) =
        node (mth node (next_level node (take (2 * k) xs))) (mth node (next_level node (drop (2 * k) xs)))"
    proof -
      have "split_point (length (next_level node xs)) = k" "\<not> length (next_level node xs) \<le> 1"
        using n by (simp_all add: length_next_level k_def)
      moreover have "take k (next_level node xs) = next_level node (take (2 * k) xs)"
        "drop k (next_level node xs) = next_level node (drop (2 * k) xs)"
        by (subst halves, simp add: len)+
      ultimately show ?thesis by (subst mth.simps) simp
    qed
    also have "\<dots> = node (mth node (take (2 * k) xs)) (mth node (drop (2 * k) xs))"
      using IH[of "take (2 * k) xs"] IH[of "drop (2 * k) xs"] kb by simp
    also have "\<dots> = mth node xs" using n by (subst (2) mth.simps) (simp add: sp)
    finally show ?thesis .
  qed
qed

lemma tree_root_is_mth: "tree_root node xs = mth node xs"
proof (induction node xs rule: tree_root.induct)
  case (1 node xs)
  then show ?case
    using mth_next_level[of xs node] by (subst tree_root.simps) (auto simp: mth.simps[of node xs])
qed

section \<open>Membership proofs as an interface\<close>

text \<open>
  What a client of a committed list relies on: a proof for every position, and, for the inputs on
  which the hash does not collide, that only the committed element verifies at its position.
\<close>

locale list_commitment =
  fixes commit :: "'a list \<Rightarrow> 'r"
    and prove :: "'a list \<Rightarrow> nat \<Rightarrow> 'p"
    and verify :: "'a \<Rightarrow> nat \<Rightarrow> nat \<Rightarrow> 'p \<Rightarrow> 'r \<Rightarrow> bool"
    and sizes :: "nat \<Rightarrow> bool"
    and safe :: "'a list \<Rightarrow> 'a \<Rightarrow> nat \<Rightarrow> 'p \<Rightarrow> bool"
  assumes complete: "sizes (length xs) \<Longrightarrow> i < length xs \<Longrightarrow>
      verify (xs ! i) i (length xs) (prove xs i) (commit xs)"
    and sound: "sizes (length xs) \<Longrightarrow> verify x i (length xs) p (commit xs) \<Longrightarrow> safe xs x i p \<Longrightarrow>
      i < length xs \<and> x = xs ! i"
begin

lemma only_members_verify:
  assumes "sizes (length xs)" and "verify x i (length xs) p (commit xs)" and "safe xs x i p"
  shows "x \<in> set xs"
  using sound[OF assms] by auto

lemma one_element_per_position:
  assumes "sizes (length xs)" and "verify x i (length xs) p (commit xs)" and "safe xs x i p"
    and "verify y i (length xs) q (commit xs)" and "safe xs y i q"
  shows "x = y"
  using sound[OF assms(1-3)] sound[OF assms(1,4,5)] by simp

end

end
