(* ===== verification/AuditLog.thy ===== *)
theory AuditLog
  imports Ledger MerkleTree "HOL-Library.Multiset" "HOL-Library.Sublist"
begin

text \<open>
  The append-only audit log (src/pkg/audit): hash-chained entries, their JSONL file, Merkle roots,
  inclusion proofs, signed roots and witness co-signing.

  SHA-256, Ed25519 and the JSON codec are parameters. The file is the byte string written so far.
  An append takes the outcome of the file operations as an argument, because the code reports a
  failed write or sync after bytes may have reached the file.
\<close>

section \<open>Entries\<close>

record entry =
  en_Seq :: nat
  en_Time :: int
  en_Type :: string
  en_Subject :: string
  en_Detail :: "string gomap"
  en_PrevHash :: bytes
  en_Hash :: bytes

definition NL :: char where "NL = CHR 0x0A"

definition genesis_text :: bytes where
  "genesis_text = ''spt-txn-audit-genesis-v1''"

definition genesis :: "(bytes \<Rightarrow> bytes) \<Rightarrow> bytes" where
  "genesis sha256 = sha256 genesis_text"

definition detail_lines :: "string gomap \<Rightarrow> bytes list" where
  "detail_lines d =
     map (\<lambda>k. k @ CHR ''='' # (case map_of d k of None \<Rightarrow> [] | Some v \<Rightarrow> v)) (sort (map fst d))"

definition entry_lines :: "entry \<Rightarrow> bytes list" where
  "entry_lines e =
     [nat_str (en_Seq e), int_str (en_Time e), en_Type e, en_Subject e] @ detail_lines (en_Detail e)"

definition entry_preimage :: "entry \<Rightarrow> bytes" where
  "entry_preimage e = concat (map (\<lambda>l. l @ [NL]) (entry_lines e)) @ en_PrevHash e"

definition computeHash :: "(bytes \<Rightarrow> bytes) \<Rightarrow> entry \<Rightarrow> bytes" where
  "computeHash sha256 e = sha256 (entry_preimage e)"

section \<open>Records and the file\<close>

record jrecord =
  jr_Seq :: nat
  jr_Time :: int
  jr_Type :: string
  jr_Subject :: string
  jr_Detail :: "string gomap"
  jr_PrevHash :: string
  jr_Hash :: string

datatype audit_err =
    AuditParse nat
  | AuditBadHex
  | AuditOutOfSequence nat nat
  | AuditChainBroken nat
  | AuditTampered nat
  | AuditLineTooLong
  | ErrPIIInAuditDetail string
  | AuditIO

definition toRecord :: "entry \<Rightarrow> jrecord" where
  "toRecord e = \<lparr>jr_Seq = en_Seq e, jr_Time = en_Time e, jr_Type = en_Type e, jr_Subject = en_Subject e,
     jr_Detail = en_Detail e, jr_PrevHash = hex_encode (en_PrevHash e), jr_Hash = hex_encode (en_Hash e)\<rparr>"

definition toEntry :: "jrecord \<Rightarrow> audit_err + entry" where
  "toEntry r = (case hex_decode (jr_PrevHash r) of
      None \<Rightarrow> Inl AuditBadHex
    | Some ph \<Rightarrow> (case hex_decode (jr_Hash r) of
        None \<Rightarrow> Inl AuditBadHex
      | Some hh \<Rightarrow> Inr \<lparr>en_Seq = jr_Seq r, en_Time = jr_Time r, en_Type = jr_Type r,
          en_Subject = jr_Subject r, en_Detail = jr_Detail r, en_PrevHash = ph, en_Hash = hh\<rparr>))"

text \<open>\<open>bufio.ScanLines\<close>: lines end at a newline, a trailing carriage return is dropped, an empty
  final fragment is not a line. A line must fit the 4 MiB buffer together with its newline.\<close>

definition drop_cr :: "bytes \<Rightarrow> bytes" where
  "drop_cr l = (if l \<noteq> [] \<and> last l = CHR 0x0D then butlast l else l)"

function scan_lines :: "bytes \<Rightarrow> bytes list" where
  "scan_lines s =
     (if s = [] then []
      else takeWhile (\<lambda>c. c \<noteq> NL) s # scan_lines (tl (dropWhile (\<lambda>c. c \<noteq> NL) s)))"
  by pat_completeness auto
termination
proof (relation "measure length", goal_cases)
  case (2 s)
  then have "length (dropWhile (\<lambda>c. c \<noteq> NL) s) \<le> length s" by (simp add: length_dropWhile_le)
  moreover have "0 < length s" using 2 by simp
  ultimately show ?case by (simp only: in_measure length_tl)
qed simp

declare scan_lines.simps [simp del]

definition max_line :: nat where
  "max_line = 4 * 1024 * 1024"

fun load_lines ::
  "(bytes \<Rightarrow> bytes) \<Rightarrow> (bytes \<Rightarrow> jrecord option) \<Rightarrow> bytes \<Rightarrow> nat \<Rightarrow> bytes list \<Rightarrow> audit_err + entry list" where
  "load_lines sha256 unmarshal prev seq [] = Inr []"
| "load_lines sha256 unmarshal prev seq (l # ls) =
     (if length l \<ge> max_line then Inl AuditLineTooLong
      else if drop_cr l = [] then load_lines sha256 unmarshal prev seq ls
      else case unmarshal (drop_cr l) of
          None \<Rightarrow> Inl (AuditParse seq)
        | Some r \<Rightarrow> (case toEntry r of
            Inl e \<Rightarrow> Inl e
          | Inr e \<Rightarrow>
              if en_Seq e \<noteq> seq then Inl (AuditOutOfSequence (en_Seq e) seq)
              else if en_PrevHash e \<noteq> prev then Inl (AuditChainBroken seq)
              else if en_Hash e \<noteq> computeHash sha256 e then Inl (AuditTampered seq)
              else case load_lines sha256 unmarshal (en_Hash e) (Suc seq) ls of
                  Inl x \<Rightarrow> Inl x
                | Inr es \<Rightarrow> Inr (e # es)))"

record auditlog =
  lg_entries :: "entry list"
  lg_lastHash :: bytes
  lg_nextSeq :: nat
  lg_file :: bytes

definition last_hash :: "bytes \<Rightarrow> entry list \<Rightarrow> bytes" where
  "last_hash g es = (if es = [] then g else en_Hash (last es))"

definition Open :: "(bytes \<Rightarrow> bytes) \<Rightarrow> (bytes \<Rightarrow> jrecord option) \<Rightarrow> bytes \<Rightarrow> audit_err + auditlog" where
  "Open sha256 unmarshal file =
     (case load_lines sha256 unmarshal (genesis sha256) 1 (scan_lines file) of
        Inl e \<Rightarrow> Inl e
      | Inr es \<Rightarrow> Inr \<lparr>lg_entries = es, lg_lastHash = last_hash (genesis sha256) es,
          lg_nextSeq = Suc (length es), lg_file = file\<rparr>)"

section \<open>Appending\<close>

definition sensitiveDetailKeys :: "string list" where
  "sensitiveDetailKeys = [''amount'', ''name'', ''account'', ''pan'', ''iban'', ''dob'']"

text \<open>\<open>strings.ToLower\<close> as far as it can produce ASCII text: the ASCII letters, and the two other
  code points whose lower case is an ASCII letter (U+0130 and U+212A).\<close>

fun go_lower :: "string \<Rightarrow> string" where
  "go_lower [] = []"
| "go_lower (c # cs) =
     (if c = CHR 0xC4 \<and> take 1 cs = [CHR 0xB0] then CHR ''i'' # go_lower (drop 1 cs)
      else if c = CHR 0xE2 \<and> take 2 cs = [CHR 0x84, CHR 0xAA] then CHR ''k'' # go_lower (drop 2 cs)
      else lower_char c # go_lower cs)"

definition checkNoPII :: "string gomap \<Rightarrow> audit_err + unit" where
  "checkNoPII detail = first_err (\<lambda>(k, v).
     if go_lower k \<in> set sensitiveDetailKeys then Inl (ErrPIIInAuditDetail k) else Inr ()) detail"

datatype io_result = IoOk | WriteFails nat | SyncFails

definition new_entry :: "(bytes \<Rightarrow> bytes) \<Rightarrow> int \<Rightarrow> auditlog \<Rightarrow> string \<Rightarrow> string \<Rightarrow> string gomap \<Rightarrow> entry" where
  "new_entry sha256 now l eventType subject detail =
     (let e = \<lparr>en_Seq = lg_nextSeq l, en_Time = now, en_Type = eventType, en_Subject = subject,
         en_Detail = detail, en_PrevHash = lg_lastHash l, en_Hash = []\<rparr>
      in e\<lparr>en_Hash := computeHash sha256 e\<rparr>)"

definition Append ::
  "(bytes \<Rightarrow> bytes) \<Rightarrow> (jrecord \<Rightarrow> bytes) \<Rightarrow> int \<Rightarrow> io_result \<Rightarrow> auditlog \<Rightarrow> string \<Rightarrow> string \<Rightarrow> string gomap \<Rightarrow>
     (audit_err + entry) \<times> auditlog" where
  "Append sha256 marshal now io l eventType subject detail =
     (case checkNoPII detail of
        Inl e \<Rightarrow> (Inl e, l)
      | Inr _ \<Rightarrow>
          (let e = new_entry sha256 now l eventType subject detail;
               line = marshal (toRecord e) @ [NL]
           in case io of
                WriteFails n \<Rightarrow> (Inl AuditIO, l\<lparr>lg_file := lg_file l @ take n line\<rparr>)
              | SyncFails \<Rightarrow> (Inl AuditIO, l\<lparr>lg_file := lg_file l @ line\<rparr>)
              | IoOk \<Rightarrow> (Inr e, l\<lparr>lg_entries := lg_entries l @ [e], lg_lastHash := en_Hash e,
                            lg_nextSeq := Suc (lg_nextSeq l), lg_file := lg_file l @ line\<rparr>)))"

definition Entries :: "auditlog \<Rightarrow> entry list" where
  "Entries l = lg_entries l"

fun verify_entries :: "(bytes \<Rightarrow> bytes) \<Rightarrow> bytes \<Rightarrow> nat \<Rightarrow> entry list \<Rightarrow> audit_err + unit" where
  "verify_entries sha256 prev i [] = Inr ()"
| "verify_entries sha256 prev i (e # es) =
     (if en_PrevHash e \<noteq> prev then Inl (AuditChainBroken (Suc i))
      else if en_Hash e \<noteq> computeHash sha256 e then Inl (AuditTampered (Suc i))
      else verify_entries sha256 (en_Hash e) (Suc i) es)"

definition Verify :: "(bytes \<Rightarrow> bytes) \<Rightarrow> auditlog \<Rightarrow> audit_err + unit" where
  "Verify sha256 l = verify_entries sha256 (genesis sha256) 0 (lg_entries l)"

section \<open>Merkle roots and inclusion proofs\<close>

definition hashLeaf :: "(bytes \<Rightarrow> bytes) \<Rightarrow> bytes \<Rightarrow> bytes" where
  "hashLeaf sha256 h = sha256 (CHR 0x00 # h)"

definition hashInterior :: "(bytes \<Rightarrow> bytes) \<Rightarrow> bytes \<Rightarrow> bytes \<Rightarrow> bytes" where
  "hashInterior sha256 a b = sha256 (CHR 0x01 # a @ b)"

text \<open>The nil root of an empty log is the empty byte string.\<close>

definition MerkleRoot :: "(bytes \<Rightarrow> bytes) \<Rightarrow> entry list \<Rightarrow> bytes" where
  "MerkleRoot sha256 entries =
     (if entries = [] then []
      else tree_root (hashInterior sha256) (map (\<lambda>e. hashLeaf sha256 (en_Hash e)) entries))"

text \<open>One pass of \<open>MerkleProof\<close> over a layer: the next layer, and the sibling of the node at \<open>idx\<close>.\<close>

fun proof_layer :: "(bytes \<Rightarrow> bytes) \<Rightarrow> nat \<Rightarrow> nat \<Rightarrow> bytes list \<Rightarrow> bytes list \<times> bytes list" where
  "proof_layer sha256 i idx (x # y # zs) =
     (case proof_layer sha256 (i + 2) idx zs of
        (ns, ps) \<Rightarrow> (hashInterior sha256 x y # ns,
                      (if i = idx then [y] else if i + 1 = idx then [x] else []) @ ps))"
| "proof_layer sha256 i idx xs = (xs, [])"

lemma proof_layer_next: "fst (proof_layer sha256 i idx xs) = next_level (hashInterior sha256) xs"
  by (induction sha256 i idx xs rule: proof_layer.induct) (auto split: prod.split)

function proof_loop :: "(bytes \<Rightarrow> bytes) \<Rightarrow> bytes list \<Rightarrow> nat \<Rightarrow> bytes list \<Rightarrow> bytes list" where
  "proof_loop sha256 layer idx path =
     (if length layer > 1 then
        proof_loop sha256 (fst (proof_layer sha256 0 idx layer)) (idx div 2)
          (path @ snd (proof_layer sha256 0 idx layer))
      else path)"
  by pat_completeness auto
termination
  by (relation "measure (\<lambda>(h, l, i, p). length l)") (auto simp: proof_layer_next length_next_level)

declare proof_loop.simps [simp del]

definition MerkleProof :: "(bytes \<Rightarrow> bytes) \<Rightarrow> entry list \<Rightarrow> int \<Rightarrow> bytes list option" where
  "MerkleProof sha256 entries index =
     (if index < 0 \<or> index \<ge> int (length entries) then None
      else Some (proof_loop sha256 (map (\<lambda>e. hashLeaf sha256 (en_Hash e)) entries) (nat index) []))"

text \<open>\<open>(layerLen + 1) / 2\<close> on a 64-bit \<open>int\<close>; the sum wraps for the largest value.\<close>

definition half_up64 :: "int \<Rightarrow> int" where
  "half_up64 n = (if n = 2 ^ 63 - 1 then - (2 ^ 62) else (n + 1) div 2)"

function inclusion_loop ::
  "(bytes \<Rightarrow> bytes) \<Rightarrow> bytes \<Rightarrow> int \<Rightarrow> int \<Rightarrow> bytes list \<Rightarrow> (bytes \<times> bytes list) option" where
  "inclusion_loop sha256 h idx layerLen path =
     (if layerLen > 1 then
        if \<not> (idx = layerLen - 1 \<and> layerLen mod 2 = 1) then
          (case path of
             [] \<Rightarrow> None
           | sib # ps \<Rightarrow>
               inclusion_loop sha256
                 (if idx mod 2 = 0 then hashInterior sha256 h sib else hashInterior sha256 sib h)
                 (idx div 2) (half_up64 layerLen) ps)
        else inclusion_loop sha256 h (idx div 2) (half_up64 layerLen) path
      else Some (h, path))"
  by pat_completeness auto
termination
  by (relation "measure (\<lambda>(s, h, i, l, p). nat l)") (auto simp: half_up64_def)

declare inclusion_loop.simps [simp del]

definition VerifyInclusion :: "(bytes \<Rightarrow> bytes) \<Rightarrow> bytes \<Rightarrow> int \<Rightarrow> int \<Rightarrow> bytes list \<Rightarrow> bytes \<Rightarrow> bool" where
  "VerifyInclusion sha256 entryHash index cnt path rt =
     (if index < 0 \<or> index \<ge> cnt \<or> cnt = 0 then False
      else case inclusion_loop sha256 (hashLeaf sha256 entryHash) index cnt path of
          None \<Rightarrow> False
        | Some (h, rest) \<Rightarrow> rest = [] \<and> h = rt)"

section \<open>Signed roots and witnesses\<close>

record signedroot =
  sr_Root :: bytes
  sr_Count :: int
  sr_Time :: int
  sr_Sig :: bytes

definition u64 :: "int \<Rightarrow> bytes" where
  "u64 v = be_bytes 8 (nat (v mod 2 ^ 64))"

definition signingBytes :: "signedroot \<Rightarrow> bytes" where
  "signingBytes sr = sr_Root sr @ u64 (sr_Count sr) @ u64 (sr_Time sr)"

definition PublishRoot ::
  "(bytes \<Rightarrow> bytes) \<Rightarrow> ('k \<Rightarrow> bytes \<Rightarrow> bytes) \<Rightarrow> int \<Rightarrow> entry list \<Rightarrow> 'k \<Rightarrow> signedroot" where
  "PublishRoot sha256 sign now entries auditKey =
     (let sr = \<lparr>sr_Root = MerkleRoot sha256 entries, sr_Count = int (length entries), sr_Time = now, sr_Sig = []\<rparr>
      in sr\<lparr>sr_Sig := sign auditKey (signingBytes sr)\<rparr>)"

definition VerifyRoot :: "(bytes \<Rightarrow> bytes \<Rightarrow> bytes \<Rightarrow> bool) \<Rightarrow> signedroot \<Rightarrow> bytes \<Rightarrow> bool" where
  "VerifyRoot edverify sr auditPub = edverify auditPub (signingBytes sr) (sr_Sig sr)"

definition witnessTag :: bytes where
  "witnessTag = ''spt-txn-witness-cosign-v1''"

definition witnessPreimage :: "bytes \<Rightarrow> signedroot \<Rightarrow> bytes" where
  "witnessPreimage operatorPub sr = witnessTag @ CHR 0x00 # operatorPub @ CHR 0x00 # signingBytes sr"

datatype witness_err =
    WitnessIDRequired | BadWitnessKey
  | ErrOperatorSig | ErrRootMismatch | ErrNotAppendOnly | ErrThreshold nat int

record 'k witness =
  wt_id :: string
  wt_key :: 'k
  wt_lastCount :: int
  wt_lastRoot :: bytes

record witnesssig =
  ws_WitnessID :: string
  ws_Sig :: bytes

definition NewWitness :: "('k \<Rightarrow> nat) \<Rightarrow> string \<Rightarrow> 'k \<Rightarrow> witness_err + 'k witness" where
  "NewWitness keysize wid key =
     (if wid = [] then Inl WitnessIDRequired
      else if keysize key \<noteq> 64 then Inl BadWitnessKey
      else Inr \<lparr>wt_id = wid, wt_key = key, wt_lastCount = 0, wt_lastRoot = []\<rparr>)"

definition Cosign ::
  "(bytes \<Rightarrow> bytes) \<Rightarrow> ('k \<Rightarrow> bytes \<Rightarrow> bytes) \<Rightarrow> (bytes \<Rightarrow> bytes \<Rightarrow> bytes \<Rightarrow> bool) \<Rightarrow>
     'k witness \<Rightarrow> signedroot \<Rightarrow> bytes \<Rightarrow> entry list \<Rightarrow> (witness_err + witnesssig) \<times> 'k witness" where
  "Cosign sha256 sign edverify w sr operatorPub entries =
     (if \<not> VerifyRoot edverify sr operatorPub then (Inl ErrOperatorSig, w)
      else if int (length entries) \<noteq> sr_Count sr \<or> MerkleRoot sha256 entries \<noteq> sr_Root sr
        then (Inl ErrRootMismatch, w)
      else if wt_lastRoot w \<noteq> [] \<and> sr_Count sr < wt_lastCount w then (Inl ErrNotAppendOnly, w)
      else if wt_lastRoot w \<noteq> [] \<and>
        MerkleRoot sha256 (take (nat (wt_lastCount w)) entries) \<noteq> wt_lastRoot w
        then (Inl ErrNotAppendOnly, w)
      else (Inr \<lparr>ws_WitnessID = wt_id w, ws_Sig = sign (wt_key w) (witnessPreimage operatorPub sr)\<rparr>,
            w\<lparr>wt_lastCount := sr_Count sr, wt_lastRoot := sr_Root sr\<rparr>))"

record cosignedroot =
  cr_SignedRoot :: signedroot
  cr_OperatorPub :: bytes
  cr_Cosigs :: "witnesssig list"

fun count_cosigs ::
  "(bytes \<Rightarrow> bytes \<Rightarrow> bytes \<Rightarrow> bool) \<Rightarrow> bytes \<Rightarrow> bytes gomap \<Rightarrow> string list \<Rightarrow> witnesssig list \<Rightarrow> string list" where
  "count_cosigs edverify pre witnessSet counted [] = counted"
| "count_cosigs edverify pre witnessSet counted (cs # css) =
     (if ws_WitnessID cs \<in> set counted then count_cosigs edverify pre witnessSet counted css
      else case map_of witnessSet (ws_WitnessID cs) of
          None \<Rightarrow> count_cosigs edverify pre witnessSet counted css
        | Some pub \<Rightarrow>
            if length pub \<noteq> 32 then count_cosigs edverify pre witnessSet counted css
            else if length (ws_Sig cs) = 64 \<and> edverify pub pre (ws_Sig cs)
              then count_cosigs edverify pre witnessSet (counted @ [ws_WitnessID cs]) css
            else count_cosigs edverify pre witnessSet counted css)"

definition VerifyCosigned ::
  "(bytes \<Rightarrow> bytes \<Rightarrow> bytes \<Rightarrow> bool) \<Rightarrow> cosignedroot \<Rightarrow> bytes \<Rightarrow> bytes gomap \<Rightarrow> int \<Rightarrow> witness_err + unit" where
  "VerifyCosigned edverify cr operatorPub witnessSet threshold =
     (if cr_OperatorPub cr \<noteq> operatorPub then Inl ErrOperatorSig
      else if \<not> VerifyRoot edverify (cr_SignedRoot cr) operatorPub then Inl ErrOperatorSig
      else (let counted = count_cosigs edverify (witnessPreimage operatorPub (cr_SignedRoot cr))
                            witnessSet [] (cr_Cosigs cr)
            in if int (length counted) < threshold then Inl (ErrThreshold (length counted) threshold)
               else Inr ()))"

section \<open>The chain invariant\<close>

lemma checkNoPII_err: "checkNoPII d = Inl e \<Longrightarrow> \<exists>k. e = ErrPIIInAuditDetail k"
  unfolding checkNoPII_def by (induction d) (auto split: if_splits)

fun chained :: "(bytes \<Rightarrow> bytes) \<Rightarrow> bytes \<Rightarrow> nat \<Rightarrow> entry list \<Rightarrow> bool" where
  "chained sha256 prev seq [] = True"
| "chained sha256 prev seq (e # es) =
     (en_Seq e = seq \<and> en_PrevHash e = prev \<and> en_Hash e = computeHash sha256 e \<and>
      chained sha256 (en_Hash e) (Suc seq) es)"

definition log_inv :: "(bytes \<Rightarrow> bytes) \<Rightarrow> auditlog \<Rightarrow> bool" where
  "log_inv sha256 l =
     (chained sha256 (genesis sha256) 1 (lg_entries l) \<and>
      lg_lastHash l = last_hash (genesis sha256) (lg_entries l) \<and>
      lg_nextSeq l = Suc (length (lg_entries l)))"

lemma last_hash_Cons: "last_hash p (e # es) = last_hash (en_Hash e) es"
  by (simp add: last_hash_def)

lemma chained_snoc:
  "chained sha256 p s (es @ [e]) \<longleftrightarrow>
     chained sha256 p s es \<and> en_Seq e = s + length es \<and> en_PrevHash e = last_hash p es \<and>
     en_Hash e = computeHash sha256 e"
  by (induction es arbitrary: p s) (auto simp: last_hash_def last_hash_Cons)

lemma chained_verify: "chained sha256 p s es \<Longrightarrow> verify_entries sha256 p i es = Inr ()"
  by (induction es arbitrary: p s i) auto

lemma load_chained: "load_lines sha256 u p s ls = Inr es \<Longrightarrow> chained sha256 p s es"
  by (induction ls arbitrary: p s es) (auto split: if_splits option.splits sum.splits)

lemma new_entry_fields:
  "en_Seq (new_entry sha256 now l t sub d) = lg_nextSeq l"
  "en_PrevHash (new_entry sha256 now l t sub d) = lg_lastHash l"
  "en_Detail (new_entry sha256 now l t sub d) = d"
  "en_Hash (new_entry sha256 now l t sub d) = computeHash sha256 (new_entry sha256 now l t sub d)"
  by (simp_all add: new_entry_def Let_def computeHash_def entry_preimage_def entry_lines_def)

lemma Open_inv: "Open sha256 u file = Inr l \<Longrightarrow> log_inv sha256 l"
  by (auto simp: Open_def log_inv_def dest: load_chained split: sum.splits)

lemma Append_inv:
  assumes "log_inv sha256 l" and "Append sha256 m now io l t sub d = (r, l')"
  shows "log_inv sha256 l'"
  using assms
  by (auto simp: Append_def Let_def log_inv_def chained_snoc new_entry_fields last_hash_def
      split: sum.splits io_result.splits)

section \<open>Reopening\<close>

definition codec_ok :: "(jrecord \<Rightarrow> bytes) \<Rightarrow> (bytes \<Rightarrow> jrecord option) \<Rightarrow> jrecord \<Rightarrow> bool" where
  "codec_ok marshal unmarshal r =
     (unmarshal (marshal r) = Some r \<and> NL \<notin> set (marshal r) \<and> marshal r \<noteq> [] \<and>
      last (marshal r) \<noteq> CHR 0x0D \<and> length (marshal r) < max_line)"

lemma toEntry_toRecord [simp]: "toEntry (toRecord e) = Inr e"
  by (simp add: toEntry_def toRecord_def)

definition ends_line :: "bytes \<Rightarrow> bool" where
  "ends_line f = (f = [] \<or> last f = NL)"

lemma scan_lines_append:
  assumes "ends_line f" and "NL \<notin> set l" and "l \<noteq> []"
  shows "scan_lines (f @ l @ [NL]) = scan_lines f @ [l]"
  using assms(1)
proof (induction f rule: scan_lines.induct)
  case (1 f)
  show ?case
  proof (cases "f = []")
    case True
    have "takeWhile (\<lambda>c. c \<noteq> NL) (l @ [NL]) = l" "dropWhile (\<lambda>c. c \<noteq> NL) (l @ [NL]) = [NL]"
      using assms(2) by (induction l) auto
    with True show ?thesis by (simp add: scan_lines.simps)
  next
    case False
    with 1(2) have "NL \<in> set f" by (metis ends_line_def last_in_set)
    then obtain a b where f: "f = a @ NL # b" "NL \<notin> set a" by (metis split_list_first)
    have tw: "takeWhile (\<lambda>c. c \<noteq> NL) (a @ NL # x) = a" "dropWhile (\<lambda>c. c \<noteq> NL) (a @ NL # x) = NL # x" for x
      using f(2) by (induction a) auto
    have b: "ends_line b" using 1(2) f by (auto simp: ends_line_def split: if_splits)
    have "scan_lines (b @ l @ [NL]) = scan_lines b @ [l]"
      using 1(1)[OF False] b f(1) tw[of b] by simp
    then show ?thesis
      unfolding f(1) using tw by (subst (1 2) scan_lines.simps) simp
  qed
qed

lemma load_lines_Cons:
  "load_lines sha256 u p s (l # ls) =
     (case load_lines sha256 u p s [l] of
        Inl e \<Rightarrow> Inl e
      | Inr es \<Rightarrow>
          (case load_lines sha256 u (last_hash p es) (s + length es) ls of
             Inl e \<Rightarrow> Inl e
           | Inr fs \<Rightarrow> Inr (es @ fs)))"
  by (simp add: last_hash_def split: option.split sum.split)

lemma last_hash_append: "last_hash (last_hash p es) fs = last_hash p (es @ fs)"
  by (simp add: last_hash_def)

lemma load_lines_append:
  "load_lines sha256 u p s (ls @ ks) =
     (case load_lines sha256 u p s ls of
        Inl e \<Rightarrow> Inl e
      | Inr es \<Rightarrow>
          (case load_lines sha256 u (last_hash p es) (s + length es) ks of
             Inl e \<Rightarrow> Inl e
           | Inr fs \<Rightarrow> Inr (es @ fs)))"
proof (induction ls arbitrary: p s)
  case Nil
  then show ?case by (simp add: last_hash_def split: sum.split)
next
  case (Cons x ls)
  show ?case
    by (simp add: load_lines_Cons[of _ _ _ _ x "ls @ ks"] load_lines_Cons[of _ _ _ _ x ls] Cons.IH
        last_hash_append add.assoc del: load_lines.simps split: sum.split)
qed

lemma load_one:
  assumes "codec_ok m u (toRecord e)"
  shows "load_lines sha256 u p s [m (toRecord e)] =
    (if en_Seq e \<noteq> s then Inl (AuditOutOfSequence (en_Seq e) s)
     else if en_PrevHash e \<noteq> p then Inl (AuditChainBroken s)
     else if en_Hash e \<noteq> computeHash sha256 e then Inl (AuditTampered s)
     else Inr [e])"
proof -
  have "drop_cr (m (toRecord e)) = m (toRecord e)" using assms by (simp add: codec_ok_def drop_cr_def)
  with assms show ?thesis by (simp add: codec_ok_def)
qed

lemma Open_lines: "Open sha256 u f = Inr l \<Longrightarrow>
  load_lines sha256 u (genesis sha256) 1 (scan_lines f) = Inr (lg_entries l) \<and> lg_file l = f"
  by (auto simp: Open_def split: sum.splits)

lemma reopen_append:
  assumes "Open sha256 u (lg_file l) = Inr l" and "ends_line (lg_file l)"
    and "Append sha256 m now IoOk l t sub d = (Inr e, l')" and "codec_ok m u (toRecord e)"
  shows "Open sha256 u (lg_file l') = Inr l' \<and> ends_line (lg_file l')"
proof -
  have inv: "log_inv sha256 l" using assms(1) by (rule Open_inv)
  from assms(3) have l': "e = new_entry sha256 now l t sub d"
    "l' = l\<lparr>lg_entries := lg_entries l @ [e], lg_lastHash := en_Hash e, lg_nextSeq := Suc (lg_nextSeq l),
        lg_file := lg_file l @ m (toRecord e) @ [NL]\<rparr>"
    by (auto simp: Append_def Let_def split: sum.splits)
  have "scan_lines (lg_file l') = scan_lines (lg_file l) @ [m (toRecord e)]"
    using assms(2,4) l' by (simp add: scan_lines_append codec_ok_def)
  then have "load_lines sha256 u (genesis sha256) 1 (scan_lines (lg_file l')) = Inr (lg_entries l @ [e])"
    using Open_lines[OF assms(1)] inv new_entry_fields[of sha256 now l t sub d]
    by (simp add: load_lines_append load_one[OF assms(4)] l'(1)[symmetric] log_inv_def del: load_lines.simps)
  with inv l' show ?thesis by (simp add: Open_def log_inv_def last_hash_def ends_line_def)
qed

lemma reopen_after_failed_sync:
  assumes "Open sha256 u (lg_file l) = Inr l" and "ends_line (lg_file l)"
    and "Append sha256 m now SyncFails l t sub d = (Inl AuditIO, l1)"
    and "Append sha256 m now' IoOk l1 t' sub' d' = (Inr e, l2)"
    and "codec_ok m u (toRecord (new_entry sha256 now l t sub d))" and "codec_ok m u (toRecord e)"
  shows "Open sha256 u (lg_file l2) = Inl (AuditOutOfSequence (lg_nextSeq l) (Suc (lg_nextSeq l)))"
proof -
  let ?e1 = "new_entry sha256 now l t sub d"
  have inv: "log_inv sha256 l" using assms(1) by (rule Open_inv)
  from assms(3) have l1: "l1 = l\<lparr>lg_file := lg_file l @ m (toRecord ?e1) @ [NL]\<rparr>"
    by (auto simp: Append_def Let_def split: sum.splits dest: checkNoPII_err)
  from assms(4) have l2: "e = new_entry sha256 now' l1 t' sub' d'"
    "lg_file l2 = lg_file l1 @ m (toRecord e) @ [NL]"
    by (auto simp: Append_def Let_def split: sum.splits)
  have "scan_lines (lg_file l2) = (scan_lines (lg_file l) @ [m (toRecord ?e1)]) @ [m (toRecord e)]"
    using assms(2,5,6) l1 l2(2) scan_lines_append[of "lg_file l1" "m (toRecord e)"]
    by (simp add: scan_lines_append codec_ok_def ends_line_def)
  moreover have "en_Seq e = lg_nextSeq l" using l1 l2(1) by (simp add: new_entry_fields)
  ultimately show ?thesis
    using Open_lines[OF assms(1)] inv new_entry_fields[of sha256 now l t sub d]
    by (simp only: Open_def load_lines_append)
       (simp add: load_one[OF assms(5)] load_one[OF assms(6)] log_inv_def last_hash_def
          del: load_lines.simps)
qed

section \<open>Tamper evidence\<close>

definition clean_entry :: "entry \<Rightarrow> bool" where
  "clean_entry e = (NL \<notin> set (en_Type e) \<and> NL \<notin> set (en_Subject e) \<and>
     (\<forall>(k, v) \<in> set (en_Detail e). NL \<notin> set k \<and> CHR ''='' \<notin> set k \<and> NL \<notin> set v))"

definition same_entry :: "entry \<Rightarrow> entry \<Rightarrow> bool" where
  "same_entry e f = (en_Seq e = en_Seq f \<and> en_Time e = en_Time f \<and> en_Type e = en_Type f \<and>
     en_Subject e = en_Subject f \<and> map_of (en_Detail e) = map_of (en_Detail f) \<and>
     en_PrevHash e = en_PrevHash f \<and> en_Hash e = en_Hash f)"

lemma digits_no_newline: "NL \<notin> set (nat_str n)" "NL \<notin> set (int_str i)"
proof -
  have "\<not> is_digit NL" "NL \<noteq> CHR ''-''" by (simp_all add: is_digit_def NL_def)
  then show "NL \<notin> set (nat_str n)" "NL \<notin> set (int_str i)"
    using nat_str_digits by (auto simp: int_str_def)
qed

lemma terminated_lines_inj:
  "\<forall>l \<in> set xs. NL \<notin> set l \<Longrightarrow> \<forall>l \<in> set ys. NL \<notin> set l \<Longrightarrow>
   concat (map (\<lambda>l. l @ [NL]) xs) = concat (map (\<lambda>l. l @ [NL]) ys) \<Longrightarrow> xs = ys"
proof (induction xs arbitrary: ys)
  case Nil
  then show ?case by (cases ys) auto
next
  case (Cons x xs)
  then obtain y zs where ys: "ys = y # zs" by (cases ys) auto
  from Cons.prems(3) have "x @ NL # concat (map (\<lambda>l. l @ [NL]) xs) = y @ NL # concat (map (\<lambda>l. l @ [NL]) zs)"
    unfolding ys by simp
  then have "x = y \<and> concat (map (\<lambda>l. l @ [NL]) xs) = concat (map (\<lambda>l. l @ [NL]) zs)"
    using split_at_sep[of NL x y] Cons.prems(1,2) ys by simp
  with Cons.IH[of zs] Cons.prems(1,2) ys show ?case by simp
qed

definition detail_pairs :: "string gomap \<Rightarrow> (string \<times> string) list" where
  "detail_pairs d = map (\<lambda>k. (k, case map_of d k of None \<Rightarrow> [] | Some v \<Rightarrow> v)) (sort (map fst d))"

lemma detail_lines_pairs: "detail_lines d = map (\<lambda>(k, v). k @ CHR ''='' # v) (detail_pairs d)"
  by (simp add: detail_lines_def detail_pairs_def)

lemma extra_fields_pairs: "extra_fields d = map (\<lambda>(k, v). (''x:'' @ k, v)) (detail_pairs d)"
  by (simp add: extra_fields_def detail_pairs_def)

lemma detail_pairs_mem: "(k, v) \<in> set (detail_pairs d) \<Longrightarrow> (k, v) \<in> set d"
proof -
  assume a: "(k, v) \<in> set (detail_pairs d)"
  then have "k \<in> fst ` set d" by (auto simp: detail_pairs_def)
  then obtain w where "map_of d k = Some w" by (metis map_of_eq_None_iff not_None_eq)
  with a have "map_of d k = Some v" by (auto simp: detail_pairs_def)
  then show ?thesis by (rule map_of_SomeD)
qed

lemma entry_lines_clean: "clean_entry e \<Longrightarrow> \<forall>l \<in> set (entry_lines e). NL \<notin> set l"
  using digits_no_newline
  by (auto simp: entry_lines_def clean_entry_def detail_lines_pairs NL_def dest!: detail_pairs_mem)

lemma entry_preimage_inj:
  assumes "entry_preimage e = entry_preimage f" and "clean_entry e" and "clean_entry f"
    and "length (en_PrevHash e) = length (en_PrevHash f)"
  shows "en_Seq e = en_Seq f \<and> en_Time e = en_Time f \<and> en_Type e = en_Type f \<and>
     en_Subject e = en_Subject f \<and> map_of (en_Detail e) = map_of (en_Detail f) \<and> en_PrevHash e = en_PrevHash f"
proof -
  from assms(1,4) have c: "concat (map (\<lambda>l. l @ [NL]) (entry_lines e)) = concat (map (\<lambda>l. l @ [NL]) (entry_lines f))"
    and p: "en_PrevHash e = en_PrevHash f"
    by (auto simp: entry_preimage_def)
  from terminated_lines_inj[OF entry_lines_clean[OF assms(2)] entry_lines_clean[OF assms(3)] c]
  have l: "nat_str (en_Seq e) = nat_str (en_Seq f)" "int_str (en_Time e) = int_str (en_Time f)"
    "en_Type e = en_Type f" "en_Subject e = en_Subject f"
    "detail_lines (en_Detail e) = detail_lines (en_Detail f)"
    by (simp_all add: entry_lines_def)
  have "inj_on (\<lambda>(k, v). k @ CHR ''='' # v)
      (set (detail_pairs (en_Detail e)) \<union> set (detail_pairs (en_Detail f)))"
  proof (rule inj_onI, clarify)
    fix k v k' v'
    assume "(k, v) \<in> set (detail_pairs (en_Detail e)) \<union> set (detail_pairs (en_Detail f))"
      and "(k', v') \<in> set (detail_pairs (en_Detail e)) \<union> set (detail_pairs (en_Detail f))"
      and eq: "k @ CHR ''='' # v = k' @ CHR ''='' # v'"
    then have "CHR ''='' \<notin> set k" "CHR ''='' \<notin> set k'"
      using assms(2,3) by (auto simp: clean_entry_def dest!: detail_pairs_mem)
    with eq show "k = k' \<and> v = v'" by (rule split_at_sep[THEN iffD1, rotated -1])
  qed
  with l(5) have "detail_pairs (en_Detail e) = detail_pairs (en_Detail f)"
    unfolding detail_lines_pairs by (rule map_inj_on)
  then have "map_of (en_Detail e) = map_of (en_Detail f)"
    by (intro extra_fields_inj) (simp add: extra_fields_pairs)
  with l p show ?thesis by (simp add: nat_str_inj int_str_inj)
qed

lemma last_hash_length:
  assumes "\<And>x. length (sha256 x) = 32" and "chained sha256 (genesis sha256) s es"
  shows "length (last_hash (genesis sha256) es) = 32"
  using assms(2)
proof (cases es rule: rev_cases)
  case Nil
  then show ?thesis by (simp add: last_hash_def genesis_def assms(1))
next
  case (snoc fs f)
  with assms show ?thesis by (simp add: chained_snoc last_hash_def computeHash_def)
qed

lemma genesis_not_preimage: "genesis_text \<noteq> entry_preimage e"
proof -
  have "NL \<in> set (entry_preimage e)" by (simp add: entry_preimage_def entry_lines_def)
  moreover have "NL \<notin> set genesis_text" by (simp add: genesis_text_def NL_def)
  ultimately show ?thesis by metis
qed

lemma last_hash_binds:
  assumes len: "\<And>x. length (sha256 x) = 32"
    and "chained sha256 (genesis sha256) 1 es" and "chained sha256 (genesis sha256) 1 fs"
    and "last_hash (genesis sha256) es = last_hash (genesis sha256) fs"
    and "\<forall>e \<in> set es \<union> set fs. clean_entry e"
    and "inj_on sha256 (insert genesis_text (entry_preimage ` (set es \<union> set fs)))"
  shows "list_all2 same_entry es fs"
  using assms(2-)
proof (induction es arbitrary: fs rule: rev_induct)
  case Nil
  show ?case
  proof (cases fs rule: rev_cases)
    case (snoc fs' f)
    with Nil have "sha256 genesis_text = sha256 (entry_preimage f)"
      by (simp add: last_hash_def genesis_def chained_snoc computeHash_def)
    with Nil.prems(5) snoc have "genesis_text = entry_preimage f" by (auto dest: inj_onD)
    with genesis_not_preimage show ?thesis by blast
  qed simp
next
  case (snoc e es)
  show ?case
  proof (cases fs rule: rev_cases)
    case Nil
    with snoc.prems have "sha256 genesis_text = sha256 (entry_preimage e)"
      by (simp add: last_hash_def genesis_def chained_snoc computeHash_def)
    with snoc.prems(5) have "genesis_text = entry_preimage e" by (auto dest: inj_onD)
    with genesis_not_preimage show ?thesis by blast
  next
    case fs: (snoc fs' f)
    have ce: "chained sha256 (genesis sha256) 1 es" "en_PrevHash e = last_hash (genesis sha256) es"
      "en_Hash e = sha256 (entry_preimage e)"
      using snoc.prems(1) by (simp_all add: chained_snoc computeHash_def)
    have cf: "chained sha256 (genesis sha256) 1 fs'" "en_PrevHash f = last_hash (genesis sha256) fs'"
      "en_Hash f = sha256 (entry_preimage f)"
      using snoc.prems(2) fs by (simp_all add: chained_snoc computeHash_def)
    have h: "en_Hash e = en_Hash f" using snoc.prems(3) fs by (simp add: last_hash_def)
    with ce(3) cf(3) snoc.prems(5) fs have pre: "entry_preimage e = entry_preimage f"
      by (auto dest: inj_onD)
    have "clean_entry e" "clean_entry f" using snoc.prems(4) fs by auto
    from entry_preimage_inj[OF pre this] last_hash_length[OF len ce(1)] last_hash_length[OF len cf(1)] ce(2) cf(2)
    have eq: "en_Seq e = en_Seq f \<and> en_Time e = en_Time f \<and> en_Type e = en_Type f \<and>
       en_Subject e = en_Subject f \<and> map_of (en_Detail e) = map_of (en_Detail f) \<and> en_PrevHash e = en_PrevHash f"
      by simp
    have "list_all2 same_entry es fs'"
    proof (rule snoc.IH[OF ce(1) cf(1)])
      show "last_hash (genesis sha256) es = last_hash (genesis sha256) fs'" using eq ce(2) cf(2) by simp
      show "\<forall>e \<in> set es \<union> set fs'. clean_entry e" using snoc.prems(4) fs by auto
      show "inj_on sha256 (insert genesis_text (entry_preimage ` (set es \<union> set fs')))"
        by (rule inj_on_subset[OF snoc.prems(5)]) (auto simp: fs)
    qed
    moreover have "same_entry e f" using eq h by (simp add: same_entry_def)
    ultimately show ?thesis using fs by (auto intro: list_all2_appendI)
  qed
qed

section \<open>Inclusion proofs are the generic tree\<close>

lemma proof_layer_sibling:
  "i \<le> idx \<Longrightarrow> idx - i < length xs \<Longrightarrow> even i \<Longrightarrow>
   snd (proof_layer sha256 i idx xs) =
     (if sibling (idx - i) < length xs then [xs ! sibling (idx - i)] else [])"
  and proof_layer_passed: "idx < i \<Longrightarrow> snd (proof_layer sha256 i idx xs) = []"
proof (induction sha256 i idx xs rule: proof_layer.induct)
  case (1 sha256 i idx x y zs)
  {
    case 1
    then show ?case
    proof (cases "idx - i < 2")
      case True
      with 1 have "idx = i \<or> idx = Suc i" by arith
      with "1.IH"(2) show ?thesis by (auto simp: sibling_def split: prod.splits)
    next
      case False
      then obtain j where j: "idx - i = Suc (Suc j)" by (metis add_2_eq_Suc le_Suc_ex not_less)
      then have j2: "idx - (i + 2) = j" "i + 2 \<le> idx" by arith+
      have "idx \<noteq> i" "idx \<noteq> Suc i" using j by arith+
      with 1 j j2 "1.IH"(1) show ?thesis by (auto split: prod.splits)
    qed
  next
    case 2
    with "1.IH"(2) show ?case by (auto split: prod.splits)
  }
qed (auto simp: sibling_def)

lemma proof_loop_path:
  "idx < length xs \<Longrightarrow> proof_loop sha256 xs idx acc = acc @ tree_path (hashInterior sha256) xs idx"
proof (induction "hashInterior sha256" xs idx arbitrary: acc rule: tree_path.induct)
  case (1 xs idx)
  show ?case
  proof (cases "length xs \<le> 1")
    case True
    then show ?thesis by (simp add: proof_loop.simps[of _ xs] tree_path.simps[of _ xs])
  next
    case False
    have "idx div 2 < length (next_level (hashInterior sha256) xs)"
      using half_less[OF 1(2)] by (simp add: length_next_level)
    with 1(1)[OF False] proof_layer_sibling[of 0 idx xs sha256] 1(2) False show ?thesis
      by (simp add: proof_loop.simps[of _ xs] tree_path.simps[of _ xs] proof_layer_next)
  qed
qed

lemma promoted_iff: "i < n \<Longrightarrow> (int i = int n - 1 \<and> int n mod 2 = 1) \<longleftrightarrow> \<not> sibling i < n"
  by (auto simp: sibling_def) presburger+

lemma inclusion_loop_fold:
  "i < n \<Longrightarrow> n < 2 ^ 63 - 1 \<Longrightarrow>
   inclusion_loop sha256 h (int i) (int n) path = tree_fold (hashInterior sha256) h i n path"
proof (induction "hashInterior sha256" h i n path rule: tree_fold.induct)
  case (1 h i n path)
  show ?case
  proof (cases "n \<le> 1")
    case True
    then show ?thesis by (simp add: inclusion_loop.simps tree_fold.simps)
  next
    case False
    have half: "half_up64 (int n) = int ((n + 1) div 2)"
      using 1(4) by (simp add: half_up64_def zdiv_int)
    have d: "int i div 2 = int (i div 2)" by (simp add: zdiv_int)
    have small: "i div 2 < (n + 1) div 2" "(n + 1) div 2 < 2 ^ 63 - 1"
      using half_less[OF 1(3)] 1(4) False by auto
    have ev: "int i mod 2 = 0 \<longleftrightarrow> even i" by presburger
    show ?thesis
    proof (cases "sibling i < n")
      case True
      with False 1(1)[OF False True _ small] show ?thesis
        by (subst inclusion_loop.simps, subst tree_fold.simps)
           (simp only: promoted_iff[OF 1(3)] ev half d, simp split: list.split)
    next
      case noSib: False
      with False 1(2)[OF False noSib small] show ?thesis
        by (subst inclusion_loop.simps, subst tree_fold.simps)
           (simp only: promoted_iff[OF 1(3)] ev half d, simp)
    qed
  qed
qed

abbreviation leaves_of :: "(bytes \<Rightarrow> bytes) \<Rightarrow> entry list \<Rightarrow> bytes list" where
  "leaves_of sha256 es \<equiv> map (\<lambda>e. hashLeaf sha256 (en_Hash e)) es"

definition al_verify :: "(bytes \<Rightarrow> bytes) \<Rightarrow> entry \<Rightarrow> nat \<Rightarrow> nat \<Rightarrow> bytes list option \<Rightarrow> bytes \<Rightarrow> bool" where
  "al_verify sha256 e i n p rt =
     (case p of None \<Rightarrow> False | Some path \<Rightarrow> VerifyInclusion sha256 (en_Hash e) (int i) (int n) path rt)"

definition al_safe :: "(bytes \<Rightarrow> bytes) \<Rightarrow> entry list \<Rightarrow> bytes \<Rightarrow> nat \<Rightarrow> bytes list \<Rightarrow> bool" where
  "al_safe sha256 es h i path =
     (collision_free (hashInterior sha256) (tree_pairs (hashInterior sha256) (leaves_of sha256 es) \<union>
        fold_pairs (hashInterior sha256) (hashLeaf sha256 h) i (length es) path) \<and>
      inj_on (hashLeaf sha256) (insert h (en_Hash ` set es)))"

lemma VerifyInclusion_fold:
  assumes "n < 2 ^ 63 - 1"
  shows "VerifyInclusion sha256 h (int i) (int n) path rt \<longleftrightarrow>
    i < n \<and> tree_fold (hashInterior sha256) (hashLeaf sha256 h) i n path = Some (rt, [])"
  using inclusion_loop_fold[of i n sha256 "hashLeaf sha256 h" path] assms
  by (auto simp: VerifyInclusion_def split: option.splits)

lemma MerkleProof_path:
  "i < length es \<Longrightarrow> MerkleProof sha256 es (int i) = Some (tree_path (hashInterior sha256) (leaves_of sha256 es) i)"
  by (auto simp: MerkleProof_def proof_loop_path)

lemma inclusion_sound:
  assumes "length es < 2 ^ 63 - 1"
    and "VerifyInclusion sha256 h (int i) (int (length es)) path (MerkleRoot sha256 es)"
    and "al_safe sha256 es h i path"
  shows "i < length es \<and> h = en_Hash (es ! i)"
proof -
  from assms(1,2) have i: "i < length es" by (simp add: VerifyInclusion_fold)
  then have "es \<noteq> []" by auto
  with assms(1,2) have "tree_fold (hashInterior sha256) (hashLeaf sha256 h) i (length (leaves_of sha256 es)) path =
      Some (tree_root (hashInterior sha256) (leaves_of sha256 es), [])"
    by (simp add: VerifyInclusion_fold MerkleRoot_def)
  from tree_fold_sound[OF _ this] i assms(3) have "hashLeaf sha256 h = hashLeaf sha256 (en_Hash (es ! i))"
    by (simp add: al_safe_def)
  with assms(3) i show ?thesis by (auto simp: al_safe_def dest: inj_onD)
qed

interpretation al: list_commitment
  "MerkleRoot sha256"
  "\<lambda>es i. MerkleProof sha256 es (int i)"
  "al_verify sha256" "\<lambda>n. n < 2 ^ 63 - 1"
  "\<lambda>es e i p. case p of None \<Rightarrow> False | Some path \<Rightarrow>
     al_safe sha256 es (en_Hash e) i path \<and> (\<forall>f \<in> set es. en_Hash f = en_Hash e \<longrightarrow> f = e)"
  for sha256
proof
  fix xs :: "entry list" and i
  assume n: "length xs < 2 ^ 63 - 1" and i: "i < length xs"
  then have "xs \<noteq> []" by auto
  with n i tree_path_complete[of i "leaves_of sha256 xs" "hashInterior sha256" "[]"]
  show "al_verify sha256 (xs ! i) i (length xs) (MerkleProof sha256 xs (int i)) (MerkleRoot sha256 xs)"
    by (simp add: al_verify_def MerkleProof_path VerifyInclusion_fold MerkleRoot_def)
next
  fix xs :: "entry list" and x i p
  assume n: "length xs < 2 ^ 63 - 1" and v: "al_verify sha256 x i (length xs) p (MerkleRoot sha256 xs)"
    and s: "case p of None \<Rightarrow> False | Some path \<Rightarrow>
      al_safe sha256 xs (en_Hash x) i path \<and> (\<forall>f \<in> set xs. en_Hash f = en_Hash x \<longrightarrow> f = x)"
  then obtain path where "VerifyInclusion sha256 (en_Hash x) (int i) (int (length xs)) path (MerkleRoot sha256 xs)"
    and a: "al_safe sha256 xs (en_Hash x) i path" "\<forall>f \<in> set xs. en_Hash f = en_Hash x \<longrightarrow> f = x"
    by (auto simp: al_verify_def split: option.splits)
  with inclusion_sound[OF n this(1) a(1)] show "i < length xs \<and> x = xs ! i" by auto
qed

section \<open>Witness consistency\<close>

lemma MerkleRoot_nonempty:
  assumes "\<And>x. length (sha256 x) = 32" and "es \<noteq> []"
  shows "MerkleRoot sha256 es \<noteq> []"
proof -
  have ne: "sha256 x \<noteq> []" for x using assms(1)[of x] by auto
  have "tree_root (hashInterior sha256) (leaves_of sha256 es) \<noteq> []"
    by (rule tree_root_all[where P = "\<lambda>h. h \<noteq> []"]) (use assms(2) ne in \<open>auto simp: hashInterior_def hashLeaf_def\<close>)
  then show ?thesis using assms(2) by (simp add: MerkleRoot_def)
qed

lemma Cosign_ok:
  "Cosign sha256 sign v w sr pub es = (Inr sig, w') \<longleftrightarrow>
     VerifyRoot v sr pub \<and> sr_Count sr = int (length es) \<and> sr_Root sr = MerkleRoot sha256 es \<and>
     (wt_lastRoot w \<noteq> [] \<longrightarrow> wt_lastCount w \<le> sr_Count sr \<and>
        MerkleRoot sha256 (take (nat (wt_lastCount w)) es) = wt_lastRoot w) \<and>
     sig = \<lparr>ws_WitnessID = wt_id w, ws_Sig = sign (wt_key w) (witnessPreimage pub sr)\<rparr> \<and>
     w' = w\<lparr>wt_lastCount := sr_Count sr, wt_lastRoot := sr_Root sr\<rparr>"
  by (auto simp: Cosign_def)

text \<open>A run of a witness over a sequence of requests, and the logs it attested.\<close>

fun attested ::
  "(bytes \<Rightarrow> bytes) \<Rightarrow> ('k \<Rightarrow> bytes \<Rightarrow> bytes) \<Rightarrow> (bytes \<Rightarrow> bytes \<Rightarrow> bytes \<Rightarrow> bool) \<Rightarrow> 'k witness \<Rightarrow>
     (signedroot \<times> bytes \<times> entry list) list \<Rightarrow> entry list list" where
  "attested sha256 sign v w [] = []"
| "attested sha256 sign v w ((sr, pub, es) # rs) =
     (case Cosign sha256 sign v w sr pub es of
        (Inl _, w') \<Rightarrow> attested sha256 sign v w' rs
      | (Inr _, w') \<Rightarrow> es # attested sha256 sign v w' rs)"

definition run_safe :: "(bytes \<Rightarrow> bytes) \<Rightarrow> entry list set \<Rightarrow> bool" where
  "run_safe sha256 logs =
     (collision_free (hashInterior sha256)
        (\<Union>es \<in> logs. \<Union>n. tree_pairs (hashInterior sha256) (leaves_of sha256 (take n es))) \<and>
      inj_on (hashLeaf sha256) (\<Union>es \<in> logs. en_Hash ` set es))"

lemma same_root_same_hashes:
  assumes "run_safe sha256 logs" and "es \<in> logs" and "fs \<in> logs"
    and "length es = m" and "m \<le> length fs" and "es \<noteq> []"
    and "MerkleRoot sha256 es = MerkleRoot sha256 (take m fs)"
  shows "map en_Hash es = take m (map en_Hash fs)"
proof -
  let ?n = "hashInterior sha256"
  have "leaves_of sha256 es = leaves_of sha256 (take m fs)"
  proof (rule tree_root_binding[of _ _ ?n])
    show "tree_root ?n (leaves_of sha256 es) = tree_root ?n (leaves_of sha256 (take m fs))"
      using assms(4-7) by (auto simp: MerkleRoot_def)
    have "tree_pairs ?n (leaves_of sha256 (take (length es) es)) \<union> tree_pairs ?n (leaves_of sha256 (take m fs))
        \<subseteq> (\<Union>es \<in> logs. \<Union>n. tree_pairs ?n (leaves_of sha256 (take n es)))"
      using assms(2,3) by blast
    with assms(1) show "collision_free ?n (tree_pairs ?n (leaves_of sha256 es) \<union>
        tree_pairs ?n (leaves_of sha256 (take m fs)))"
      by (auto simp: run_safe_def intro: collision_free_subset)
  qed (use assms(4-6) in auto)
  then have "map (hashLeaf sha256) (map en_Hash es) = map (hashLeaf sha256) (map en_Hash (take m fs))"
    by (simp add: comp_def)
  moreover have "set (map en_Hash es) \<union> set (map en_Hash (take m fs)) \<subseteq> (\<Union>es \<in> logs. en_Hash ` set es)"
    using assms(2,3) by (auto dest: in_set_takeD)
  then have "inj_on (hashLeaf sha256) (set (map en_Hash es) \<union> set (map en_Hash (take m fs)))"
    using assms(1) inj_on_subset unfolding run_safe_def by blast
  ultimately have "map en_Hash es = map en_Hash (take m fs)" by (rule map_inj_on)
  then show ?thesis by (simp add: take_map)
qed

definition anchored :: "(bytes \<Rightarrow> bytes) \<Rightarrow> 'k witness \<Rightarrow> entry list \<Rightarrow> bool" where
  "anchored sha256 w es = (wt_lastRoot w = MerkleRoot sha256 es \<and> wt_lastCount w = int (length es))"

lemma anchored_fresh: "wt_lastRoot w = [] \<Longrightarrow> wt_lastCount w = 0 \<Longrightarrow> anchored sha256 w []"
  by (simp add: anchored_def MerkleRoot_def)

lemma Cosign_extends:
  assumes "\<And>x. length (sha256 x) = 32" and "run_safe sha256 logs" and "prior \<in> logs" and "es \<in> logs"
    and "anchored sha256 w prior" and "Cosign sha256 sign v w sr pub es = (Inr sig, w')"
  shows "prefix (map en_Hash prior) (map en_Hash es) \<and> anchored sha256 w' es"
proof
  have c: "sr_Count sr = int (length es)" "sr_Root sr = MerkleRoot sha256 es"
    "wt_lastRoot w \<noteq> [] \<Longrightarrow> wt_lastCount w \<le> sr_Count sr \<and>
        MerkleRoot sha256 (take (nat (wt_lastCount w)) es) = wt_lastRoot w"
    "w' = w\<lparr>wt_lastCount := sr_Count sr, wt_lastRoot := sr_Root sr\<rparr>"
    using assms(6) by (auto simp: Cosign_ok)
  then show "anchored sha256 w' es" by (simp add: anchored_def)
  show "prefix (map en_Hash prior) (map en_Hash es)"
  proof (cases "prior = []")
    case False
    with MerkleRoot_nonempty[OF assms(1)] assms(5) c(1,3)
    have "length prior \<le> length es" "MerkleRoot sha256 prior = MerkleRoot sha256 (take (length prior) es)"
      by (auto simp: anchored_def)
    with same_root_same_hashes[OF assms(2,3,4) refl _ False] show ?thesis
      by (metis take_is_prefix)
  qed simp
qed

lemma attested_prefixes:
  assumes "\<And>x. length (sha256 x) = 32" and "run_safe sha256 logs"
  shows "prior \<in> logs \<Longrightarrow> (\<forall>(sr, pub, es) \<in> set rs. es \<in> logs) \<Longrightarrow> anchored sha256 w prior \<Longrightarrow>
    sorted_wrt (\<lambda>a b. prefix (map en_Hash a) (map en_Hash b)) (prior # attested sha256 sign v w rs)"
proof (induction rs arbitrary: w prior)
  case (Cons r rs)
  obtain sr pub es where r: "r = (sr, pub, es)" by (cases r) auto
  obtain res w' where c: "Cosign sha256 sign v w sr pub es = (res, w')" by fastforce
  show ?case
  proof (cases res)
    case (Inl e)
    with c have "w' = w" by (auto simp: Cosign_def split: if_splits)
    with Inl c r Cons show ?thesis by simp
  next
    case (Inr sig)
    with c r Cons.prems have ext: "prefix (map en_Hash prior) (map en_Hash es)" "anchored sha256 w' es"
      using Cosign_extends[OF assms, of prior es w] by auto
    have "sorted_wrt (\<lambda>a b. prefix (map en_Hash a) (map en_Hash b)) (es # attested sha256 sign v w' rs)"
      using Cons.IH[of es w'] Cons.prems r ext by auto
    with ext(1) show ?thesis using r c Inr by (auto intro: prefix_order.trans)
  qed
qed simp

lemma count_cosigs_spec:
  "distinct counted \<Longrightarrow> distinct (count_cosigs v pre ws counted css) \<and>
   set (count_cosigs v pre ws counted css) = set counted \<union>
     {i. \<exists>cs \<in> set css. ws_WitnessID cs = i \<and> (\<exists>pub. map_of ws i = Some pub \<and> length pub = 32 \<and>
        length (ws_Sig cs) = 64 \<and> v pub pre (ws_Sig cs))}"
proof (induction css arbitrary: counted)
  case (Cons cs css)
  show ?case
  proof (cases "ws_WitnessID cs \<in> set counted \<or> \<not> (\<exists>pub. map_of ws (ws_WitnessID cs) = Some pub \<and>
      length pub = 32 \<and> length (ws_Sig cs) = 64 \<and> v pub pre (ws_Sig cs))")
    case True
    then have "count_cosigs v pre ws counted (cs # css) = count_cosigs v pre ws counted css"
      by (auto split: option.split)
    with Cons True show ?thesis by auto
  next
    case False
    then have "count_cosigs v pre ws counted (cs # css) = count_cosigs v pre ws (counted @ [ws_WitnessID cs]) css"
      by auto
    with Cons.IH[of "counted @ [ws_WitnessID cs]"] Cons.prems False show ?thesis by auto
  qed
qed simp

lemma chained_seq: "chained sha256 p s es \<Longrightarrow> i < length es \<Longrightarrow> en_Seq (es ! i) = s + i"
  by (induction es arbitrary: p s i) (auto simp: nth_Cons')

definition pii_free :: "entry \<Rightarrow> bool" where
  "pii_free e = (\<forall>(k, v) \<in> set (en_Detail e). go_lower k \<notin> set sensitiveDetailKeys)"

lemma checkNoPII_ok: "checkNoPII d = Inr u \<longleftrightarrow> (\<forall>(k, v) \<in> set d. go_lower k \<notin> set sensitiveDetailKeys)"
  by (auto simp: checkNoPII_def first_err_Inr split: if_splits prod.splits)

lemma Append_entries:
  assumes "Append sha256 m now io l t sub d = (r, l')"
  shows "\<exists>new. lg_entries l' = lg_entries l @ new \<and> (\<forall>e \<in> set new. pii_free e)"
  using assms
  by (auto simp: Append_def Let_def pii_free_def new_entry_fields checkNoPII_ok
      split: sum.splits io_result.splits)

lemma appends_inv:
  assumes "log_inv sha256 l0"
  shows "log_inv sha256 (fold (\<lambda>(now, io, t, sub, d) l. snd (Append sha256 m now io l t sub d)) calls l0) \<and>
    (\<exists>new. lg_entries (fold (\<lambda>(now, io, t, sub, d) l. snd (Append sha256 m now io l t sub d)) calls l0) =
        lg_entries l0 @ new \<and> (\<forall>e \<in> set new. pii_free e))"
  using assms
proof (induction calls arbitrary: l0)
  case (Cons c calls)
  obtain now io t sub d where c: "c = (now, io, t, sub, d)" by (cases c) auto
  obtain r l1 where a: "Append sha256 m now io l0 t sub d = (r, l1)" by fastforce
  from Append_entries[OF a] obtain new where n: "lg_entries l1 = lg_entries l0 @ new" "\<forall>e \<in> set new. pii_free e"
    by blast
  from Cons.IH[OF Append_inv[OF Cons.prems a]] n show ?case by (auto simp: c a)
qed simp

section \<open>Properties\<close>

text \<open>C31: the log is always a valid hash chain. Whatever file is opened, and whatever sequence of
  appends follows, with successful, failed or partial writes, the in-memory log passes \<open>Verify\<close>,
  its entries are numbered consecutively from 1, the opened entries stay in place, and no entry
  appended since carries a detail key of the PII list.\<close>

theorem audit_log_always_verifies:
  assumes "Open sha256 unmarshal file = Inr l0"
    and "fold (\<lambda>(now, io, t, sub, d) l. snd (Append sha256 marshal now io l t sub d)) calls l0 = l"
  shows "Verify sha256 l = Inr () \<and>
    (\<forall>i < length (Entries l). en_Seq (Entries l ! i) = Suc i) \<and>
    take (length (Entries l0)) (Entries l) = Entries l0 \<and>
    (\<forall>e \<in> set (drop (length (Entries l0)) (Entries l)). \<forall>(k, v) \<in> set (en_Detail e).
       go_lower k \<notin> set sensitiveDetailKeys)"
proof -
  have inv: "log_inv sha256 l" and "\<exists>new. lg_entries l = lg_entries l0 @ new \<and> (\<forall>e \<in> set new. pii_free e)"
    using appends_inv[OF Open_inv[OF assms(1)], of marshal calls] assms(2) by simp_all
  then obtain new where n: "lg_entries l = lg_entries l0 @ new" "\<forall>e \<in> set new. pii_free e" by blast
  from inv have "chained sha256 (genesis sha256) 1 (lg_entries l)" by (simp add: log_inv_def)
  with n show ?thesis
    using chained_verify chained_seq[of sha256 "genesis sha256" 1 "lg_entries l"]
    by (simp add: Verify_def Entries_def pii_free_def)
qed

definition sample_codec :: "jrecord \<Rightarrow> bytes" where
  "sample_codec r = nat_str (jr_Seq r)"

theorem audit_log_always_verifies_witness:
  "Verify (\<lambda>b. b) (fold (\<lambda>(now, io, t, sub, d) l. snd (Append (\<lambda>b. b) sample_codec now io l t sub d))
     [(5, IoOk, ''cat_issued'', ''jti-1'', []), (6, SyncFails, ''txn_issued'', ''jti-2'', [(''ref'', ''x'')])]
     \<lparr>lg_entries = [], lg_lastHash = genesis (\<lambda>b. b), lg_nextSeq = 1, lg_file = []\<rparr>) = Inr ()"
proof -
  have "Open (\<lambda>b. b) (\<lambda>_. None) [] =
      Inr \<lparr>lg_entries = [], lg_lastHash = genesis (\<lambda>b. b), lg_nextSeq = 1, lg_file = []\<rparr>"
    by (simp add: Open_def scan_lines.simps last_hash_def)
  from audit_log_always_verifies[OF this refl] show ?thesis by blast
qed

text \<open>C32: what was appended can be reopened. If a log equals what reopening its file gives, and the
  file ends with a newline, then after a successful append the same holds: reopening the file gives
  exactly the in-memory log. The JSON codec has to return the appended record unchanged, on one
  non-empty line shorter than the 4 MiB line buffer.\<close>

theorem reopen_after_append:
  assumes "Open sha256 unmarshal (lg_file l) = Inr l" and "ends_line (lg_file l)"
    and "Append sha256 marshal now IoOk l t sub d = (Inr e, l')" and "codec_ok marshal unmarshal (toRecord e)"
  shows "Open sha256 unmarshal (lg_file l') = Inr l' \<and> ends_line (lg_file l')"
  using assms by (rule reopen_append)

definition sample_log :: auditlog where
  "sample_log = \<lparr>lg_entries = [], lg_lastHash = genesis (\<lambda>b. b), lg_nextSeq = 1, lg_file = []\<rparr>"

definition sample_unmarshal :: "int \<Rightarrow> string \<Rightarrow> string \<Rightarrow> bytes \<Rightarrow> jrecord option" where
  "sample_unmarshal now t sub b = Some (toRecord (new_entry (\<lambda>b. b) now sample_log t sub []))"

lemma sample_log_open: "Open (\<lambda>b. b) u (lg_file sample_log) = Inr sample_log"
  by (simp add: Open_def scan_lines.simps last_hash_def sample_log_def)

lemma sample_codec_ok:
  "codec_ok sample_codec (sample_unmarshal now t sub) (toRecord (new_entry (\<lambda>b. b) now sample_log t sub []))"
  by (simp add: codec_ok_def sample_codec_def sample_unmarshal_def digits_no_newline toRecord_def
      new_entry_def Let_def sample_log_def max_line_def nat_str.simps digit_char_eval NL_def)

theorem reopen_after_append_witness:
  "\<exists>e l'. Append (\<lambda>b. b) sample_codec 5 IoOk sample_log ''cat_issued'' ''jti-1'' [] = (Inr e, l') \<and>
     Open (\<lambda>b. b) (sample_unmarshal 5 ''cat_issued'' ''jti-1'') (lg_file l') = Inr l'"
proof -
  obtain e l' where a: "Append (\<lambda>b. b) sample_codec 5 IoOk sample_log ''cat_issued'' ''jti-1'' [] = (Inr e, l')"
    and e: "e = new_entry (\<lambda>b. b) 5 sample_log ''cat_issued'' ''jti-1'' []"
    by (simp add: Append_def checkNoPII_def Let_def)
  have "ends_line (lg_file sample_log)" by (simp add: ends_line_def sample_log_def)
  from reopen_after_append[OF sample_log_open this a, of "sample_unmarshal 5 ''cat_issued'' ''jti-1''"] sample_codec_ok e a
  show ?thesis by blast
qed

text \<open>A failed sync makes the log unreadable. When the sync of an append fails after its line was
  written, the next successful append reuses the sequence number, and reopening the file fails with
  an out-of-sequence error.\<close>

theorem failed_sync_breaks_reopen:
  assumes "Open sha256 unmarshal (lg_file l) = Inr l" and "ends_line (lg_file l)"
    and "Append sha256 marshal now SyncFails l t sub d = (Inl AuditIO, l1)"
    and "Append sha256 marshal now' IoOk l1 t' sub' d' = (Inr e, l2)"
    and "codec_ok marshal unmarshal (toRecord (new_entry sha256 now l t sub d))"
    and "codec_ok marshal unmarshal (toRecord e)"
  shows "Open sha256 unmarshal (lg_file l2) = Inl (AuditOutOfSequence (lg_nextSeq l) (Suc (lg_nextSeq l)))"
  using assms by (rule reopen_after_failed_sync)

theorem failed_sync_breaks_reopen_witness:
  "\<exists>e l2. Append (\<lambda>b. b) sample_codec 5 IoOk
       (snd (Append (\<lambda>b. b) sample_codec 5 SyncFails sample_log ''t'' ''s'' [])) ''t'' ''s'' [] = (Inr e, l2) \<and>
     Open (\<lambda>b. b) (sample_unmarshal 5 ''t'' ''s'') (lg_file l2) = Inl (AuditOutOfSequence 1 2)"
proof -
  let ?e = "new_entry (\<lambda>b. b) 5 sample_log ''t'' ''s'' []"
  obtain l1 where l1: "Append (\<lambda>b. b) sample_codec 5 SyncFails sample_log ''t'' ''s'' [] = (Inl AuditIO, l1)"
    and m: "lg_nextSeq l1 = lg_nextSeq sample_log" "lg_lastHash l1 = lg_lastHash sample_log"
    by (simp add: Append_def checkNoPII_def Let_def)
  obtain e l2 where l2: "Append (\<lambda>b. b) sample_codec 5 IoOk l1 ''t'' ''s'' [] = (Inr e, l2)"
    and e: "e = ?e"
    using m by (simp add: Append_def checkNoPII_def Let_def new_entry_def)
  have "ends_line (lg_file sample_log)" by (simp add: ends_line_def sample_log_def)
  from failed_sync_breaks_reopen[OF sample_log_open this l1 l2, of "sample_unmarshal 5 ''t'' ''s''"]
  have "Open (\<lambda>b. b) (sample_unmarshal 5 ''t'' ''s'') (lg_file l2) = Inl (AuditOutOfSequence 1 2)"
    using sample_codec_ok e by (simp add: sample_log_def numeral_2_eq_2)
  with l1 l2 show ?thesis by auto
qed

text \<open>C33: tamper evidence. Two logs that both open successfully and have the same last hash hold the
  same entries in the same order: same numbers, times, types, subjects, details and hashes. This is
  for entries whose texts have no newline, and no equals sign in a detail key, with a 32-byte hash
  that does not collide on the preimages of the two logs.\<close>

theorem audit_last_hash_binds_history:
  assumes "\<And>x. length (sha256 x) = 32"
    and "Open sha256 u f1 = Inr l1" and "Open sha256 u f2 = Inr l2"
    and "lg_lastHash l1 = lg_lastHash l2"
    and "\<forall>e \<in> set (lg_entries l1) \<union> set (lg_entries l2). clean_entry e"
    and "inj_on sha256 (insert genesis_text (entry_preimage ` (set (lg_entries l1) \<union> set (lg_entries l2))))"
  shows "list_all2 same_entry (lg_entries l1) (lg_entries l2)"
proof (rule last_hash_binds[of sha256])
  show "last_hash (genesis sha256) (lg_entries l1) = last_hash (genesis sha256) (lg_entries l2)"
    using Open_inv[OF assms(2)] Open_inv[OF assms(3)] assms(4) by (simp add: log_inv_def)
qed (use assms Open_inv[OF assms(2)] Open_inv[OF assms(3)] in \<open>auto simp: log_inv_def\<close>)

definition pad32 :: "bytes \<Rightarrow> bytes" where
  "pad32 b = take 32 (b @ replicate 32 CHR 0x00)"

lemma length_pad32: "length (pad32 b) = 32"
  by (simp add: pad32_def)

definition sample_record :: jrecord where
  "sample_record = toRecord (new_entry pad32 9 (sample_log\<lparr>lg_lastHash := genesis pad32\<rparr>) ''t'' ''s'' [])"

lemma sample_entry_open:
  "\<exists>l. Open pad32 (\<lambda>_. Some sample_record) ''x'' = Inr l \<and>
     lg_entries l = [new_entry pad32 9 (sample_log\<lparr>lg_lastHash := genesis pad32\<rparr>) ''t'' ''s'' []]"
  by (simp add: Open_def scan_lines.simps NL_def max_line_def drop_cr_def sample_record_def
      new_entry_fields sample_log_def)

theorem audit_last_hash_binds_history_witness:
  "\<exists>l. Open pad32 (\<lambda>_. Some sample_record) ''x'' = Inr l \<and> lg_entries l \<noteq> [] \<and>
     list_all2 same_entry (lg_entries l) (lg_entries l)"
proof -
  obtain l where l: "Open pad32 (\<lambda>_. Some sample_record) ''x'' = Inr l"
    "lg_entries l = [new_entry pad32 9 (sample_log\<lparr>lg_lastHash := genesis pad32\<rparr>) ''t'' ''s'' []]"
    using sample_entry_open by blast
  let ?e = "new_entry pad32 9 (sample_log\<lparr>lg_lastHash := genesis pad32\<rparr>) ''t'' ''s'' []"
  have "entry_preimage ?e = ''1'' @ [NL] @ ''9'' @ [NL, CHR ''t'', NL, CHR ''s'', NL] @ genesis pad32"
    by (simp add: entry_preimage_def entry_lines_def detail_lines_def new_entry_def Let_def sample_log_def
        nat_str.simps int_str_def digit_char_eval)
  then have "hd (pad32 (entry_preimage ?e)) = CHR ''1''" by (simp add: pad32_def)
  moreover have "hd (pad32 genesis_text) = CHR ''s''" by (simp add: pad32_def genesis_text_def)
  ultimately have "inj_on pad32 (insert genesis_text (entry_preimage ` (set (lg_entries l) \<union> set (lg_entries l))))"
    using l(2) by auto
  moreover have "\<forall>e \<in> set (lg_entries l) \<union> set (lg_entries l). clean_entry e"
    using l(2) by (simp add: clean_entry_def new_entry_def Let_def NL_def)
  ultimately have "list_all2 same_entry (lg_entries l) (lg_entries l)"
    using audit_last_hash_binds_history[OF length_pad32 l(1) l(1) refl] by blast
  with l show ?thesis by auto
qed

text \<open>Without that condition the entry hash does not bind its fields. Moving a newline from the
  subject to the type gives a different entry with the same hash, whatever the hash function.\<close>

theorem entry_hash_ambiguous:
  "\<exists>e f. en_Type e \<noteq> en_Type f \<and> en_Subject e \<noteq> en_Subject f \<and>
     computeHash sha256 e = computeHash sha256 f \<and> en_PrevHash e = genesis sha256 \<and> en_PrevHash f = genesis sha256"
proof -
  let ?mk = "\<lambda>t s. \<lparr>en_Seq = 1, en_Time = 0, en_Type = t, en_Subject = s, en_Detail = [],
      en_PrevHash = genesis sha256, en_Hash = []\<rparr>"
  have "computeHash sha256 (?mk ''a'' (''b'' @ NL # ''c'')) = computeHash sha256 (?mk (''a'' @ NL # ''b'') ''c'')"
    by (simp add: computeHash_def entry_preimage_def entry_lines_def detail_lines_def)
  then show ?thesis
    by (intro exI[of _ "?mk ''a'' (''b'' @ NL # ''c'')"] exI[of _ "?mk (''a'' @ NL # ''b'') ''c''"]) simp
qed

text \<open>C34: inclusion proofs. For a log of fewer than \<open>2 ^ 63 - 1\<close> entries, the proof returned for every
  index verifies against the Merkle root; and any proof that verifies an entry hash at an index
  against that root shows the hash of the entry at that index, when the hash does not collide on
  the values hashed.\<close>

theorem inclusion_proofs_exact:
  assumes "length es < 2 ^ 63 - 1"
  shows "(\<forall>i < length es. \<exists>path. MerkleProof sha256 es (int i) = Some path \<and>
      VerifyInclusion sha256 (en_Hash (es ! i)) (int i) (int (length es)) path (MerkleRoot sha256 es)) \<and>
    (\<forall>h i path. VerifyInclusion sha256 h (int i) (int (length es)) path (MerkleRoot sha256 es) \<and>
       al_safe sha256 es h i path \<longrightarrow> i < length es \<and> h = en_Hash (es ! i))"
proof (intro conjI allI impI)
  fix i assume "i < length es"
  then show "\<exists>path. MerkleProof sha256 es (int i) = Some path \<and>
      VerifyInclusion sha256 (en_Hash (es ! i)) (int i) (int (length es)) path (MerkleRoot sha256 es)"
    using al.complete[of es i sha256] assms by (auto simp: al_verify_def split: option.splits)
qed (use inclusion_sound[OF assms] in blast)+

definition sample_entries :: "entry list" where
  "sample_entries = map (\<lambda>h. \<lparr>en_Seq = 1, en_Time = 0, en_Type = [], en_Subject = [], en_Detail = [],
     en_PrevHash = [], en_Hash = h\<rparr>) [''a'', ''b'', ''c'']"

theorem inclusion_proofs_exact_witness:
  "\<exists>path. MerkleProof (\<lambda>b. b) sample_entries (int 2) = Some path \<and>
     VerifyInclusion (\<lambda>b. b) (en_Hash (sample_entries ! 2)) (int 2) (int (length sample_entries)) path
       (MerkleRoot (\<lambda>b. b) sample_entries)"
proof -
  have len: "length sample_entries < 2 ^ 63 - 1" by (simp add: sample_entries_def)
  have "(2::nat) < length sample_entries" by (simp add: sample_entries_def)
  with inclusion_proofs_exact[OF len, of "\<lambda>b. b"] show ?thesis by blast
qed

text \<open>C35: the level-by-level root of the audit log is the Merkle tree hash of RFC 6962, which splits a
  list at the largest power of two below its length.\<close>

theorem merkle_root_is_rfc6962:
  "es \<noteq> [] \<Longrightarrow> MerkleRoot sha256 es = mth (hashInterior sha256) (map (\<lambda>e. hashLeaf sha256 (en_Hash e)) es)"
  by (simp add: MerkleRoot_def tree_root_is_mth)

theorem merkle_root_is_rfc6962_witness:
  "MerkleRoot (\<lambda>b. b) sample_entries =
     mth (hashInterior (\<lambda>b. b)) (map (\<lambda>e. hashLeaf (\<lambda>b. b) (en_Hash e)) sample_entries)"
  by (rule merkle_root_is_rfc6962) (simp add: sample_entries_def)

text \<open>C36: a witness never attests two histories. Over any sequence of \<open>Cosign\<close> requests to a fresh
  witness, of the logs it co-signed every earlier one is a prefix, hash by hash, of every later one.
  The hash has 32 bytes and does not collide on the trees of the presented logs.\<close>

theorem witness_attests_one_history:
  assumes "\<And>x. length (sha256 x) = 32"
    and "NewWitness keysize wid key = Inr w"
    and "run_safe sha256 (insert [] ((\<lambda>(sr, pub, es). es) ` set requests))"
    and "i < j" and "j < length (attested sha256 sign v w requests)"
  shows "prefix (map en_Hash (attested sha256 sign v w requests ! i))
    (map en_Hash (attested sha256 sign v w requests ! j))"
proof -
  have "anchored sha256 w []"
    using assms(2) by (intro anchored_fresh) (auto simp: NewWitness_def split: if_splits)
  then have "sorted_wrt (\<lambda>a b. prefix (map en_Hash a) (map en_Hash b)) ([] # attested sha256 sign v w requests)"
    using attested_prefixes[OF assms(1,3), of "[]" requests w sign v] by force
  then have "sorted_wrt (\<lambda>a b. prefix (map en_Hash a) (map en_Hash b)) (attested sha256 sign v w requests)"
    by simp
  from sorted_wrt_nth_less[OF this assms(4,5)] show ?thesis .
qed

definition sample_head :: "entry list \<Rightarrow> signedroot" where
  "sample_head es = \<lparr>sr_Root = MerkleRoot pad32 es, sr_Count = int (length es), sr_Time = 0, sr_Sig = []\<rparr>"

definition sample_witness :: "unit witness" where
  "sample_witness = \<lparr>wt_id = ''w1'', wt_key = (), wt_lastCount = 0, wt_lastRoot = []\<rparr>"

definition sample_requests :: "(signedroot \<times> bytes \<times> entry list) list" where
  "sample_requests = map (\<lambda>n. (sample_head (take n sample_entries), [], take n sample_entries)) [1, 2]"

lemma sample_attested:
  "attested pad32 (\<lambda>_ _. []) (\<lambda>_ _ _. True) sample_witness sample_requests =
     [take 1 sample_entries, take 2 sample_entries]"
  by (simp add: sample_requests_def sample_witness_def sample_head_def Cosign_def VerifyRoot_def
      sample_entries_def MerkleRoot_def)

lemma two_leaf_tree_pairs: "tree_pairs node (take n [x, y]) \<subseteq> {(x, y)}"
  by (cases n; cases "n - 1") (auto simp: tree_pairs.simps)

lemma sample_run_safe: "run_safe pad32 {[], take 1 sample_entries, take 2 sample_entries}"
proof -
  let ?n = "hashInterior pad32" and ?a = "hashLeaf pad32 ''a''" and ?b = "hashLeaf pad32 ''b''"
  have l: "leaves_of pad32 sample_entries = [?a, ?b, hashLeaf pad32 ''c'']" by (simp add: sample_entries_def)
  have t: "leaves_of pad32 (take n es) \<in> (\<lambda>m. take m [?a, ?b]) ` UNIV"
    if "es \<in> {[], take 1 sample_entries, take 2 sample_entries}" for n es
  proof -
    from that obtain k where k: "es = take k sample_entries" "k \<le> 2"
      by (metis insertE singletonD take_0 zero_le one_le_numeral order_refl)
    have "leaves_of pad32 (take n es) = take (min n k) (take 2 (leaves_of pad32 sample_entries))"
      using k by (simp add: take_map[symmetric] min.absorb1 min.coboundedI2)
    then show ?thesis unfolding l by auto
  qed
  have "tree_pairs ?n (leaves_of pad32 (take n es)) \<subseteq> {(?a, ?b)}"
    if "es \<in> {[], take 1 sample_entries, take 2 sample_entries}" for n es
  proof -
    from t[OF that, of n] obtain m where "leaves_of pad32 (take n es) = take m [?a, ?b]" by blast
    then show ?thesis using two_leaf_tree_pairs[of ?n m ?a ?b] by simp
  qed
  then have "(\<Union>es \<in> {[], take 1 sample_entries, take 2 sample_entries}.
      \<Union>n. tree_pairs ?n (leaves_of pad32 (take n es))) \<subseteq> {(?a, ?b)}" by blast
  moreover have "collision_free ?n {(?a, ?b)}" by (simp add: collision_free_def)
  ultimately have "collision_free ?n (\<Union>es \<in> {[], take 1 sample_entries, take 2 sample_entries}.
      \<Union>n. tree_pairs ?n (leaves_of pad32 (take n es)))"
    using collision_free_subset by blast
  moreover have "?a \<noteq> ?b" by (simp add: hashLeaf_def pad32_def)
  moreover have "(\<Union>es \<in> {[], take 1 sample_entries, take 2 sample_entries}. en_Hash ` set es) = {''a'', ''b''}"
    by (auto simp: sample_entries_def)
  ultimately show ?thesis by (auto simp: run_safe_def)
qed

theorem witness_attests_one_history_witness:
  "prefix (map en_Hash (take 1 sample_entries)) (map en_Hash (take 2 sample_entries))"
proof -
  have w: "NewWitness (\<lambda>_. 64) ''w1'' () = Inr sample_witness"
    by (simp add: NewWitness_def sample_witness_def)
  have r: "run_safe pad32 (insert [] ((\<lambda>(sr, pub, es). es) ` set sample_requests))"
    using sample_run_safe by (simp add: sample_requests_def)
  show ?thesis
    using witness_attests_one_history[OF length_pad32 w r, of 0 1 "\<lambda>_ _. []" "\<lambda>_ _ _. True"]
    by (simp add: sample_attested)
qed

text \<open>\<open>VerifyCosigned\<close> accepts exactly when the operator matches and signed the head, and at least
  \<open>threshold\<close> distinct known witnesses have a valid co-signature over this head and operator.\<close>

lemma cosigned_threshold_iff:
  "VerifyCosigned v cr operatorPub ws threshold = Inr () \<longleftrightarrow>
     cr_OperatorPub cr = operatorPub \<and> v operatorPub (signingBytes (cr_SignedRoot cr)) (sr_Sig (cr_SignedRoot cr)) \<and>
     threshold \<le> int (card {i. \<exists>cs \<in> set (cr_Cosigs cr). ws_WitnessID cs = i \<and>
        (\<exists>pub. map_of ws i = Some pub \<and> length pub = 32 \<and> length (ws_Sig cs) = 64 \<and>
           v pub (witnessPreimage operatorPub (cr_SignedRoot cr)) (ws_Sig cs))})"
proof -
  let ?c = "count_cosigs v (witnessPreimage operatorPub (cr_SignedRoot cr)) ws [] (cr_Cosigs cr)"
  have "distinct ?c" using count_cosigs_spec[of "[]"] by simp
  then have "length ?c = card (set ?c)" by (rule distinct_card[symmetric])
  then show ?thesis
    using count_cosigs_spec[of "[]" v "witnessPreimage operatorPub (cr_SignedRoot cr)" ws "cr_Cosigs cr"]
    by (auto simp: VerifyCosigned_def VerifyRoot_def Let_def not_less)
qed

end
