(* ===== verification/Scope.thy ===== *)
theory Scope
  imports Ledger
begin

text \<open>
  The task-based access control algebra (src/internal/tbac/scope.go): the containment order on
  scopes, attenuation, root intersection, and the projection of a transaction onto a scope.

  A scope is an association list from dimension names to decoded values. \<open>Contains\<close> and
  \<open>valueContained\<close> are mutually recursive as in the source, down the child scope. Error values
  carry the dimension and the reason, not the formatted text.
\<close>

section \<open>Directions\<close>

datatype direction = DirCeiling

definition cumulativeDim :: string where
  "cumulativeDim = ''max_cumulative''"

definition numericDirection :: "direction gomap" where
  "numericDirection = [(''max_amount'', DirCeiling), (''max'', DirCeiling), (''tier'', DirCeiling),
     (''max_cumulative'', DirCeiling)]"

definition directionOf :: "string \<Rightarrow> direction option" where
  "directionOf dm = map_of numericDirection dm"

datatype scope_err =
    NotInParent string
  | NotPermitted string
  | UndeclaredNumeric string
  | TypeMismatch
  | ExceedsCeiling rat rat
  | NotEqual
  | NotSubset
  | InDim string scope_err
  | CeilingUnqualified string
  | AmountRejected amount_err

section \<open>Containment\<close>

definition subset_vals :: "gval list \<Rightarrow> gval list \<Rightarrow> bool" where
  "subset_vals c p = list_all (\<lambda>x. list_ex (\<lambda>y. equalValue y x) p) c"

fun valueContained :: "string \<Rightarrow> gval \<Rightarrow> gval \<Rightarrow> scope_err + unit"
  and Contains :: "scope \<Rightarrow> scope \<Rightarrow> scope_err + unit" where
  "valueContained dm parent child =
     (case toRat parent of
        Some pr \<Rightarrow>
          (case toRat child of
             None \<Rightarrow> Inl TypeMismatch
           | Some cr \<Rightarrow>
               (case directionOf dm of
                  None \<Rightarrow> Inl (UndeclaredNumeric dm)
                | Some DirCeiling \<Rightarrow> if cr > pr then Inl (ExceedsCeiling cr pr) else Inr ()))
      | None \<Rightarrow>
          (case parent of
             GStr p \<Rightarrow> if child = GStr p then Inr () else Inl NotEqual
           | GBool p \<Rightarrow> if child = GBool p then Inr () else Inl NotEqual
           | GList p \<Rightarrow>
               (case child of
                  GList c \<Rightarrow> if subset_vals c p then Inr () else Inl NotSubset
                | _ \<Rightarrow> Inl TypeMismatch)
           | GMap p \<Rightarrow>
               (case child of
                  GMap c \<Rightarrow> Contains p c
                | _ \<Rightarrow> Inl TypeMismatch)
           | _ \<Rightarrow> if deep_equal parent child then Inr () else Inl NotEqual))"
| "Contains parent [] = Inr ()"
| "Contains parent ((dm, cv) # child) =
     (case map_of parent dm of
        None \<Rightarrow> Inl (NotInParent dm)
      | Some pv \<Rightarrow>
          (case valueContained dm pv cv of
             Inl e \<Rightarrow> Inl (InDim dm e)
           | Inr _ \<Rightarrow> Contains parent child))"

declare valueContained.simps [simp del]

definition Attenuate :: "scope \<Rightarrow> scope \<Rightarrow> scope_err + scope" where
  "Attenuate parent request = (case Contains parent request of Inl e \<Rightarrow> Inl e | Inr _ \<Rightarrow> Inr request)"

section \<open>Root intersection\<close>

definition listIntersect :: "gval list \<Rightarrow> gval list \<Rightarrow> gval list" where
  "listIntersect permitted requested =
     filter (\<lambda>r. list_ex (\<lambda>p. equalValue p r) permitted) requested"

text \<open>The second loop of \<open>Intersect\<close>: the first requested dimension that the policy does not grant.\<close>

definition not_permitted :: "scope \<Rightarrow> scope \<Rightarrow> string option" where
  "not_permitted permitted requested = map_option fst (find (\<lambda>(k, _). \<not> has_key permitted k) requested)"

fun glb :: "string \<Rightarrow> gval \<Rightarrow> gval \<Rightarrow> scope_err + gval"
  and intersect_dims :: "scope \<Rightarrow> scope \<Rightarrow> scope_err + scope" where
  "glb dm permitted requested =
     (case toRat permitted of
        Some pr \<Rightarrow>
          (case toRat requested of
             None \<Rightarrow> Inl TypeMismatch
           | Some rr \<Rightarrow>
               (case directionOf dm of
                  None \<Rightarrow> Inl (UndeclaredNumeric dm)
                | Some DirCeiling \<Rightarrow> if rr \<le> pr then Inr requested else Inr permitted))
      | None \<Rightarrow>
          (case permitted of
             GStr p \<Rightarrow>
               (case requested of
                  GStr r \<Rightarrow> if r \<noteq> p then Inl NotEqual else Inr (GStr p)
                | _ \<Rightarrow> Inl TypeMismatch)
           | GBool p \<Rightarrow>
               (case requested of
                  GBool r \<Rightarrow> if r \<noteq> p then Inl NotEqual else Inr (GBool p)
                | _ \<Rightarrow> Inl TypeMismatch)
           | GList p \<Rightarrow>
               (case requested of
                  GList r \<Rightarrow> Inr (GList (listIntersect p r))
                | _ \<Rightarrow> Inl TypeMismatch)
           | GMap p \<Rightarrow>
               (case requested of
                  GMap r \<Rightarrow>
                    (case intersect_dims p r of
                       Inl e \<Rightarrow> Inl e
                     | Inr out \<Rightarrow>
                         (case not_permitted p r of
                            Some d \<Rightarrow> Inl (NotPermitted d)
                          | None \<Rightarrow> Inr (GMap out)))
                | _ \<Rightarrow> Inl TypeMismatch)
           | _ \<Rightarrow> if deep_equal permitted requested then Inr permitted else Inl NotEqual))"
| "intersect_dims [] requested = Inr []"
| "intersect_dims ((dm, pv) # permitted) requested =
     (case map_of requested dm of
        None \<Rightarrow>
          (case intersect_dims permitted requested of
             Inl e \<Rightarrow> Inl e
           | Inr out \<Rightarrow> Inr ((dm, pv) # out))
      | Some rv \<Rightarrow>
          (case glb dm pv rv of
             Inl e \<Rightarrow> Inl (InDim dm e)
           | Inr gv \<Rightarrow>
               (case intersect_dims permitted requested of
                  Inl e \<Rightarrow> Inl e
                | Inr out \<Rightarrow> Inr ((dm, gv) # out))))"

declare glb.simps [simp del]

definition Intersect :: "scope \<Rightarrow> scope \<Rightarrow> scope_err + scope" where
  "Intersect permitted requested =
     (case intersect_dims permitted requested of
        Inl e \<Rightarrow> Inl e
      | Inr out \<Rightarrow>
          (case not_permitted permitted requested of
             Some d \<Rightarrow> Inl (NotPermitted d)
           | None \<Rightarrow> Inr out))"

section \<open>Projection of a transaction\<close>

definition project_ceiling :: "string \<Rightarrow> scope \<Rightarrow> txnctx \<Rightarrow> scope_err + scope" where
  "project_ceiling dm parent tc =
     (if has_key parent dm then
        if \<not> has_key parent ''currency'' then Inl (CeilingUnqualified dm)
        else case ParseAmount (tc_Amount tc) of
            Inl e \<Rightarrow> Inl (AmountRejected e)
          | Inr _ \<Rightarrow> Inr [(dm, GNum (tc_Amount tc))]
      else Inr [])"

definition TxnScope :: "scope \<Rightarrow> txnctx \<Rightarrow> scope_err + scope" where
  "TxnScope parent tc =
     (case project_ceiling ''max_amount'' parent tc of
        Inl e \<Rightarrow> Inl e
      | Inr a \<Rightarrow>
          (case project_ceiling cumulativeDim parent tc of
             Inl e \<Rightarrow> Inl e
           | Inr b \<Rightarrow>
               Inr (a @ b @
                 (if has_key parent ''currency'' then [(''currency'', GStr (tc_Currency tc))] else []))))"

section \<open>Containment is a preorder\<close>

lemma Contains_ok:
  "is_ok (Contains p c) \<longleftrightarrow>
     (\<forall>(k, cv) \<in> set c. \<exists>pv. map_of p k = Some pv \<and> is_ok (valueContained k pv cv))"
proof (induction c)
  case (Cons x c)
  then show ?case by (cases x) (auto split: option.splits sum.splits)
qed simp

lemma Contains_Inr: "Contains p c = Inr u \<longleftrightarrow> is_ok (Contains p c)"
  by (cases "Contains p c") auto

lemma Contains_lookup:
  assumes "is_ok (Contains p c)" and "map_of c k = Some cv"
  shows "\<exists>pv. map_of p k = Some pv \<and> is_ok (valueContained k pv cv)"
  using assms map_of_SomeD[OF assms(2)] by (auto simp: Contains_ok)

lemma valueContained_numeric:
  assumes "toRat p = Some x"
  shows "is_ok (valueContained d p c) \<longleftrightarrow> (\<exists>y. toRat c = Some y \<and> directionOf d \<noteq> None \<and> y \<le> x)"
  using assms by (auto simp: valueContained.simps split: option.splits direction.splits)

lemma valueContained_shapes:
  "is_ok (valueContained d (GStr s) c) \<longleftrightarrow> c = GStr s"
  "is_ok (valueContained d (GBool b) c) \<longleftrightarrow> c = GBool b"
  "is_ok (valueContained d (GList xs) c) \<longleftrightarrow> (\<exists>ys. c = GList ys \<and> subset_vals ys xs)"
  "is_ok (valueContained d (GMap m) c) \<longleftrightarrow> (\<exists>n. c = GMap n \<and> is_ok (Contains m n))"
  by (auto simp: valueContained.simps split: gval.splits)

definition opaque :: "gval \<Rightarrow> bool" where
  "opaque v = (toRat v = None \<and> (\<forall>s. v \<noteq> GStr s) \<and> (\<forall>b. v \<noteq> GBool b) \<and>
     (\<forall>xs. v \<noteq> GList xs) \<and> (\<forall>m. v \<noteq> GMap m))"

lemma valueContained_opaque:
  "opaque v \<Longrightarrow> is_ok (valueContained d v c) \<longleftrightarrow> deep_equal v c"
  by (auto simp: valueContained.simps opaque_def split: gval.splits)

lemma gval_shape_cases [case_names Num Str Bool List Map Opaque]:
  obtains x where "toRat v = Some x" | s where "v = GStr s" | b where "v = GBool b"
  | xs where "v = GList xs" | m where "v = GMap m" | "opaque v"
  unfolding opaque_def by (cases "toRat v") blast+

lemma deep_equal_opaque: "opaque a \<Longrightarrow> deep_equal a b \<Longrightarrow> opaque b"
  by (cases a) (auto simp: opaque_def split: gval.splits dest: float_eq_rat)

lemma subset_vals_trans:
  assumes "subset_vals b a" and "subset_vals c b"
  shows "subset_vals c a"
  using assms equalValue_trans by (fastforce simp: subset_vals_def list_all_iff list_ex_iff)

lemma valueContained_trans:
  "is_ok (valueContained d a b) \<Longrightarrow> is_ok (valueContained d b c) \<Longrightarrow> is_ok (valueContained d a c)"
proof (induction c arbitrary: d a b rule: measure_induct_rule[where f = size])
  case (less c)
  show ?case
  proof (cases a rule: gval_shape_cases)
    case (Num x)
    with less.prems(1) obtain y where y: "toRat b = Some y" "directionOf d \<noteq> None" "y \<le> x"
      by (auto simp: valueContained_numeric)
    with less.prems(2) obtain z where "toRat c = Some z" "z \<le> y"
      by (auto simp: valueContained_numeric)
    with y Num show ?thesis by (auto simp: valueContained_numeric)
  next
    case (List xs)
    with less.prems show ?thesis
      by (auto simp: valueContained_shapes) (blast intro: subset_vals_trans)
  next
    case (Map m)
    with less.prems obtain n p where n: "b = GMap n" "is_ok (Contains m n)"
      and p: "c = GMap p" "is_ok (Contains n p)"
      by (auto simp: valueContained_shapes)
    have "\<exists>av. map_of m k = Some av \<and> is_ok (valueContained k av v)" if kv: "(k, v) \<in> set p" for k v
    proof -
      from p(2) kv obtain bv where bv: "map_of n k = Some bv" "is_ok (valueContained k bv v)"
        by (auto simp: Contains_ok)
      from Contains_lookup[OF n(2) bv(1)] obtain av where av: "map_of m k = Some av"
        "is_ok (valueContained k av bv)" by blast
      have "size v < size c" using kv p(1) size_list_pair_lt by fastforce
      from less.IH[OF this av(2) bv(2)] av(1) show ?thesis by blast
    qed
    then have "is_ok (Contains m p)" by (auto simp: Contains_ok)
    with Map p(1) show ?thesis by (simp add: valueContained_shapes)
  next
    case Opaque
    with less.prems have "deep_equal a b" "opaque b"
      by (auto simp: valueContained_opaque intro: deep_equal_opaque)
    with less.prems Opaque show ?thesis
      by (auto simp: valueContained_opaque intro: deep_equal_trans)
  qed (use less.prems in \<open>auto simp: valueContained_shapes\<close>)
qed

lemma Contains_trans:
  assumes "is_ok (Contains a b)" and "is_ok (Contains b c)"
  shows "is_ok (Contains a c)"
proof -
  have "is_ok (valueContained d (GMap a) (GMap c))" for d
    using valueContained_trans[of d "GMap a" "GMap b" "GMap c"] assms
    by (simp add: valueContained_shapes)
  then show ?thesis by (simp add: valueContained_shapes)
qed

text \<open>
  Containment is reflexive on the scopes an issuer may seal: distinct keys, no NaN, and every
  numeric dimension declared.
\<close>

fun declared_val :: "string \<Rightarrow> gval \<Rightarrow> bool" where
  "declared_val d v = ((toRat v \<noteq> None \<longrightarrow> directionOf d \<noteq> None) \<and>
     (case v of GMap m \<Rightarrow> list_all (\<lambda>(k, w). declared_val k w) m | _ \<Rightarrow> True))"

declare declared_val.simps [simp del]

definition sealed_scope :: "scope \<Rightarrow> bool" where
  "sealed_scope s = (wf_scope s \<and> list_all (\<lambda>(k, v). declared_val k v \<and> nan_free v) s)"

lemma subset_vals_refl: "list_all wf_val xs \<Longrightarrow> list_all nan_free xs \<Longrightarrow> subset_vals xs xs"
  using equalValue_refl by (fastforce simp: subset_vals_def list_all_iff list_ex_iff)

lemma valueContained_refl:
  "wf_val v \<Longrightarrow> nan_free v \<Longrightarrow> declared_val d v \<Longrightarrow> is_ok (valueContained d v v)"
proof (induction v arbitrary: d rule: measure_induct_rule[where f = size])
  case (less v)
  show ?case
  proof (cases v rule: gval_shape_cases)
    case (Num x)
    with less.prems(3) show ?thesis by (auto simp: valueContained_numeric declared_val.simps)
  next
    case (List xs)
    with less.prems show ?thesis by (auto simp: valueContained_shapes intro: subset_vals_refl)
  next
    case (Map m)
    have "\<exists>pv. map_of m k = Some pv \<and> is_ok (valueContained k pv w)" if kv: "(k, w) \<in> set m" for k w
    proof -
      have "size w < size v" using kv Map size_list_pair_lt by fastforce
      moreover have "wf_val w" "nan_free w" "declared_val k w"
        using kv Map less.prems
        by (auto simp: declared_val.simps[of d] list_all_iff wf_scope_def)
      ultimately have "is_ok (valueContained k w w)" using less.IH by blast
      moreover have "map_of m k = Some w" using kv Map less.prems by (simp add: wf_scope_def wf_map_def)
      ultimately show ?thesis by blast
    qed
    with Map show ?thesis by (auto simp: valueContained_shapes Contains_ok)
  next
    case Opaque
    with less.prems show ?thesis by (simp add: valueContained_opaque deep_equal_refl)
  qed (use less.prems in \<open>auto simp: valueContained_shapes\<close>)
qed

lemma Contains_refl: "sealed_scope s \<Longrightarrow> is_ok (Contains s s)"
  unfolding Contains_ok
proof (clarify)
  fix k v assume s: "sealed_scope s" and kv: "(k, v) \<in> set s"
  then have "is_ok (valueContained k v v)"
    by (auto simp: sealed_scope_def wf_scope_def list_all_iff intro!: valueContained_refl)
  moreover have "map_of s k = Some v" using s kv by (simp add: sealed_scope_def wf_scope_def wf_map_def)
  ultimately show "\<exists>pv. map_of s k = Some pv \<and> is_ok (valueContained k pv v)" by blast
qed

section \<open>Delegation chains\<close>

text \<open>
  The contract of one delegation hop: the authority of the child lies within the authority of the
  parent, and this composes. A chain is the list of authorities from the root downwards.
\<close>

locale attenuation =
  fixes leq :: "'s \<Rightarrow> 's \<Rightarrow> bool"
  assumes leq_trans: "leq a b \<Longrightarrow> leq b c \<Longrightarrow> leq a c"
begin

lemma chain_from_head:
  assumes "\<forall>i. Suc i < length (s # ss) \<longrightarrow> leq ((s # ss) ! i) ((s # ss) ! Suc i)"
    and "t \<in> set ss"
  shows "leq s t"
  using assms
proof (induction ss arbitrary: s)
  case (Cons u ss)
  have su: "leq s u" using Cons.prems(1)[rule_format, of 0] by simp
  show ?case
  proof (cases "t = u")
    case False
    then have "t \<in> set ss" using Cons.prems by simp
    moreover have "\<forall>i. Suc i < length (u # ss) \<longrightarrow> leq ((u # ss) ! i) ((u # ss) ! Suc i)"
      using Cons.prems(1) by (metis Suc_less_eq length_Cons nth_Cons_Suc)
    ultimately have "leq u t" using Cons.IH by blast
    with su show ?thesis by (rule leq_trans)
  qed (use su in simp)
qed simp

end

interpretation scope_hop: attenuation "\<lambda>p c. is_ok (Contains p c)"
  by unfold_locales (rule Contains_trans)

section \<open>Intersection\<close>

lemma intersect_dims_keys: "intersect_dims p r = Inr out \<Longrightarrow> map fst out = map fst p"
  by (induction p arbitrary: out) (auto split: option.splits sum.splits)

lemma intersect_dims_lookup:
  assumes "intersect_dims p r = Inr out" and "map_of p k = Some pv"
  shows "(map_of r k = None \<longrightarrow> map_of out k = Some pv) \<and>
    (\<forall>rv. map_of r k = Some rv \<longrightarrow> (\<exists>gv. glb k pv rv = Inr gv \<and> map_of out k = Some gv))"
  using assms by (induction p arbitrary: out) (auto split: option.splits sum.splits if_splits)

lemma not_permitted_None: "not_permitted p r = None \<longleftrightarrow> (\<forall>(k, v) \<in> set r. has_key p k)"
  by (auto simp: not_permitted_def find_None_iff)

lemma Intersect_Inr:
  "Intersect p r = Inr out \<longleftrightarrow> intersect_dims p r = Inr out \<and> (\<forall>(k, v) \<in> set r. has_key p k)"
  by (auto simp: Intersect_def not_permitted_None split: sum.splits option.splits)
     (metis not_permitted_None option.distinct(1) case_prodI2)+

lemma glb_GMap:
  "glb d (GMap p) r = Inr g \<longleftrightarrow> (\<exists>m out. r = GMap m \<and> Intersect p m = Inr out \<and> g = GMap out)"
  by (auto simp: glb.simps Intersect_def split: gval.splits sum.splits option.splits)

lemma glb_GList:
  "glb d (GList p) r = Inr g \<longleftrightarrow> (\<exists>m. r = GList m \<and> g = GList (listIntersect p m))"
  by (auto simp: glb.simps split: gval.splits)

lemma glb_numeric:
  assumes "toRat p = Some x"
  shows "glb d p r = Inr g \<longleftrightarrow>
    (\<exists>y. toRat r = Some y \<and> directionOf d \<noteq> None \<and> g = (if y \<le> x then r else p))"
  using assms by (auto simp: glb.simps split: option.splits direction.splits)

lemma glb_atom:
  assumes "opaque p \<or> (\<exists>s. p = GStr s) \<or> (\<exists>b. p = GBool b)" and "glb d p r = Inr g"
  shows "g = p"
  using assms by (auto simp: glb.simps opaque_def split: gval.splits if_splits)

lemma listIntersect_subset: "subset_vals (listIntersect p r) p"
  by (auto simp: subset_vals_def listIntersect_def list_all_iff)

lemma glb_contained:
  "glb d p r = Inr g \<Longrightarrow> wf_val p \<Longrightarrow> nan_free p \<Longrightarrow> declared_val d p \<Longrightarrow> is_ok (valueContained d p g)"
proof (induction p arbitrary: d r g rule: measure_induct_rule[where f = size])
  case (less p)
  show ?case
  proof (cases p rule: gval_shape_cases)
    case (Num x)
    with less.prems show ?thesis by (auto simp: glb_numeric valueContained_numeric)
  next
    case (List xs)
    with less.prems show ?thesis
      by (auto simp: glb_GList valueContained_shapes listIntersect_subset)
  next
    case (Map m)
    with less.prems obtain n out where n: "r = GMap n" "intersect_dims m n = Inr out" "g = GMap out"
      by (auto simp: glb_GMap Intersect_Inr)
    have wf: "wf_map m" "wf_map out"
      using less.prems Map intersect_dims_keys[OF n(2)] by (auto simp: wf_map_def)
    have "\<exists>pv. map_of m k = Some pv \<and> is_ok (valueContained k pv w)" if kw: "(k, w) \<in> set out" for k w
    proof -
      have w: "map_of out k = Some w" using kw wf(2) by (simp add: wf_map_lookup)
      have "k \<in> fst ` set m" using kw intersect_dims_keys[OF n(2)] by (metis fst_conv image_eqI set_map)
      then obtain pv where pv: "map_of m k = Some pv" "(k, pv) \<in> set m"
        using wf(1) by (auto simp: wf_map_lookup)
      have s: "size pv < size p" using pv(2) Map size_list_pair_lt by fastforce
      have ok: "wf_val pv" "nan_free pv" "declared_val k pv"
        using pv(2) Map less.prems by (auto simp: declared_val.simps[of d] list_all_iff)
      show ?thesis
      proof (cases "map_of n k")
        case None
        with intersect_dims_lookup[OF n(2) pv(1)] w have "w = pv" by simp
        with pv(1) valueContained_refl ok show ?thesis by blast
      next
        case (Some rv)
        with intersect_dims_lookup[OF n(2) pv(1)] w have "glb k pv rv = Inr w" by auto
        from less.IH[OF s this] ok pv(1) show ?thesis by blast
      qed
    qed
    with Map n(3) show ?thesis by (auto simp: valueContained_shapes Contains_ok)
  qed (use less.prems glb_atom valueContained_refl in metis)+
qed

lemma listIntersect_greatest:
  assumes "list_all wf_val r" and "list_all wf_val s" and "subset_vals s p" and "subset_vals s r"
  shows "subset_vals s (listIntersect p r)"
  unfolding subset_vals_def list_all_iff
proof
  fix x assume x: "x \<in> set s"
  from assms(3,4) x obtain a b where a: "a \<in> set p" "equalValue a x" and b: "b \<in> set r" "equalValue b x"
    unfolding subset_vals_def list_all_iff list_ex_iff by blast
  have "equalValue x b" using b assms(1,2) x by (auto simp: list_all_iff intro: equalValue_sym)
  with a have "equalValue a b" by (blast intro: equalValue_trans)
  with a b show "list_ex (\<lambda>y. equalValue y x) (listIntersect p r)"
    by (auto simp: listIntersect_def list_ex_iff)
qed

lemma glb_greatest:
  "glb d p r = Inr g \<Longrightarrow> wf_val r \<Longrightarrow> wf_val s \<Longrightarrow> is_ok (valueContained d p s) \<Longrightarrow>
   is_ok (valueContained d r s) \<Longrightarrow> is_ok (valueContained d g s)"
proof (induction p arbitrary: d r g s rule: measure_induct_rule[where f = size])
  case (less p)
  show ?case
  proof (cases p rule: gval_shape_cases)
    case (Num x)
    with less.prems show ?thesis by (auto simp: glb_numeric split: if_splits)
  next
    case (List xs)
    with less.prems show ?thesis
      by (auto simp: glb_GList valueContained_shapes intro: listIntersect_greatest)
  next
    case (Map m)
    with less.prems obtain n out t where n: "r = GMap n" "intersect_dims m n = Inr out" "g = GMap out"
      and t: "s = GMap t" "is_ok (Contains m t)" "is_ok (Contains n t)"
      by (auto simp: glb_GMap Intersect_Inr valueContained_shapes)
    have "\<exists>gv. map_of out k = Some gv \<and> is_ok (valueContained k gv w)" if kw: "(k, w) \<in> set t" for k w
    proof -
      from t kw obtain pv rv where pv: "map_of m k = Some pv" "is_ok (valueContained k pv w)"
        and rv: "map_of n k = Some rv" "is_ok (valueContained k rv w)"
        by (fastforce simp: Contains_ok)
      from intersect_dims_lookup[OF n(2) pv(1)] rv obtain gv where
        gv: "glb k pv rv = Inr gv" "map_of out k = Some gv" by auto
      have "size pv < size p" using map_of_SomeD[OF pv(1)] Map size_list_pair_lt by fastforce
      moreover have "wf_val rv" "wf_val w"
        using map_of_SomeD[OF rv(1)] kw n(1) t(1) less.prems by (auto simp: list_all_iff)
      ultimately show ?thesis using less.IH gv pv rv by blast
    qed
    with n(3) t(1) show ?thesis by (auto simp: valueContained_shapes Contains_ok)
  qed (use less.prems glb_atom in metis)+
qed

lemma Intersect_contained:
  assumes "sealed_scope p" and "Intersect p r = Inr out"
  shows "is_ok (Contains p out)"
proof -
  have "is_ok (valueContained [] (GMap p) (GMap out))"
    by (rule glb_contained[of _ _ "GMap r"])
       (use assms in \<open>auto simp: glb_GMap sealed_scope_def wf_scope_def list_all_iff declared_val.simps[of "[]"]\<close>)
  then show ?thesis by (simp add: valueContained_shapes)
qed

lemma Intersect_ceiling:
  assumes "Intersect p r = Inr out" and "map_of p k = Some pv" and "toRat pv = Some x"
    and "map_of r k = Some rv"
  shows "\<exists>y gv. toRat rv = Some y \<and> map_of out k = Some gv \<and> toRat gv = Some (min x y)"
proof -
  from assms(1) have "intersect_dims p r = Inr out" by (simp add: Intersect_Inr)
  from intersect_dims_lookup[OF this assms(2)] assms(4) obtain gv where
    "glb k pv rv = Inr gv" "map_of out k = Some gv" by auto
  with assms(3) show ?thesis by (auto simp: glb_numeric min_def split: if_splits)
qed

section \<open>What a contained transaction obeys\<close>

lemma project_ceiling_ok:
  "project_ceiling d parent tc = Inr s \<longleftrightarrow>
     (if has_key parent d
      then has_key parent ''currency'' \<and> is_ok (ParseAmount (tc_Amount tc)) \<and> s = [(d, GNum (tc_Amount tc))]
      else s = [])"
  by (auto simp: project_ceiling_def is_ok_iff split: sum.splits if_splits)

lemma TxnScope_ok:
  "TxnScope parent tc = Inr s \<longleftrightarrow>
     (\<exists>a b. project_ceiling ''max_amount'' parent tc = Inr a \<and> project_ceiling cumulativeDim parent tc = Inr b \<and>
        s = a @ b @ (if has_key parent ''currency'' then [(''currency'', GStr (tc_Currency tc))] else []))"
  by (auto simp: TxnScope_def split: sum.splits)

definition money_dims :: "string list" where
  "money_dims = [''max_amount'', cumulativeDim]"

lemma TxnScope_projects:
  assumes "TxnScope parent tc = Inr s" and "d \<in> set money_dims" and "has_key parent d"
  shows "(d, GNum (tc_Amount tc)) \<in> set s" "(''currency'', GStr (tc_Currency tc)) \<in> set s"
    "is_ok (ParseAmount (tc_Amount tc))"
  using assms by (auto simp: TxnScope_ok project_ceiling_ok money_dims_def split: if_splits)

lemma contained_amount:
  assumes "ParseAmount a = Inr x" and "is_ok (valueContained d pv (GNum a))"
  shows "\<exists>y. toRat pv = Some y \<and> x \<le> y"
proof -
  have x: "toRat (GNum a) = Some x" using assms(1) ParseAmount_rat_set_string by simp
  show ?thesis
  proof (cases pv rule: gval_shape_cases)
    case (Num y)
    with assms(2) x show ?thesis by (auto simp: valueContained_numeric)
  next
    case Opaque
    with assms(2) have "toRat pv = toRat (GNum a)"
      by (simp add: valueContained_opaque deep_equal_toRat)
    with x show ?thesis by auto
  qed (use assms(2) in \<open>auto simp: valueContained_shapes\<close>)
qed

lemma contained_string:
  assumes "is_ok (valueContained d pv (GStr s))"
  shows "pv = GStr s"
proof (cases pv rule: gval_shape_cases)
  case (Num y)
  with assms show ?thesis by (auto simp: valueContained_numeric)
next
  case Opaque
  with assms have "deep_equal pv (GStr s)" by (simp add: valueContained_opaque)
  then show ?thesis by (cases pv) auto
qed (use assms in \<open>auto simp: valueContained_shapes\<close>)

lemma contained_transaction_bounded:
  assumes "TxnScope parent tc = Inr s" and "is_ok (Contains parent s)"
    and "d \<in> set money_dims" and "map_of parent d = Some pv"
  shows "\<exists>x y. ParseAmount (tc_Amount tc) = Inr x \<and> 0 < x \<and> toRat pv = Some y \<and> x \<le> y \<and>
    map_of parent ''currency'' = Some (GStr (tc_Currency tc))"
proof -
  have hk: "has_key parent d" using assms(4) by simp
  note proj = TxnScope_projects[OF assms(1,3) hk]
  from proj(3) obtain x where x: "ParseAmount (tc_Amount tc) = Inr x" by (auto simp: is_ok_iff)
  from assms(2,4) proj(1) have "is_ok (valueContained d pv (GNum (tc_Amount tc)))"
    by (auto simp: Contains_ok)
  from contained_amount[OF x this] obtain y where y: "toRat pv = Some y" "x \<le> y" by blast
  from assms(2) proj(2) obtain cv where "map_of parent ''currency'' = Some cv"
    "is_ok (valueContained ''currency'' cv (GStr (tc_Currency tc)))" by (auto simp: Contains_ok)
  with contained_string have "map_of parent ''currency'' = Some (GStr (tc_Currency tc))" by blast
  with x y ParseAmount_pos[OF x] show ?thesis by blast
qed

section \<open>Properties\<close>

text \<open>C25: delegation never widens. In a chain of scopes where every hop passes \<open>Contains\<close> against its
  predecessor, every scope of the chain is contained in the root scope, whatever the values are
  (nested objects, lists, mixed numeric types, NaN).\<close>

theorem delegation_chain_contained:
  assumes "\<forall>i. Suc i < length (base # hops) \<longrightarrow>
      is_ok (Contains ((base # hops) ! i) ((base # hops) ! Suc i))"
    and "s \<in> set hops"
  shows "Contains base s = Inr ()"
  using scope_hop.chain_from_head[OF assms] by (simp add: Contains_Inr)

definition sample_scopes :: "scope list" where
  "sample_scopes =
     [[(''max_amount'', GNum ''5000''), (''currency'', GStr ''USD''),
       (''actions'', GList [GStr ''pay'', GStr ''quote''])],
      [(''max_amount'', GNum ''250.50''), (''actions'', GList [GStr ''pay''])],
      [(''max_amount'', GFloat64 (Fin 100))]]"

lemmas scope_eval = Contains_ok valueContained.simps directionOf_def numericDirection_def
  rat_set_string_def scan_sign_def scan_fraction_def scan_exponent_def scale10_def digit_val_def
  rat_exp_limit_def is_digit_def float_rat_def subset_vals_def equalValue_def

theorem delegation_chain_contained_witness:
  "Contains (sample_scopes ! 0) (sample_scopes ! 2) = Inr ()"
proof -
  have "is_ok (Contains (sample_scopes ! 0) (sample_scopes ! 1))"
    "is_ok (Contains (sample_scopes ! 1) (sample_scopes ! 2))"
    by (simp_all add: sample_scopes_def scope_eval)
  then have "\<forall>i. Suc i < length (sample_scopes ! 0 # [sample_scopes ! 1, sample_scopes ! 2]) \<longrightarrow>
      is_ok (Contains ((sample_scopes ! 0 # [sample_scopes ! 1, sample_scopes ! 2]) ! i)
        ((sample_scopes ! 0 # [sample_scopes ! 1, sample_scopes ! 2]) ! Suc i))"
    by (auto simp: less_Suc_eq)
  from delegation_chain_contained[OF this] show ?thesis by simp
qed

text \<open>C37: root issuance. \<open>Intersect\<close> returns a scope with exactly the permitted dimensions that is
  contained in the permitted ceiling, contains every well-formed scope that both the ceiling and
  the request contain, and carries the smaller of the two values on every numeric dimension they
  share. The ceiling is a scope an issuer may seal: every numeric dimension declared, no NaN.\<close>

theorem intersect_is_greatest_lower_bound:
  assumes "sealed_scope p" and "wf_scope r" and "Intersect p r = Inr out"
  shows "map fst out = map fst p \<and> Contains p out = Inr () \<and>
    (\<forall>s. wf_scope s \<and> is_ok (Contains p s) \<and> is_ok (Contains r s) \<longrightarrow> is_ok (Contains out s)) \<and>
    (\<forall>k pv rv x. map_of p k = Some pv \<and> map_of r k = Some rv \<and> toRat pv = Some x \<longrightarrow>
       (\<exists>y gv. toRat rv = Some y \<and> map_of out k = Some gv \<and> toRat gv = Some (min x y)))"
proof (intro conjI allI impI)
  show "map fst out = map fst p" using assms(3) intersect_dims_keys by (meson Intersect_Inr)
  show "Contains p out = Inr ()" using Intersect_contained[OF assms(1,3)] by (simp add: Contains_Inr)
next
  fix s assume s: "wf_scope s \<and> is_ok (Contains p s) \<and> is_ok (Contains r s)"
  have "is_ok (valueContained [] (GMap out) (GMap s))"
    by (rule glb_greatest[of _ "GMap p" "GMap r"])
       (use assms s in \<open>auto simp: glb_GMap wf_scope_def valueContained_shapes\<close>)
  then show "is_ok (Contains out s)" by (simp add: valueContained_shapes)
qed (use Intersect_ceiling[OF assms(3)] in blast)

theorem intersect_is_greatest_lower_bound_witness:
  "\<exists>out. Intersect [(''max_amount'', GNum ''5000''), (''currency'', GStr ''USD'')]
       [(''max_amount'', GNum ''9000'')] = Inr out \<and>
     Contains [(''max_amount'', GNum ''5000''), (''currency'', GStr ''USD'')] out = Inr ()"
proof -
  have "sealed_scope [(''max_amount'', GNum ''5000''), (''currency'', GStr ''USD'')]"
    by (simp add: sealed_scope_def wf_scope_def wf_map_def declared_val.simps directionOf_def numericDirection_def)
  moreover have "wf_scope [(''max_amount'', GNum ''9000'')]" by (simp add: wf_scope_def wf_map_def)
  moreover have "Intersect [(''max_amount'', GNum ''5000''), (''currency'', GStr ''USD'')]
       [(''max_amount'', GNum ''9000'')] = Inr [(''max_amount'', GNum ''5000''), (''currency'', GStr ''USD'')]"
    by (simp add: Intersect_def not_permitted_def has_key_def glb.simps scope_eval)
  ultimately show ?thesis using intersect_is_greatest_lower_bound by blast
qed

text \<open>C6: enforcement of a money ceiling. When the projection of a transaction is contained in a
  scope, then for \<open>max_amount\<close> and for \<open>max_cumulative\<close>, whichever the scope declares, the amount is a
  positive canonical decimal not above the ceiling, and the scope names exactly the currency of
  the transaction.\<close>

theorem transaction_within_ceiling:
  assumes "TxnScope parent tc = Inr s" and "Contains parent s = Inr ()"
    and "d = ''max_amount'' \<or> d = cumulativeDim" and "map_of parent d = Some pv"
  shows "\<exists>x y. ParseAmount (tc_Amount tc) = Inr x \<and> 0 < x \<and> toRat pv = Some y \<and> x \<le> y \<and>
    map_of parent ''currency'' = Some (GStr (tc_Currency tc))"
  using contained_transaction_bounded[of parent tc s d pv] assms
  by (auto simp: Contains_Inr money_dims_def)

theorem transaction_within_ceiling_witness:
  "\<exists>x y. ParseAmount (tc_Amount sample_txn) = Inr x \<and> 0 < x \<and>
     toRat (GNum ''100'') = Some y \<and> x \<le> y \<and>
     map_of [(''max_amount'', GNum ''100''), (''currency'', GStr ''USD'')] ''currency'' =
       Some (GStr (tc_Currency sample_txn))"
proof -
  have a: "TxnScope [(''max_amount'', GNum ''100''), (''currency'', GStr ''USD'')] sample_txn =
      Inr [(''max_amount'', GNum ''25.50''), (''currency'', GStr ''USD'')]"
    by (simp add: TxnScope_def project_ceiling_def has_key_def cumulativeDim_def sample_txn_def
        parse_amount_eval)
  have b: "Contains [(''max_amount'', GNum ''100''), (''currency'', GStr ''USD'')]
      [(''max_amount'', GNum ''25.50''), (''currency'', GStr ''USD'')] = Inr ()"
    by (simp add: Contains_Inr scope_eval)
  show ?thesis
    by (rule transaction_within_ceiling[OF a b, of "''max_amount''"]) simp_all
qed

end
