(* ===== verification/Issuance.thy ===== *)
theory Issuance
  imports Scope
begin

text \<open>
  What may be sealed into a token (src/internal/tbac/issuance.go): money ceilings are numeric,
  non-negative and denominated in a currency declared beside them, and a delegated scope inherits
  the unit it left out.
\<close>

section \<open>Validation\<close>

datatype issuance_err =
    ErrCeilingNotNumeric string
  | ErrCeilingNegative string
  | ErrCeilingUnqualified string
  | ErrCurrencyNotAString string
  | ErrUndeclaredNumeric string
  | ErrNoUnitToInherit string

definition moneyCeilings :: "string list" where
  "moneyCeilings = [''max_amount'', ''max_cumulative'']"

abbreviation is_money :: "string \<Rightarrow> bool" where
  "is_money d \<equiv> d \<in> set moneyCeilings"

fun asObject :: "gval \<Rightarrow> scope option" where
  "asObject (GScope m) = Some m"
| "asObject (GMap m) = Some m"
| "asObject _ = None"

definition qualify :: "string \<Rightarrow> string \<Rightarrow> string" where
  "qualify path d = (if path = [] then d else path @ ''.'' @ d)"

definition validateMoneyCeiling :: "scope \<Rightarrow> string \<Rightarrow> gval \<Rightarrow> string \<Rightarrow> issuance_err + unit" where
  "validateMoneyCeiling s name v path =
     (case toRat v of
        None \<Rightarrow> Inl (ErrCeilingNotNumeric name)
      | Some r \<Rightarrow>
          if r < 0 then Inl (ErrCeilingNegative name)
          else case map_of s ''currency'' of
              None \<Rightarrow> Inl (ErrCeilingUnqualified name)
            | Some cur \<Rightarrow>
                (case cur of
                   GStr cs \<Rightarrow> if cs = [] then Inl (ErrCurrencyNotAString name) else Inr ()
                 | _ \<Rightarrow> Inl (ErrCurrencyNotAString name)))"

lemma asObject_size [termination_simp]:
  "asObject v = Some n \<Longrightarrow> (d, v) \<in> set s \<Longrightarrow>
    size_list (size_prod (\<lambda>x. 0) size) n < size_list (size_prod (\<lambda>x. 0) size) s"
  by (induction s) (auto elim!: asObject.elims)

function validateIssuance :: "scope \<Rightarrow> string \<Rightarrow> issuance_err + unit" where
  "validateIssuance s path =
     (case first_err (\<lambda>(d, v). if \<not> is_money d then Inr ()
                               else validateMoneyCeiling s (qualify path d) v path) s of
        Inl e \<Rightarrow> Inl e
      | Inr _ \<Rightarrow>
          first_err (\<lambda>(d, v).
            if is_money d then Inr ()
            else case asObject v of
                Some nested \<Rightarrow> validateIssuance nested (qualify path d)
              | None \<Rightarrow>
                  if toRat v \<noteq> None \<and> directionOf d = None
                  then Inl (ErrUndeclaredNumeric (qualify path d)) else Inr ()) s)"
  by pat_completeness auto
termination
  by (relation "measure (\<lambda>(s, path). size_list (size_prod (\<lambda>x. 0) size) s)")
     (auto intro: asObject_size)

declare validateIssuance.simps [simp del]

definition ValidateIssuance :: "scope \<Rightarrow> issuance_err + unit" where
  "ValidateIssuance s = validateIssuance s []"

section \<open>Inheriting the unit\<close>

function scopesEqual :: "scope \<Rightarrow> scope \<Rightarrow> bool" where
  "scopesEqual a b =
     (length a = length b \<and>
      list_all (\<lambda>(k, av).
        case map_of b k of
          None \<Rightarrow> False
        | Some bv \<Rightarrow>
            (case (asObject av, asObject bv) of
               (Some an, Some bn) \<Rightarrow> scopesEqual an bn
             | (None, None) \<Rightarrow> equalValue av bv
             | _ \<Rightarrow> False)) a)"
  by pat_completeness auto
termination
  by (relation "measure (\<lambda>(a, b). size_list (size_prod (\<lambda>x. 0) size) a)") (auto intro: asObject_size)

declare scopesEqual.simps [simp del]

definition sub_object :: "scope \<Rightarrow> string \<Rightarrow> scope" where
  "sub_object parent d =
     (case map_of parent d of
        None \<Rightarrow> []
      | Some pv \<Rightarrow> (case asObject pv of None \<Rightarrow> [] | Some m \<Rightarrow> m))"

fun same_type :: "gval \<Rightarrow> scope \<Rightarrow> gval" where
  "same_type (GScope _) m = GScope m"
| "same_type _ m = GMap m"

function inheritMoneyUnit :: "scope \<Rightarrow> scope \<Rightarrow> string \<Rightarrow> issuance_err + scope" where
  "inheritMoneyUnit parent child path =
     (case map_err (\<lambda>(d, v).
             case asObject v of
               None \<Rightarrow> Inr (d, v)
             | Some nested \<Rightarrow>
                 (case inheritMoneyUnit (sub_object parent d) nested (qualify path d) of
                    Inl e \<Rightarrow> Inl e
                  | Inr fixed \<Rightarrow>
                      if scopesEqual fixed nested then Inr (d, v) else Inr (d, same_type v fixed))) child of
        Inl e \<Rightarrow> Inl e
      | Inr out \<Rightarrow>
          if \<not> list_ex (\<lambda>(d, v). asObject v = None \<and> is_money d) child then Inr out
          else if has_key out ''currency'' then Inr out
          else case map_of parent ''currency'' of
              None \<Rightarrow> Inl (ErrNoUnitToInherit (qualify path ''max_amount''))
            | Some inherited \<Rightarrow> Inr (put ''currency'' inherited out))"
  by pat_completeness auto
termination
  by (relation "measure (\<lambda>(p, c, path). size_list (size_prod (\<lambda>x. 0) size) c)") (auto intro: asObject_size)

declare inheritMoneyUnit.simps [simp del]

definition InheritMoneyUnit :: "scope \<Rightarrow> scope \<Rightarrow> issuance_err + scope" where
  "InheritMoneyUnit parent child = inheritMoneyUnit parent child []"

section \<open>What validation establishes\<close>

definition money_ok :: "scope \<Rightarrow> gval \<Rightarrow> bool" where
  "money_ok s v = (\<exists>r cs. toRat v = Some r \<and> 0 \<le> r \<and> map_of s ''currency'' = Some (GStr cs) \<and> cs \<noteq> [])"

lemma money_ok_eval:
  "money_ok s v \<longleftrightarrow> (case toRat v of None \<Rightarrow> False | Some r \<Rightarrow> 0 \<le> r) \<and>
     (case map_of s ''currency'' of Some (GStr cs) \<Rightarrow> cs \<noteq> [] | _ \<Rightarrow> False)"
  by (auto simp: money_ok_def split: option.splits gval.splits)

lemma validateMoneyCeiling_ok: "is_ok (validateMoneyCeiling s name v path) \<longleftrightarrow> money_ok s v"
  by (auto simp: validateMoneyCeiling_def money_ok_def split: option.splits gval.splits)

lemma validateIssuance_ok:
  "is_ok (validateIssuance s path) \<longleftrightarrow>
     (\<forall>(d, v) \<in> set s.
        if is_money d then money_ok s v
        else case asObject v of
            Some n \<Rightarrow> is_ok (validateIssuance n (qualify path d))
          | None \<Rightarrow> toRat v = None \<or> directionOf d \<noteq> None)"
proof -
  have split: "is_ok (case first_err f s of Inl e \<Rightarrow> Inl e | Inr _ \<Rightarrow> first_err g s) \<longleftrightarrow>
      (\<forall>x \<in> set s. is_ok (f x) \<and> is_ok (g x))" for f g :: "string \<times> gval \<Rightarrow> issuance_err + unit"
    by (auto simp: is_ok_first_err[symmetric] ball_conj_distrib split: sum.split)
  show ?thesis
    by (subst validateIssuance.simps, subst split, rule ball_cong)
       (auto simp: validateMoneyCeiling_ok split: option.splits if_splits)
qed

inductive nested_in :: "scope \<Rightarrow> scope \<Rightarrow> bool" where
  here: "nested_in s s"
| below: "(d, v) \<in> set s \<Longrightarrow> \<not> is_money d \<Longrightarrow> asObject v = Some m \<Longrightarrow> nested_in m n \<Longrightarrow> nested_in s n"

definition issuable_level :: "scope \<Rightarrow> bool" where
  "issuable_level n = (\<forall>(d, v) \<in> set n.
     if is_money d then money_ok n v else asObject v = None \<and> toRat v \<noteq> None \<longrightarrow> directionOf d \<noteq> None)"

lemma validateIssuance_nested:
  assumes "nested_in s n" and "is_ok (validateIssuance s path)"
  shows "issuable_level n"
  using assms
proof (induction arbitrary: path rule: nested_in.induct)
  case (here s)
  then show ?case by (fastforce simp: issuable_level_def validateIssuance_ok[of s])
next
  case (below d v s m n)
  then have "is_ok (validateIssuance m (qualify path d))"
    by (fastforce simp: validateIssuance_ok[of s])
  with below.IH show ?case by blast
qed

lemma validateIssuance_complete:
  "(\<And>n. nested_in s n \<Longrightarrow> issuable_level n) \<Longrightarrow> is_ok (validateIssuance s path)"
proof (induction s path rule: validateIssuance.induct)
  case (1 s path)
  have top: "issuable_level s" using 1 nested_in.here by blast
  have "is_ok (validateIssuance n (qualify path d))"
    if "(d, v) \<in> set s" "\<not> is_money d" "asObject v = Some n" for d v n
  proof -
    have "issuable_level m" if "nested_in n m" for m
      using 1(2) nested_in.below that \<open>(d, v) \<in> set s\<close> \<open>\<not> is_money d\<close> \<open>asObject v = Some n\<close> by blast
    moreover have "first_err (\<lambda>(d, v). if \<not> is_money d then Inr ()
        else validateMoneyCeiling s (qualify path d) v path) s = Inr ()"
      unfolding is_ok_unit[symmetric] is_ok_first_err
      using top by (auto simp: issuable_level_def validateMoneyCeiling_ok)
    ultimately show ?thesis using 1(1) that by blast
  qed
  with top show ?case
    by (subst validateIssuance_ok) (fastforce simp: issuable_level_def split: option.splits)
qed

lemma declared_validated:
  "is_ok (validateIssuance s path) \<Longrightarrow> (d, v) \<in> set s \<Longrightarrow> declared_val d v"
proof (induction v arbitrary: s path d rule: measure_induct_rule[where f = size])
  case (less v)
  have money: "is_money d \<Longrightarrow> directionOf d \<noteq> None"
    by (auto simp: moneyCeilings_def directionOf_def numericDirection_def)
  from less.prems have top: "if is_money d then money_ok s v
      else case asObject v of Some n \<Rightarrow> is_ok (validateIssuance n (qualify path d))
        | None \<Rightarrow> toRat v = None \<or> directionOf d \<noteq> None"
    by (fastforce simp: validateIssuance_ok[of s])
  show ?case
  proof (cases v)
    case (GMap m)
    with top have "is_ok (validateIssuance m (qualify path d))"
      by (auto simp: money_ok_def split: if_splits)
    then have "declared_val k w" if "(k, w) \<in> set m" for k w
      using less.IH[of w m] that GMap size_list_pair_lt by fastforce
    with GMap show ?thesis by (auto simp: declared_val.simps[of d] list_all_iff)
  qed (use top money in \<open>auto simp: declared_val.simps[of d] split: if_splits\<close>)
qed

text \<open>Values as the JSON decoder builds them: no NaN, no Go scope values, distinct keys.\<close>

fun json_val :: "gval \<Rightarrow> bool" where
  "json_val (GFloat64 f) = (case f of Fin r \<Rightarrow> True | NegZero \<Rightarrow> True | _ \<Rightarrow> False)"
| "json_val (GList xs) = list_all json_val xs"
| "json_val (GMap m) = (wf_map m \<and> list_all (\<lambda>(k, v). json_val v) m)"
| "json_val v = (v = GNil \<or> (\<exists>b. v = GBool b) \<or> (\<exists>s. v = GStr s) \<or> (\<exists>s. v = GNum s))"

definition json_scope :: "scope \<Rightarrow> bool" where
  "json_scope s = (wf_map s \<and> list_all (\<lambda>(k, v). json_val v) s)"

lemma json_val_wf: "json_val v \<Longrightarrow> wf_val v \<and> nan_free v"
proof (induction v rule: gval_induct)
  case (Atom v)
  then show ?case by (cases v) (auto split: gofloat.splits)
qed (auto simp: list_all_iff)

lemma json_scope_wf: "json_scope s \<Longrightarrow> wf_scope s"
  by (auto simp: json_scope_def wf_scope_def list_all_iff dest: json_val_wf)

lemma issued_scope_sealed:
  assumes "json_scope s" and "is_ok (ValidateIssuance s)"
  shows "sealed_scope s"
  using assms declared_validated json_val_wf json_scope_wf
  by (fastforce simp: sealed_scope_def ValidateIssuance_def json_scope_def list_all_iff)

section \<open>What inheritance establishes\<close>

definition inherited_value :: "scope \<Rightarrow> string \<Rightarrow> string \<Rightarrow> gval \<Rightarrow> gval \<Rightarrow> bool" where
  "inherited_value parent path d v w =
     (case asObject v of
        None \<Rightarrow> w = v
      | Some nested \<Rightarrow>
          (\<exists>fixed. inheritMoneyUnit (sub_object parent d) nested (qualify path d) = Inr fixed \<and>
             (if scopesEqual fixed nested then w = v else w = same_type v fixed)))"

lemma inheritMoneyUnit_Inr:
  "inheritMoneyUnit parent child path = Inr out \<longleftrightarrow>
     (\<exists>mid. list_all2 (\<lambda>(d, v) (d', w). d' = d \<and> inherited_value parent path d v w) child mid \<and>
        (if \<not> list_ex (\<lambda>(d, v). asObject v = None \<and> is_money d) child \<or> has_key mid ''currency''
         then out = mid
         else \<exists>cur. map_of parent ''currency'' = Some cur \<and> out = put ''currency'' cur mid))"
  (is "?L \<longleftrightarrow> ?R")
proof -
  let ?f = "\<lambda>(d, v). case asObject v of None \<Rightarrow> Inr (d, v)
    | Some nested \<Rightarrow> (case inheritMoneyUnit (sub_object parent d) nested (qualify path d) of
        Inl e \<Rightarrow> Inl e
      | Inr fixed \<Rightarrow> if scopesEqual fixed nested then Inr (d, v) else Inr (d, same_type v fixed))"
  have f: "(\<lambda>x y. ?f x = Inr y) = (\<lambda>(d, v) (d', w). d' = d \<and> inherited_value parent path d v w)"
    by (auto simp: fun_eq_iff inherited_value_def split: option.split sum.split)
  have "?L \<longleftrightarrow> (\<exists>mid. map_err ?f child = Inr mid \<and>
        (if \<not> list_ex (\<lambda>(d, v). asObject v = None \<and> is_money d) child \<or> has_key mid ''currency''
         then out = mid
         else \<exists>cur. map_of parent ''currency'' = Some cur \<and> out = put ''currency'' cur mid))"
    by (subst inheritMoneyUnit.simps) (auto split: sum.split option.split)
  then show ?thesis unfolding map_err_Inr f .
qed

lemma list_all2_pair_keys:
  "list_all2 (\<lambda>(d, v) (d', w). d' = d \<and> P d v w) c m \<Longrightarrow> map fst m = map fst c"
  by (induction rule: list_all2_induct) auto

lemma list_all2_pair_mem:
  assumes "list_all2 (\<lambda>(d, v) (d', w). d' = d \<and> P d v w) c m" and "(d, w) \<in> set m"
  obtains v where "(d, v) \<in> set c" and "P d v w"
  using assms by (induction rule: list_all2_induct) auto

lemma json_object: "json_val v \<Longrightarrow> asObject v = Some m \<longleftrightarrow> v = GMap m"
  by (cases v) auto

lemma Contains_ok_map:
  assumes "wf_map c"
  shows "is_ok (Contains p c) \<longleftrightarrow>
    (\<forall>k cv. map_of c k = Some cv \<longrightarrow> (\<exists>pv. map_of p k = Some pv \<and> is_ok (valueContained k pv cv)))"
proof
  assume "is_ok (Contains p c)"
  then show "\<forall>k cv. map_of c k = Some cv \<longrightarrow>
      (\<exists>pv. map_of p k = Some pv \<and> is_ok (valueContained k pv cv))"
    using Contains_lookup by blast
qed (auto simp: Contains_ok wf_map_lookup[OF assms])

lemma contained_in_GMap:
  assumes "is_ok (valueContained d pv (GMap n))"
  shows "\<exists>m. pv = GMap m \<and> is_ok (Contains m n)"
proof (cases pv rule: gval_shape_cases)
  case (Num y)
  with assms show ?thesis by (auto simp: valueContained_numeric)
next
  case Opaque
  with assms have "deep_equal pv (GMap n)" by (simp add: valueContained_opaque)
  with Opaque show ?thesis by (cases pv) (auto simp: opaque_def)
qed (use assms in \<open>auto simp: valueContained_shapes\<close>)

lemma sealed_value:
  assumes "sealed_scope s" and "map_of s k = Some v"
  shows "is_ok (valueContained k v v)"
  using assms map_of_SomeD[OF assms(2)]
  by (auto simp: sealed_scope_def wf_scope_def list_all_iff intro!: valueContained_refl)

lemma sealed_nested:
  assumes "sealed_scope s" and "map_of s k = Some (GMap m)"
  shows "sealed_scope m"
  using assms map_of_SomeD[OF assms(2)]
  by (fastforce simp: sealed_scope_def wf_scope_def list_all_iff declared_val.simps[of k])

lemma inherit_contained:
  "sealed_scope parent \<Longrightarrow> json_scope child \<Longrightarrow> is_ok (Contains parent child) \<Longrightarrow>
   inheritMoneyUnit parent child path = Inr out \<Longrightarrow> is_ok (Contains parent out)"
proof (induction parent child path arbitrary: out rule: inheritMoneyUnit.induct)
  case (1 parent child path)
  from 1(5) obtain mid where mid:
    "list_all2 (\<lambda>(d, v) (d', w). d' = d \<and> inherited_value parent path d v w) child mid"
    and out: "out = mid \<or> (\<exists>cur. map_of parent ''currency'' = Some cur \<and> out = put ''currency'' cur mid)"
    by (auto simp: inheritMoneyUnit_Inr split: if_splits)
  have wf: "wf_map mid" using list_all2_pair_keys[OF mid] 1(3) by (simp add: json_scope_def wf_map_def)
  have m: "\<exists>pv. map_of parent d = Some pv \<and> is_ok (valueContained d pv w)" if dw: "(d, w) \<in> set mid" for d w
  proof -
    from list_all2_pair_mem[OF mid dw] obtain v where v: "(d, v) \<in> set child"
      "inherited_value parent path d v w" by blast
    from 1(4) v(1) obtain pv where pv: "map_of parent d = Some pv" "is_ok (valueContained d pv v)"
      by (auto simp: Contains_ok)
    show ?thesis
    proof (cases "w = v")
      case False
      with v(2) obtain nested fixed where n: "asObject v = Some nested"
        "inheritMoneyUnit (sub_object parent d) nested (qualify path d) = Inr fixed" "w = same_type v fixed"
        by (auto simp: inherited_value_def split: option.splits if_splits)
      have jv: "json_val v" using 1(3) v(1) by (auto simp: json_scope_def list_all_iff)
      with n(1) have vm: "v = GMap nested" by (simp add: json_object)
      with pv(2) obtain pm where pm: "pv = GMap pm" "is_ok (Contains pm nested)"
        using contained_in_GMap by blast
      have "is_ok (Contains (sub_object parent d) fixed)"
        by (rule 1(1)[OF v(1) refl n(1) _ _ _ n(2)])
           (use pv pm jv vm sealed_nested[OF 1(2)] in \<open>auto simp: sub_object_def json_scope_def\<close>)
      then show ?thesis using pv pm vm n(3) by (simp add: sub_object_def valueContained_shapes)
    qed (use pv in blast)
  qed
  then have "is_ok (Contains parent mid)" by (auto simp: Contains_ok)
  with out wf sealed_value[OF 1(2)] show ?case
    by (auto simp: Contains_ok_map split: if_splits)
qed

text \<open>Every non-object money ceiling has a currency in its own object, at every depth.\<close>

function unit_qualified :: "scope \<Rightarrow> bool" where
  "unit_qualified s =
     ((list_ex (\<lambda>(d, v). asObject v = None \<and> is_money d) s \<longrightarrow> has_key s ''currency'') \<and>
      list_all (\<lambda>(d, v). case asObject v of None \<Rightarrow> True | Some n \<Rightarrow> unit_qualified n) s)"
  by pat_completeness auto
termination
  by (relation "measure (\<lambda>s. size_list (size_prod (\<lambda>x. 0) size) s)") (auto intro: asObject_size)

declare unit_qualified.simps [simp del]

lemma list_ex_pair: "list_ex (\<lambda>(d, v). P d v) s \<longleftrightarrow> (\<exists>d v. (d, v) \<in> set s \<and> P d v)"
  by (auto simp: list_ex_iff)

lemma unit_qualified_iff:
  "unit_qualified s \<longleftrightarrow>
     ((\<exists>d v. (d, v) \<in> set s \<and> asObject v = None \<and> is_money d) \<longrightarrow> has_key s ''currency'') \<and>
     (\<forall>d v n. (d, v) \<in> set s \<longrightarrow> asObject v = Some n \<longrightarrow> unit_qualified n)"
  by (subst unit_qualified.simps) (auto simp: list_ex_pair list_all_iff split: option.splits)

lemma unit_qualified_Nil [simp]: "unit_qualified []"
  by (simp add: unit_qualified_iff[of "[]"])

lemma wf_scope_object:
  assumes "wf_scope s" and "(d, v) \<in> set s" and "asObject v = Some n"
  shows "wf_scope n"
proof -
  have "wf_val v" using assms(1,2) by (auto simp: wf_scope_def list_all_iff)
  with assms(3) show ?thesis by (cases v) (auto simp: wf_scope_def)
qed

lemma scopesEqual_lookup:
  assumes "scopesEqual a b" and "(k, av) \<in> set a"
  shows "\<exists>bv. map_of b k = Some bv \<and>
    (asObject av = None \<longleftrightarrow> asObject bv = None) \<and>
    (\<forall>an bn. asObject av = Some an \<longrightarrow> asObject bv = Some bn \<longrightarrow> scopesEqual an bn)"
proof -
  have "case map_of b k of None \<Rightarrow> False
    | Some bv \<Rightarrow> (case (asObject av, asObject bv) of (Some an, Some bn) \<Rightarrow> scopesEqual an bn
        | (None, None) \<Rightarrow> equalValue av bv | _ \<Rightarrow> False)"
    using assms(1)[unfolded scopesEqual.simps[of a b]] assms(2) by (auto simp: list_all_iff)
  then show ?thesis by (auto split: option.splits)
qed

lemma scopesEqual_keys:
  assumes "scopesEqual a b" and "wf_scope a" and "wf_scope b"
  shows "fst ` set a = fst ` set b"
proof (rule wf_map_same_keys)
  show "length a = length b" using assms(1) by (subst (asm) scopesEqual.simps) simp
  show "fst ` set a \<subseteq> fst ` set b"
    using scopesEqual_lookup[OF assms(1)] by (force dest: map_of_SomeD)
qed (use assms in \<open>auto simp: wf_scope_def\<close>)

lemma scopesEqual_qualified:
  "scopesEqual a b \<Longrightarrow> wf_scope a \<Longrightarrow> wf_scope b \<Longrightarrow> unit_qualified a \<Longrightarrow> unit_qualified b"
proof (induction a arbitrary: b rule: unit_qualified.induct)
  case (1 a)
  note keys = scopesEqual_keys[OF 1(2,3,4)]
  have partner: "\<exists>av. (d, av) \<in> set a \<and> (asObject av = None \<longleftrightarrow> asObject v = None) \<and>
      (\<forall>an bn. asObject av = Some an \<longrightarrow> asObject v = Some bn \<longrightarrow> scopesEqual an bn)"
    if dv: "(d, v) \<in> set b" for d v
  proof -
    from keys dv obtain av where av: "(d, av) \<in> set a" by (metis fst_conv image_iff prod.collapse)
    have "map_of b d = Some v" using dv 1(4) by (simp add: wf_scope_def wf_map_lookup)
    with scopesEqual_lookup[OF 1(2) av] av show ?thesis by auto
  qed
  show ?case
    unfolding unit_qualified_iff[of b]
  proof (intro conjI allI impI)
    assume "\<exists>d v. (d, v) \<in> set b \<and> asObject v = None \<and> is_money d"
    then have "\<exists>d v. (d, v) \<in> set a \<and> asObject v = None \<and> is_money d" using partner by blast
    with 1(5) have "has_key a ''currency''" by (simp add: unit_qualified_iff[of a])
    with keys show "has_key b ''currency''" by (simp add: has_key_iff)
  next
    fix d v n assume v: "(d, v) \<in> set b" "asObject v = Some n"
    with partner obtain av an where av: "(d, av) \<in> set a" "asObject av = Some an" "scopesEqual an n"
      by (metis option.exhaust)
    moreover have "unit_qualified an" using av 1(5) by (simp add: unit_qualified_iff[of a])
    ultimately show "unit_qualified n"
      using 1(1)[OF av(1) refl av(2) av(3)] wf_scope_object[OF 1(3)] wf_scope_object[OF 1(4)] v by blast
  qed
qed

lemma same_type_object: "asObject v \<noteq> None \<Longrightarrow> asObject (same_type v m) = Some m"
  by (cases v) auto

lemma same_type_wf: "asObject v \<noteq> None \<Longrightarrow> wf_val (same_type v m) \<longleftrightarrow> wf_scope m"
  by (cases v) (auto simp: wf_scope_def)

lemma set_put_subset: "(k, w) \<in> set (put c x m) \<Longrightarrow> (k, w) \<in> set m \<or> (k, w) = (c, x)"
  by (induction m) (auto simp: put_def split: if_splits)

lemma sub_object_wf: "wf_scope parent \<Longrightarrow> wf_scope (sub_object parent d)"
  by (auto simp: sub_object_def wf_scope_def[of "[]"] split: option.splits
      intro: wf_scope_object dest: map_of_SomeD)

lemma sub_object_qualified: "unit_qualified parent \<Longrightarrow> unit_qualified (sub_object parent d)"
  by (auto simp: sub_object_def unit_qualified_iff[of parent] split: option.splits dest: map_of_SomeD)

lemma inherit_qualified:
  "wf_scope parent \<Longrightarrow> unit_qualified parent \<Longrightarrow> wf_scope child \<Longrightarrow>
   inheritMoneyUnit parent child path = Inr out \<Longrightarrow> wf_scope out \<and> unit_qualified out"
proof (induction parent child path arbitrary: out rule: inheritMoneyUnit.induct)
  case (1 parent child path)
  from 1(5) obtain mid where mid:
    "list_all2 (\<lambda>(d, v) (d', w). d' = d \<and> inherited_value parent path d v w) child mid"
    and out: "if \<not> list_ex (\<lambda>(d, v). asObject v = None \<and> is_money d) child \<or> has_key mid ''currency''
         then out = mid
         else \<exists>cur. map_of parent ''currency'' = Some cur \<and> out = put ''currency'' cur mid"
    by (auto simp: inheritMoneyUnit_Inr)
  have keys: "map fst mid = map fst child" by (rule list_all2_pair_keys[OF mid])
  have elem: "wf_val w \<and> (\<forall>n. asObject w = Some n \<longrightarrow> unit_qualified n) \<and>
      (asObject w = None \<longrightarrow> (d, w) \<in> set child)" if dw: "(d, w) \<in> set mid" for d w
  proof -
    from list_all2_pair_mem[OF mid dw] obtain v where v: "(d, v) \<in> set child"
      "inherited_value parent path d v w" by blast
    have wv: "wf_val v" using v(1) 1(4) by (auto simp: wf_scope_def list_all_iff)
    show ?thesis
    proof (cases "asObject v")
      case None
      with v wv show ?thesis by (simp add: inherited_value_def)
    next
      case (Some nested)
      with v(2) obtain fixed where f: "inheritMoneyUnit (sub_object parent d) nested (qualify path d) = Inr fixed"
        "if scopesEqual fixed nested then w = v else w = same_type v fixed"
        by (auto simp: inherited_value_def)
      have wn: "wf_scope nested" using wf_scope_object[OF 1(4) v(1) Some] .
      have "wf_scope fixed \<and> unit_qualified fixed"
        by (rule 1(1)[OF v(1) refl Some sub_object_wf[OF 1(2)] sub_object_qualified[OF 1(3)] wn f(1)])
      with f Some wv wn show ?thesis
        by (auto simp: same_type_object same_type_wf split: if_splits intro: scopesEqual_qualified)
    qed
  qed
  have wm: "wf_scope mid"
    using elem keys 1(4) by (auto simp: wf_scope_def wf_map_def list_all_iff)
  have qm: "unit_qualified mid"
    if "\<not> list_ex (\<lambda>(d, v). asObject v = None \<and> is_money d) child \<or> has_key mid ''currency''"
    unfolding unit_qualified_iff[of mid]
    using that[unfolded list_ex_pair] elem by blast
  show ?case
  proof (cases "\<not> list_ex (\<lambda>(d, v). asObject v = None \<and> is_money d) child \<or> has_key mid ''currency''")
    case True
    with out wm qm show ?thesis by simp
  next
    case False
    with out obtain cur where cur: "map_of parent ''currency'' = Some cur" "out = put ''currency'' cur mid"
      by auto
    have "(''currency'', cur) \<in> set parent" using cur(1) by (rule map_of_SomeD)
    then have c: "wf_val cur" "\<forall>n. asObject cur = Some n \<longrightarrow> unit_qualified n"
      using 1(2,3) by (auto simp: wf_scope_def list_all_iff unit_qualified_iff[of parent])
    have mem: "wf_val w \<and> (\<forall>n. asObject w = Some n \<longrightarrow> unit_qualified n)" if "(d, w) \<in> set out" for d w
      using set_put_subset[OF that[unfolded cur(2)]] elem c by blast
    have "wf_map out" using wm cur(2) by (simp add: wf_scope_def)
    moreover have "has_key out ''currency''" using cur(2) by (simp add: has_key_def)
    ultimately show ?thesis using mem
      by (auto simp: wf_scope_def list_all_iff unit_qualified_iff[of out])
  qed
qed

lemma validated_qualified: "is_ok (validateIssuance s path) \<Longrightarrow> unit_qualified s"
proof (induction s arbitrary: path rule: unit_qualified.induct)
  case (1 s)
  have top: "if is_money d then money_ok s v
      else case asObject v of Some n \<Rightarrow> is_ok (validateIssuance n (qualify path d))
        | None \<Rightarrow> toRat v = None \<or> directionOf d \<noteq> None" if "(d, v) \<in> set s" for d v
    using that 1(2) by (fastforce simp: validateIssuance_ok[of s])
  have number: "toRat v = Some r \<Longrightarrow> asObject v = None" for v r by (cases v) auto
  show ?case
    unfolding unit_qualified_iff[of s]
  proof (intro conjI allI impI)
    assume "\<exists>d v. (d, v) \<in> set s \<and> asObject v = None \<and> is_money d"
    with top show "has_key s ''currency''" by (fastforce simp: money_ok_def)
  next
    fix d v n assume v: "(d, v) \<in> set s" "asObject v = Some n"
    with top[OF v(1)] number have "is_ok (validateIssuance n (qualify path d))"
      by (fastforce simp: money_ok_def split: if_splits)
    with 1(1)[OF v(1) refl v(2)] show "unit_qualified n" by blast
  qed
qed

section \<open>Properties\<close>

lemmas issuance_eval = ValidateIssuance_def validateIssuance_ok money_ok_eval moneyCeilings_def
  directionOf_def numericDirection_def rat_set_string_def scan_sign_def scan_fraction_def
  scan_exponent_def scale10_def digit_val_def rat_exp_limit_def is_digit_def

text \<open>\<open>ValidateIssuance\<close> accepts a scope exactly when, in the scope and in every object nested in it,
  each money ceiling is a non-negative number with a non-empty currency string in the same object,
  and every other number has a declared direction.\<close>

theorem validate_issuance_iff:
  "ValidateIssuance s = Inr () \<longleftrightarrow>
     (\<forall>n. nested_in s n \<longrightarrow>
        (\<forall>d v. (d, v) \<in> set n \<longrightarrow>
           (if is_money d
            then \<exists>r cs. toRat v = Some r \<and> 0 \<le> r \<and> map_of n ''currency'' = Some (GStr cs) \<and> cs \<noteq> []
            else asObject v = None \<and> toRat v \<noteq> None \<longrightarrow> directionOf d \<noteq> None)))"
  (is "?L \<longleftrightarrow> ?R")
proof -
  have "?R \<longleftrightarrow> (\<forall>n. nested_in s n \<longrightarrow> issuable_level n)"
    by (simp add: issuable_level_def money_ok_def split_beta Ball_def)
  then show ?thesis
    using validateIssuance_nested[of s] validateIssuance_complete[of s]
    unfolding ValidateIssuance_def is_ok_unit[symmetric] by blast
qed

theorem validate_issuance_iff_witness:
  "\<exists>r cs. toRat (GNum ''5'') = Some r \<and> 0 \<le> r \<and>
     map_of [(''max_amount'', GNum ''5''), (''currency'', GStr ''EUR'')] ''currency'' = Some (GStr cs) \<and> cs \<noteq> []"
proof -
  let ?n = "[(''max_amount'', GNum ''5''), (''currency'', GStr ''EUR'')]"
  let ?s = "[(''limits'', GMap ?n)]"
  have ok: "ValidateIssuance ?s = Inr ()"
    unfolding is_ok_unit[symmetric] by (simp add: issuance_eval)
  have "nested_in ?s ?n"
    by (rule nested_in.below[of "''limits''" "GMap ?n"]) (auto simp: moneyCeilings_def intro: nested_in.here)
  from ok[unfolded validate_issuance_iff, rule_format, OF this, of "''max_amount''" "GNum ''5''"]
  show ?thesis by (simp add: moneyCeilings_def)
qed

text \<open>Inheriting the unit never widens. For decoded JSON scopes and a parent that was valid to
  issue, a child contained in the parent is still contained after \<open>InheritMoneyUnit\<close>, and in the
  result every money ceiling, at every depth, has a currency in its own object.\<close>

theorem inherit_money_unit_sound:
  assumes "json_scope parent" and "ValidateIssuance parent = Inr ()"
    and "json_scope child" and "Contains parent child = Inr ()"
    and "InheritMoneyUnit parent child = Inr out"
  shows "Contains parent out = Inr () \<and> unit_qualified out"
  using inherit_contained[of parent child "[]" out] inherit_qualified[of parent child "[]" out]
    validated_qualified[of parent "[]"] issued_scope_sealed[of parent] json_scope_wf assms
  by (simp add: InheritMoneyUnit_def ValidateIssuance_def Contains_Inr)

theorem inherit_money_unit_sound_witness:
  "InheritMoneyUnit [(''max_amount'', GNum ''50''), (''currency'', GStr ''USD'')] [(''max_amount'', GNum ''20'')] =
     Inr [(''max_amount'', GNum ''20''), (''currency'', GStr ''USD'')] \<and>
   Contains [(''max_amount'', GNum ''50''), (''currency'', GStr ''USD'')]
     [(''max_amount'', GNum ''20''), (''currency'', GStr ''USD'')] = Inr () \<and>
   unit_qualified [(''max_amount'', GNum ''20''), (''currency'', GStr ''USD'')]"
proof -
  let ?p = "[(''max_amount'', GNum ''50''), (''currency'', GStr ''USD'')]"
  have i: "InheritMoneyUnit ?p [(''max_amount'', GNum ''20'')] =
     Inr [(''max_amount'', GNum ''20''), (''currency'', GStr ''USD'')]"
    by (simp add: InheritMoneyUnit_def inheritMoneyUnit.simps moneyCeilings_def has_key_def put_def)
  have "ValidateIssuance ?p = Inr ()" unfolding is_ok_unit[symmetric] by (simp add: issuance_eval)
  moreover have "Contains ?p [(''max_amount'', GNum ''20'')] = Inr ()"
    by (simp add: Contains_Inr scope_eval)
  ultimately have "Contains ?p [(''max_amount'', GNum ''20''), (''currency'', GStr ''USD'')] = Inr () \<and>
      unit_qualified [(''max_amount'', GNum ''20''), (''currency'', GStr ''USD'')]"
    using i by (intro inherit_money_unit_sound) (auto simp: json_scope_def wf_map_def)
  with i show ?thesis by blast
qed

end
