(* ===== verification/Subband.thy ===== *)
theory Subband
  imports Issuance "HOL-Library.Multiset"
begin

text \<open>
  Pre-division of a cumulative budget (src/internal/tbac/subband.go): the amount axis, the time axis,
  and what an accepted division guarantees for the transactions spent under its slices.

  Times are Unix seconds (\<open>int64\<close>); the code only compares them. \<open>sort.Slice\<close> sorts by opening
  time in an unspecified order of ties; two non-empty windows that open together overlap in either
  order, so a stable sort gives the same verdict.
\<close>

datatype subband_err =
    ParentScope issuance_err
  | ErrSubbandNoParentBudget
  | BudgetNotNumeric
  | ErrSubbandEmpty
  | SliceScope nat issuance_err
  | ErrSubbandNotABand nat
  | SliceNotContained nat scope_err
  | SliceNotNumeric nat
  | ErrSubbandOverAllocates rat rat
  | ErrBandWindowEmpty
  | ErrBandWindowOutsideParent nat
  | ErrBandWindowsOverlap

section \<open>The amount axis\<close>

fun sum_slices :: "scope \<Rightarrow> nat \<Rightarrow> rat \<Rightarrow> scope list \<Rightarrow> subband_err + rat" where
  "sum_slices parent i acc [] = Inr acc"
| "sum_slices parent i acc (slice # slices) =
     (case ValidateIssuance slice of
        Inl e \<Rightarrow> Inl (SliceScope i e)
      | Inr _ \<Rightarrow>
          (case map_of slice cumulativeDim of
             None \<Rightarrow> Inl (ErrSubbandNotABand i)
           | Some sv \<Rightarrow>
               (case Contains parent slice of
                  Inl e \<Rightarrow> Inl (SliceNotContained i e)
                | Inr _ \<Rightarrow>
                    (case toRat sv of
                       None \<Rightarrow> Inl (SliceNotNumeric i)
                     | Some sr \<Rightarrow> sum_slices parent (Suc i) (acc + sr) slices))))"

definition ValidateSubbandDivision :: "scope \<Rightarrow> scope list \<Rightarrow> subband_err + rat" where
  "ValidateSubbandDivision parent slices =
     (case ValidateIssuance parent of
        Inl e \<Rightarrow> Inl (ParentScope e)
      | Inr _ \<Rightarrow>
          (case map_of parent cumulativeDim of
             None \<Rightarrow> Inl ErrSubbandNoParentBudget
           | Some pv \<Rightarrow>
               (case toRat pv of
                  None \<Rightarrow> Inl BudgetNotNumeric
                | Some budget \<Rightarrow>
                    if slices = [] then Inl ErrSubbandEmpty
                    else case sum_slices parent 0 0 slices of
                        Inl e \<Rightarrow> Inl e
                      | Inr alloc \<Rightarrow>
                          if alloc > budget then Inl (ErrSubbandOverAllocates alloc budget)
                          else Inr alloc)))"

section \<open>The time axis\<close>

record band =
  bd_Scope :: scope
  bd_NotBefore :: int
  bd_Expiry :: int

fun check_windows :: "int \<Rightarrow> int \<Rightarrow> nat \<Rightarrow> band list \<Rightarrow> subband_err + unit" where
  "check_windows nbf pexp i [] = Inr ()"
| "check_windows nbf pexp i (b # bs) =
     (if bd_NotBefore b \<ge> bd_Expiry b then Inl ErrBandWindowEmpty
      else if bd_NotBefore b < nbf \<or> bd_Expiry b > pexp then Inl (ErrBandWindowOutsideParent i)
      else check_windows nbf pexp (Suc i) bs)"

fun check_adjacent :: "band list \<Rightarrow> subband_err + unit" where
  "check_adjacent (prev # cur # bs) =
     (if bd_NotBefore cur < bd_Expiry prev then Inl ErrBandWindowsOverlap else check_adjacent (cur # bs))"
| "check_adjacent _ = Inr ()"

definition ValidateBandDivision :: "scope \<Rightarrow> int \<Rightarrow> int \<Rightarrow> band list \<Rightarrow> subband_err + rat" where
  "ValidateBandDivision parent parentNbf parentExp bands =
     (case ValidateSubbandDivision parent (map bd_Scope bands) of
        Inl e \<Rightarrow> Inl e
      | Inr alloc \<Rightarrow>
          if parentNbf \<ge> parentExp then Inl ErrBandWindowEmpty
          else case check_windows parentNbf parentExp 0 bands of
              Inl e \<Rightarrow> Inl e
            | Inr _ \<Rightarrow>
                (case check_adjacent (sort_key bd_NotBefore bands) of
                   Inl e \<Rightarrow> Inl e
                 | Inr _ \<Rightarrow> Inr alloc))"

section \<open>Facts\<close>

definition cumulative :: "scope \<Rightarrow> rat" where
  "cumulative s = (case map_of s cumulativeDim of
      None \<Rightarrow> 0 | Some v \<Rightarrow> (case toRat v of None \<Rightarrow> 0 | Some r \<Rightarrow> r))"

lemma sum_slices_ok:
  "sum_slices parent i acc slices = Inr alloc \<longleftrightarrow>
     (\<forall>s \<in> set slices. is_ok (ValidateIssuance s) \<and> is_ok (Contains parent s) \<and>
        (\<exists>v r. map_of s cumulativeDim = Some v \<and> toRat v = Some r)) \<and>
     alloc = acc + sum_list (map cumulative slices)"
proof (induction slices arbitrary: i acc)
  case (Cons s slices)
  show ?case
    by (auto simp: Cons.IH cumulative_def is_ok_iff split: sum.splits option.splits)
qed auto

lemma ValidateSubbandDivision_ok:
  "ValidateSubbandDivision parent slices = Inr alloc \<longleftrightarrow>
     is_ok (ValidateIssuance parent) \<and> (\<exists>v r. map_of parent cumulativeDim = Some v \<and> toRat v = Some r) \<and>
     slices \<noteq> [] \<and> sum_slices parent 0 0 slices = Inr alloc \<and> alloc \<le> cumulative parent"
  by (auto simp: ValidateSubbandDivision_def cumulative_def is_ok_iff split: sum.splits option.splits if_splits)

lemma issued_cumulative_nonneg:
  assumes "is_ok (ValidateIssuance s)"
  shows "0 \<le> cumulative s"
proof (cases "map_of s cumulativeDim")
  case (Some v)
  then have "(cumulativeDim, v) \<in> set s" by (rule map_of_SomeD)
  with assms have "money_ok s v"
    by (fastforce simp: ValidateIssuance_def validateIssuance_ok[of s] moneyCeilings_def cumulativeDim_def)
  with Some show ?thesis by (auto simp: cumulative_def money_ok_def)
qed (simp add: cumulative_def)

lemma issued_currency:
  assumes "is_ok (ValidateIssuance s)" and "map_of s cumulativeDim = Some v"
  shows "\<exists>c. map_of s ''currency'' = Some (GStr c)"
proof -
  from assms(2) have "(cumulativeDim, v) \<in> set s" by (rule map_of_SomeD)
  with assms(1) have "money_ok s v"
    by (fastforce simp: ValidateIssuance_def validateIssuance_ok[of s] moneyCeilings_def cumulativeDim_def)
  then show ?thesis by (auto simp: money_ok_def)
qed

lemma check_windows_ok:
  "is_ok (check_windows nbf pexp i bs) \<longleftrightarrow>
     (\<forall>b \<in> set bs. bd_NotBefore b < bd_Expiry b \<and> nbf \<le> bd_NotBefore b \<and> bd_Expiry b \<le> pexp)"
  by (induction bs arbitrary: i) auto

definition overlap :: "band \<Rightarrow> band \<Rightarrow> bool" where
  "overlap a b = (\<exists>t. bd_NotBefore a \<le> t \<and> t < bd_Expiry a \<and> bd_NotBefore b \<le> t \<and> t < bd_Expiry b)"

lemma overlap_sym: "overlap a b \<Longrightarrow> overlap b a"
  by (auto simp: overlap_def)

lemma check_adjacent_ok:
  assumes "is_ok (check_adjacent bs)" and "sorted (map bd_NotBefore bs)"
    and "\<forall>b \<in> set bs. bd_NotBefore b < bd_Expiry b"
  shows "sorted_wrt (\<lambda>a b. bd_Expiry a \<le> bd_NotBefore b) bs"
  using assms
proof (induction bs rule: check_adjacent.induct)
  case (1 p c bs)
  then have pc: "bd_Expiry p \<le> bd_NotBefore c" and tl: "is_ok (check_adjacent (c # bs))"
    by (auto split: if_splits)
  with 1 have "sorted_wrt (\<lambda>a b. bd_Expiry a \<le> bd_NotBefore b) (c # bs)" by auto
  moreover have "\<forall>b \<in> set bs. bd_NotBefore c \<le> bd_NotBefore b" using 1 by auto
  ultimately show ?case using pc by fastforce
qed auto

lemma sorted_wrt_sym_mset:
  assumes "\<And>a b. R a b \<Longrightarrow> R b a" and "sorted_wrt R bs" and "mset bs = mset cs"
  shows "sorted_wrt R cs"
  using assms(2,3)
proof (induction cs arbitrary: bs)
  case (Cons c cs)
  from Cons.prems(2) have "c \<in> set bs" by (metis list.set_intros(1) set_mset_mset)
  then obtain us vs where bs: "bs = us @ c # vs" by (meson split_list)
  with Cons.prems have "sorted_wrt R (us @ vs)" and m: "mset (us @ vs) = mset cs"
    by (auto simp: sorted_wrt_append)
  then have "sorted_wrt R cs" using Cons.IH by blast
  moreover have "R c x" if "x \<in> set cs" for x
  proof -
    from that m have "x \<in> set us \<or> x \<in> set vs" by (metis Un_iff set_append set_mset_mset)
    with Cons.prems(1) bs assms(1) show ?thesis by (auto simp: sorted_wrt_append)
  qed
  ultimately show ?case by simp
qed simp

lemma bands_disjoint:
  assumes "is_ok (check_adjacent (sort_key bd_NotBefore bands))"
    and "\<forall>b \<in> set bands. bd_NotBefore b < bd_Expiry b"
    and "i < j" and "j < length bands"
  shows "\<not> overlap (bands ! i) (bands ! j)"
proof -
  have "sorted_wrt (\<lambda>a b. bd_Expiry a \<le> bd_NotBefore b) (sort_key bd_NotBefore bands)"
    by (rule check_adjacent_ok) (use assms in auto)
  then have "sorted_wrt (\<lambda>a b. \<not> overlap a b) (sort_key bd_NotBefore bands)"
    by (rule sorted_wrt_mono_rel[rotated]) (auto simp: overlap_def)
  then have "sorted_wrt (\<lambda>a b. \<not> overlap a b) bands"
    by (rule sorted_wrt_sym_mset[rotated]) (auto dest: overlap_sym)
  with assms(3,4) show ?thesis by (simp add: sorted_wrt_iff_nth_less)
qed

section \<open>Spending under an accepted division\<close>

lemma sum_list_nth: "sum_list (map f xs) = (\<Sum>i<length xs. f (xs ! i))" for f :: "'a \<Rightarrow> rat"
  by (simp add: sum_list_sum_nth atLeast0LessThan)

lemma distinct_spend_bound:
  fixes f g :: "nat \<Rightarrow> rat"
  assumes "distinct (map fst legs)" and "\<forall>(i, x) \<in> set legs. i < n \<and> x \<le> f i"
    and "\<forall>i < n. 0 \<le> f i"
  shows "sum_list (map snd legs) \<le> (\<Sum>i<n. f i)"
proof -
  have "sum_list (map snd legs) \<le> sum_list (map f (map fst legs))"
    using assms(2) by (induction legs) (auto intro: add_mono)
  also have "\<dots> = (\<Sum>i \<in> set (map fst legs). f i)"
    using assms(1) by (simp add: sum_list_distinct_conv_sum_set del: map_map set_map)
  also have "\<dots> \<le> (\<Sum>i<n. f i)"
    by (rule sum_mono2) (use assms(2,3) in auto)
  finally show ?thesis .
qed

text \<open>
  A use of a slice: the index of the slice and the transaction authorised under it, which the
  verifier admits only when its projection is contained in the slice.
\<close>

definition admits :: "scope \<Rightarrow> txnctx \<Rightarrow> bool" where
  "admits s tc = (case TxnScope s tc of Inl _ \<Rightarrow> False | Inr t \<Rightarrow> is_ok (Contains s t))"

definition amount_of :: "txnctx \<Rightarrow> rat" where
  "amount_of tc = (case ParseAmount (tc_Amount tc) of Inl _ \<Rightarrow> 0 | Inr x \<Rightarrow> x)"

lemma admits_bounded:
  assumes "admits s tc" and "map_of s cumulativeDim = Some v" and "toRat v = Some r"
  shows "amount_of tc \<le> cumulative s" and "map_of s ''currency'' = Some (GStr (tc_Currency tc))"
  using assms contained_transaction_bounded[of s tc _ cumulativeDim v]
  by (auto simp: admits_def amount_of_def cumulative_def money_dims_def split: sum.splits)

lemma contained_currency:
  assumes "is_ok (Contains parent s)" and "map_of s ''currency'' = Some (GStr c)"
  shows "map_of parent ''currency'' = Some (GStr c)"
  using Contains_lookup[OF assms] contained_string by blast

lemma division_slice:
  assumes "ValidateSubbandDivision parent slices = Inr alloc" and "s \<in> set slices"
  shows "is_ok (ValidateIssuance s)" "is_ok (Contains parent s)"
    "\<exists>v r. map_of s cumulativeDim = Some v \<and> toRat v = Some r"
  using assms by (auto simp: ValidateSubbandDivision_ok sum_slices_ok)

lemma division_total:
  assumes "ValidateSubbandDivision parent slices = Inr alloc"
  shows "alloc = (\<Sum>i<length slices. cumulative (slices ! i))" and "alloc \<le> cumulative parent"
  using assms by (auto simp: ValidateSubbandDivision_ok sum_slices_ok sum_list_nth)

text \<open>C26: an accepted division bounds the total spent. If \<open>ValidateSubbandDivision\<close> accepts the slices
  of a budget, then for every list of transactions that uses each slice at most once and stays
  within its slice, the amounts add up to at most the parent budget (exactly, over rationals), and
  all transactions are in the parent's currency.\<close>

theorem division_bounds_total_spend:
  assumes "ValidateSubbandDivision parent slices = Inr alloc"
    and "distinct (map fst legs)"
    and "\<forall>(i, tc) \<in> set legs. i < length slices \<and> admits (slices ! i) tc"
  shows "sum_list (map (\<lambda>(i, tc). amount_of tc) legs) \<le> alloc \<and> alloc \<le> cumulative parent \<and>
    (\<forall>(i, tc) \<in> set legs. map_of parent ''currency'' = Some (GStr (tc_Currency tc)))"
proof (intro conjI)
  let ?legs = "map (\<lambda>(i, tc). (i, amount_of tc)) legs"
  have slice: "i < length slices \<Longrightarrow> slices ! i \<in> set slices" for i by simp
  have "sum_list (map snd ?legs) \<le> (\<Sum>i<length slices. cumulative (slices ! i))"
  proof (rule distinct_spend_bound)
    show "distinct (map fst ?legs)" using assms(2) by (simp add: comp_def split_beta)
    show "\<forall>(i, x) \<in> set ?legs. i < length slices \<and> x \<le> cumulative (slices ! i)"
      using assms(3) admits_bounded(1) division_slice(3)[OF assms(1) slice] by fastforce
    show "\<forall>i < length slices. 0 \<le> cumulative (slices ! i)"
      using division_slice(1)[OF assms(1) slice] issued_cumulative_nonneg by blast
  qed
  then show "sum_list (map (\<lambda>(i, tc). amount_of tc) legs) \<le> alloc"
    using division_total(1)[OF assms(1)] by (simp add: comp_def split_def)
  show "alloc \<le> cumulative parent" by (rule division_total(2)[OF assms(1)])
  show "\<forall>(i, tc) \<in> set legs. map_of parent ''currency'' = Some (GStr (tc_Currency tc))"
    using assms(3) admits_bounded(2) division_slice[OF assms(1) slice] contained_currency by fastforce
qed

definition sample_budget :: scope where
  "sample_budget = [(''max_cumulative'', GNum ''100''), (''currency'', GStr ''USD'')]"

definition sample_slices :: "scope list" where
  "sample_slices = [[(''max_cumulative'', GNum ''30''), (''currency'', GStr ''USD'')],
     [(''max_cumulative'', GNum ''70''), (''currency'', GStr ''USD'')]]"

lemma sample_division: "ValidateSubbandDivision sample_budget sample_slices = Inr (100)"
proof -
  have "is_ok (ValidateIssuance sample_budget)" "\<forall>s \<in> set sample_slices. is_ok (ValidateIssuance s)"
    "\<forall>s \<in> set sample_slices. is_ok (Contains sample_budget s)"
    by (simp_all add: sample_budget_def sample_slices_def issuance_eval scope_eval)
  moreover have "\<forall>s \<in> set sample_slices. \<exists>v r. map_of s cumulativeDim = Some v \<and> toRat v = Some r"
    "\<exists>v r. map_of sample_budget cumulativeDim = Some v \<and> toRat v = Some r"
    "0 + sum_list (map cumulative sample_slices) = 100" "100 \<le> cumulative sample_budget"
    by (simp_all add: cumulative_def cumulativeDim_def sample_budget_def sample_slices_def scope_eval)
  ultimately show ?thesis
    unfolding ValidateSubbandDivision_ok sum_slices_ok by (simp add: sample_slices_def)
qed

theorem division_bounds_total_spend_witness:
  "sum_list (map (\<lambda>(i, tc). amount_of tc) [(0::nat, sample_txn), (1, sample_txn)]) \<le> 100 \<and>
   100 \<le> cumulative sample_budget"
proof -
  have "admits (sample_slices ! i) sample_txn" if "i < 2" for i
    using that by (auto simp: less_2_cases_iff admits_def TxnScope_def project_ceiling_def has_key_def
        cumulativeDim_def sample_txn_def sample_slices_def parse_amount_eval scope_eval)
  moreover have "length sample_slices = 2" by (simp add: sample_slices_def)
  ultimately show ?thesis
    using division_bounds_total_spend[OF sample_division, of "[(0, sample_txn), (1, sample_txn)]"] by simp
qed

text \<open>An accepted windowed schedule never stacks. \<open>ValidateBandDivision\<close> returns the allocated
  total of an accepted amount division, every band's window is non-empty and lies inside the
  parent's, and no instant lies in the windows of two different bands.\<close>

theorem band_windows_never_stack:
  assumes "ValidateBandDivision parent pnbf pexp bands = Inr alloc"
  shows "ValidateSubbandDivision parent (map bd_Scope bands) = Inr alloc \<and>
    (\<forall>b \<in> set bands. bd_NotBefore b < bd_Expiry b \<and> pnbf \<le> bd_NotBefore b \<and> bd_Expiry b \<le> pexp) \<and>
    (\<forall>i j t. i < j \<and> j < length bands \<longrightarrow>
       \<not> (bd_NotBefore (bands ! i) \<le> t \<and> t < bd_Expiry (bands ! i) \<and>
          bd_NotBefore (bands ! j) \<le> t \<and> t < bd_Expiry (bands ! j)))"
proof -
  from assms have "ValidateSubbandDivision parent (map bd_Scope bands) = Inr alloc"
    and w: "is_ok (check_windows pnbf pexp 0 bands)"
    and "is_ok (check_adjacent (sort_key bd_NotBefore bands))"
    by (auto simp: ValidateBandDivision_def is_ok_iff split: sum.splits if_splits)
  with bands_disjoint[of bands] w[unfolded check_windows_ok] show ?thesis
    unfolding overlap_def by blast
qed

definition sample_bands :: "band list" where
  "sample_bands = [\<lparr>bd_Scope = sample_slices ! 0, bd_NotBefore = 20, bd_Expiry = 30\<rparr>,
     \<lparr>bd_Scope = sample_slices ! 1, bd_NotBefore = 10, bd_Expiry = 20\<rparr>]"

lemma sample_band_division: "ValidateBandDivision sample_budget 0 100 sample_bands = Inr (100)"
proof -
  have "map bd_Scope sample_bands = sample_slices" by (simp add: sample_bands_def sample_slices_def)
  then show ?thesis
    by (simp add: ValidateBandDivision_def sample_division) (simp add: sample_bands_def)
qed

theorem band_windows_never_stack_witness:
  "\<not> (bd_NotBefore (sample_bands ! 0) \<le> 20 \<and> 20 < bd_Expiry (sample_bands ! 0) \<and>
      bd_NotBefore (sample_bands ! 1) \<le> 20 \<and> 20 < bd_Expiry (sample_bands ! 1))"
proof -
  have "0 < (1::nat) \<and> 1 < length sample_bands" by (simp add: sample_bands_def)
  then show ?thesis using band_windows_never_stack[OF sample_band_division] by blast
qed

end
