(* ===== verification/SubbandCommit.thy ===== *)
theory SubbandCommit
  imports Subband MerkleTree "HOL-Library.Word"
begin

text \<open>
  The commitment to a divided budget (src/internal/tbac/subband_commit.go): leaves, group root,
  membership paths and their verification. SHA3-256 is a parameter; digests are byte strings.
  \<open>uint32\<close> positions and sizes are 32-bit words, so the level sizes of the verifier wrap as in the
  code.
\<close>

unbundle bit_operations_syntax

datatype commit_err =
    ErrUnknownHashSuite string
  | ErrEmptyGroup
  | ErrLegIndexOutOfRange
  | ErrMembershipMismatch string
  | ErrCumulativeNotNumeric
  | DivisionRejected subband_err

section \<open>Hashing\<close>

definition SuiteSHA3_256 :: string where
  "SuiteSHA3_256 = ''sha3-256''"

definition suite_sum :: "(bytes \<Rightarrow> bytes) \<Rightarrow> string \<Rightarrow> bytes \<Rightarrow> commit_err + bytes" where
  "suite_sum sha3 s data = (if s = SuiteSHA3_256 then Inr (sha3 data) else Inl (ErrUnknownHashSuite s))"

definition IsKnownHashSuite :: "(bytes \<Rightarrow> bytes) \<Rightarrow> string \<Rightarrow> bool" where
  "IsKnownHashSuite sha3 s = is_ok (suite_sum sha3 s [])"

definition DeclaresCumulativeBudget :: "scope \<Rightarrow> bool" where
  "DeclaresCumulativeBudget s = has_key s cumulativeDim"

text \<open>\<open>m[k]\<close> on a Go map gives the zero value, here the nil interface, for a missing key.\<close>

definition lookup_val :: "scope \<Rightarrow> string \<Rightarrow> gval" where
  "lookup_val m k = (case map_of m k of None \<Rightarrow> GNil | Some v \<Rightarrow> v)"

fun as_string :: "gval \<Rightarrow> string" where
  "as_string (GStr s) = s"
| "as_string _ = []"

definition canonicalMoney :: "gval \<Rightarrow> commit_err + string" where
  "canonicalMoney v = (case toRat v of None \<Rightarrow> Inl ErrCumulativeNotNumeric | Some r \<Rightarrow> Inr (rat_string r))"

definition lp :: "bytes \<Rightarrow> bytes" where
  "lp b = be_bytes 4 (length b) @ b"

definition be64 :: "int \<Rightarrow> bytes" where
  "be64 v = be_bytes 8 (nat (v mod 2 ^ 64))"

definition be32 :: "32 word \<Rightarrow> bytes" where
  "be32 v = be_bytes 4 (unat v)"

definition SubbandParentCommit :: "(bytes \<Rightarrow> bytes) \<Rightarrow> string \<Rightarrow> scope \<Rightarrow> commit_err + bytes" where
  "SubbandParentCommit sha3 suite parent =
     (case canonicalMoney (lookup_val parent cumulativeDim) of
        Inl e \<Rightarrow> Inl e
      | Inr budget \<Rightarrow>
          suite_sum sha3 suite (CHR 0x02 # lp (as_string (lookup_val parent ''currency'')) @ lp budget))"

definition leaf_preimage :: "bytes \<Rightarrow> string \<Rightarrow> string \<Rightarrow> int \<Rightarrow> int \<Rightarrow> 32 word \<Rightarrow> 32 word \<Rightarrow> bytes" where
  "leaf_preimage pc currency cum nbf ex legIndex groupSize =
     CHR 0x00 # pc @ lp currency @ lp cum @ be64 nbf @ be64 ex @ be32 legIndex @ be32 groupSize"

definition SubbandLeaf ::
  "(bytes \<Rightarrow> bytes) \<Rightarrow> string \<Rightarrow> bytes \<Rightarrow> band \<Rightarrow> 32 word \<Rightarrow> 32 word \<Rightarrow> commit_err + bytes" where
  "SubbandLeaf sha3 suite parentCommit b legIndex groupSize =
     (case canonicalMoney (lookup_val (bd_Scope b) cumulativeDim) of
        Inl e \<Rightarrow> Inl e
      | Inr cum \<Rightarrow>
          suite_sum sha3 suite
            (leaf_preimage parentCommit (as_string (lookup_val (bd_Scope b) ''currency'')) cum
               (bd_NotBefore b) (bd_Expiry b) legIndex groupSize))"

definition suite_node :: "(bytes \<Rightarrow> bytes) \<Rightarrow> string \<Rightarrow> bytes \<Rightarrow> bytes \<Rightarrow> commit_err + bytes" where
  "suite_node sha3 s l r = suite_sum sha3 s (CHR 0x01 # l @ r)"

section \<open>Root and paths\<close>

fun subband_level :: "(bytes \<Rightarrow> bytes) \<Rightarrow> string \<Rightarrow> bytes list \<Rightarrow> commit_err + bytes list" where
  "subband_level sha3 s (x # y # zs) =
     (case suite_node sha3 s x y of
        Inl e \<Rightarrow> Inl e
      | Inr n \<Rightarrow>
          (case subband_level sha3 s zs of
             Inl e \<Rightarrow> Inl e
           | Inr ns \<Rightarrow> Inr (n # ns)))"
| "subband_level sha3 s xs = Inr xs"

lemma subband_level_length: "subband_level sha3 s xs = Inr ys \<Longrightarrow> length ys = (length xs + 1) div 2"
  by (induction sha3 s xs arbitrary: ys rule: subband_level.induct) (auto split: sum.splits)

function root_loop :: "(bytes \<Rightarrow> bytes) \<Rightarrow> string \<Rightarrow> bytes list \<Rightarrow> commit_err + bytes" where
  "root_loop sha3 s level =
     (if length level > 1 then
        (case subband_level sha3 s level of Inl e \<Rightarrow> Inl e | Inr nxt \<Rightarrow> root_loop sha3 s nxt)
      else Inr (hd level))"
  by pat_completeness auto
termination
  by (relation "measure (\<lambda>(h, s, l). length l)") (auto dest: subband_level_length)

declare root_loop.simps [simp del]

definition SubbandGroupRoot :: "(bytes \<Rightarrow> bytes) \<Rightarrow> string \<Rightarrow> bytes list \<Rightarrow> commit_err + bytes" where
  "SubbandGroupRoot sha3 suite leaves = (if leaves = [] then Inl ErrEmptyGroup else root_loop sha3 suite leaves)"

function path_loop :: "(bytes \<Rightarrow> bytes) \<Rightarrow> string \<Rightarrow> bytes list \<Rightarrow> nat \<Rightarrow> bytes list \<Rightarrow> commit_err + bytes list" where
  "path_loop sha3 s level pos path =
     (if length level > 1 then
        (let sib = pos XOR 1; path' = (if sib < length level then path @ [level ! sib] else path) in
         case subband_level sha3 s level of
           Inl e \<Rightarrow> Inl e
         | Inr nxt \<Rightarrow> path_loop sha3 s nxt (pos div 2) path')
      else Inr path)"
  by pat_completeness auto
termination
  by (relation "measure (\<lambda>(h, s, l, p, q). length l)") (auto dest: subband_level_length)

declare path_loop.simps [simp del]

definition SubbandMerklePath :: "(bytes \<Rightarrow> bytes) \<Rightarrow> string \<Rightarrow> bytes list \<Rightarrow> int \<Rightarrow> commit_err + bytes list" where
  "SubbandMerklePath sha3 suite leaves index =
     (if leaves = [] then Inl ErrEmptyGroup
      else if index < 0 \<or> index \<ge> int (length leaves) then Inl ErrLegIndexOutOfRange
      else path_loop sha3 suite leaves (nat index) [])"

section \<open>Membership\<close>

text \<open>The next level size at 32 bits: it wraps to zero for the largest size only.\<close>

lemma unat_half_size:
  fixes n :: "32 word"
  shows "unat ((n + 1) div 2) = (if unat n = 2 ^ 32 - 1 then 0 else (unat n + 1) div 2)"
proof -
  have lt: "unat n < 2 ^ 32" using unsigned_less[of n] by simp
  have "unat ((n + 1) div 2) = unat (n + 1) div 2" by (simp add: unat_div)
  also have "unat (n + 1) = (if unat n = 2 ^ 32 - 1 then 0 else unat n + 1)"
    using lt by (auto simp: unat_word_ariths)
  finally show ?thesis by auto
qed

lemma half_size_less: "1 < (levelLen :: 32 word) \<Longrightarrow> unat ((levelLen + 1) div 2) < unat levelLen"
  by (auto simp: unat_half_size word_less_nat_alt)

function membership_walk ::
  "(bytes \<Rightarrow> bytes) \<Rightarrow> string \<Rightarrow> bytes \<Rightarrow> 32 word \<Rightarrow> 32 word \<Rightarrow> bytes list \<Rightarrow> commit_err + bytes \<times> bytes list" where
  "membership_walk sha3 s h pos levelLen path =
     (if levelLen > 1 then
        if pos XOR 1 < levelLen then
          (case path of
             [] \<Rightarrow> Inl (ErrMembershipMismatch ''path too short'')
           | p # ps \<Rightarrow>
               (case (if pos mod 2 = 0 then suite_node sha3 s h p else suite_node sha3 s p h) of
                  Inl e \<Rightarrow> Inl e
                | Inr n \<Rightarrow> membership_walk sha3 s n (pos div 2) ((levelLen + 1) div 2) ps))
        else membership_walk sha3 s h (pos div 2) ((levelLen + 1) div 2) path
      else Inr (h, path))"
  by pat_completeness auto
termination
  by (relation "measure (\<lambda>(h, s, d, p, l, q). unat l)") (auto intro: half_size_less)

declare membership_walk.simps [simp del]

definition SubbandVerifyMembership ::
  "(bytes \<Rightarrow> bytes) \<Rightarrow> string \<Rightarrow> bytes \<Rightarrow> 32 word \<Rightarrow> 32 word \<Rightarrow> bytes list \<Rightarrow> bytes \<Rightarrow> commit_err + unit" where
  "SubbandVerifyMembership sha3 suite leaf legIndex groupSize path rt =
     (if groupSize = 0 then Inl ErrEmptyGroup
      else if legIndex \<ge> groupSize then Inl ErrLegIndexOutOfRange
      else case membership_walk sha3 suite leaf legIndex groupSize path of
          Inl e \<Rightarrow> Inl e
        | Inr (h, rest) \<Rightarrow>
            if rest \<noteq> [] then Inl (ErrMembershipMismatch ''path longer than the tree'')
            else if h \<noteq> rt then Inl (ErrMembershipMismatch [])
            else Inr ())"

section \<open>Committing a division\<close>

definition commit_leaves ::
  "(bytes \<Rightarrow> bytes) \<Rightarrow> string \<Rightarrow> bytes \<Rightarrow> band list \<Rightarrow> commit_err + bytes list" where
  "commit_leaves sha3 suite parentCommit bands =
     map_err (\<lambda>(i, b). SubbandLeaf sha3 suite parentCommit b (of_nat i) (of_nat (length bands)))
       (enumerate 0 bands)"

definition CommitBandDivision ::
  "(bytes \<Rightarrow> bytes) \<Rightarrow> string \<Rightarrow> scope \<Rightarrow> int \<Rightarrow> int \<Rightarrow> band list \<Rightarrow>
     commit_err + bytes \<times> bytes list \<times> bytes list list" where
  "CommitBandDivision sha3 suite parent parentNbf parentExp bands =
     (case suite_sum sha3 suite [] of
        Inl e \<Rightarrow> Inl e
      | Inr _ \<Rightarrow>
          (case ValidateBandDivision parent parentNbf parentExp bands of
             Inl e \<Rightarrow> Inl (DivisionRejected e)
           | Inr _ \<Rightarrow>
               (case SubbandParentCommit sha3 suite parent of
                  Inl e \<Rightarrow> Inl e
                | Inr parentCommit \<Rightarrow>
                    (case commit_leaves sha3 suite parentCommit bands of
                       Inl e \<Rightarrow> Inl e
                     | Inr leaves \<Rightarrow>
                         (case SubbandGroupRoot sha3 suite leaves of
                            Inl e \<Rightarrow> Inl e
                          | Inr rt \<Rightarrow>
                              (case map_err (\<lambda>i. SubbandMerklePath sha3 suite leaves (int i)) [0..<length bands] of
                                 Inl e \<Rightarrow> Inl e
                               | Inr paths \<Rightarrow> Inr (rt, leaves, paths)))))))"

section \<open>The loops are the generic tree\<close>

definition sb_node :: "(bytes \<Rightarrow> bytes) \<Rightarrow> bytes \<Rightarrow> bytes \<Rightarrow> bytes" where
  "sb_node sha3 l r = sha3 (CHR 0x01 # l @ r)"

lemma suite_node_known [simp]: "suite_node sha3 SuiteSHA3_256 l r = Inr (sb_node sha3 l r)"
  by (simp add: suite_node_def suite_sum_def sb_node_def)

lemma subband_level_known [simp]:
  "subband_level sha3 SuiteSHA3_256 xs = Inr (next_level (sb_node sha3) xs)"
  by (induction "sb_node sha3" xs rule: next_level.induct) auto

lemma root_loop_known: "root_loop sha3 SuiteSHA3_256 xs = Inr (tree_root (sb_node sha3) xs)"
proof (induction "sb_node sha3" xs rule: tree_root.induct)
  case (1 xs)
  then show ?case by (subst root_loop.simps, subst tree_root.simps) auto
qed

lemma xor_one_sibling: "pos XOR Suc 0 = sibling pos"
  by (auto simp: xor_Suc_0_eq sibling_def)

lemma path_loop_known:
  "path_loop sha3 SuiteSHA3_256 xs pos acc = Inr (acc @ tree_path (sb_node sha3) xs pos)"
proof (induction "sb_node sha3" xs pos arbitrary: acc rule: tree_path.induct)
  case (1 xs pos)
  then show ?case
    by (subst path_loop.simps, subst tree_path.simps) (auto simp: xor_one_sibling)
qed

lemma unat_xor_one: "unat ((pos :: 32 word) XOR 1) = sibling (unat pos)"
  by (simp add: unsigned_xor_eq xor_one_sibling)

lemma unat_even: "(pos :: 32 word) mod 2 = 0 \<longleftrightarrow> even (unat pos)"
  by (simp add: word_unat_eq_iff unat_mod even_iff_mod_2_eq_zero)

lemma membership_walk_known:
  "unat n < 2 ^ 32 - 1 \<Longrightarrow>
   membership_walk sha3 SuiteSHA3_256 h pos n path =
     (case tree_fold (sb_node sha3) h (unat pos) (unat n) path of
        None \<Rightarrow> Inl (ErrMembershipMismatch ''path too short'')
      | Some r \<Rightarrow> Inr r)"
proof (induction "sb_node sha3" h "unat pos" "unat n" path arbitrary: pos n rule: tree_fold.induct)
  case (1 h path)
  show ?case
  proof (cases "unat n \<le> 1")
    case True
    then show ?thesis
      by (subst membership_walk.simps, subst tree_fold.simps) (simp add: word_less_nat_alt)
  next
    case False
    have half: "unat ((n + 1) div 2) = (unat n + 1) div 2" using 1(3) by (simp add: unat_half_size)
    have small: "unat ((n + 1) div 2) < 2 ^ 32 - 1" using 1(3) False by (simp add: half)
    have pd: "unat (pos div 2) = unat pos div 2" by (simp add: unat_div)
    show ?thesis
      using False 1(1)[OF False _ _ pd[symmetric] half[symmetric] small]
        1(2)[OF False _ pd[symmetric] half[symmetric] small]
      by (subst membership_walk.simps, subst tree_fold.simps)
         (auto simp: word_less_nat_alt unat_xor_one unat_even pd half split: list.split)
  qed
qed

lemma membership_known:
  assumes "unat n < 2 ^ 32 - 1"
  shows "SubbandVerifyMembership sha3 SuiteSHA3_256 leaf leg n path rt = Inr () \<longleftrightarrow>
    leg < n \<and> tree_fold (sb_node sha3) leaf (unat leg) (unat n) path = Some (rt, [])"
  by (auto simp: SubbandVerifyMembership_def membership_walk_known[OF assms] split: option.splits)

section \<open>The commitment as an interface\<close>

definition sb_verify :: "(bytes \<Rightarrow> bytes) \<Rightarrow> bytes \<Rightarrow> nat \<Rightarrow> nat \<Rightarrow> commit_err + bytes list \<Rightarrow> commit_err + bytes \<Rightarrow> bool" where
  "sb_verify sha3 leaf i n p r =
     (i < 2 ^ 32 \<and>
      (case (p, r) of
         (Inr path, Inr rt) \<Rightarrow> is_ok (SubbandVerifyMembership sha3 SuiteSHA3_256 leaf (of_nat i) (of_nat n) path rt)
       | _ \<Rightarrow> False))"

definition sb_safe :: "(bytes \<Rightarrow> bytes) \<Rightarrow> bytes list \<Rightarrow> bytes \<Rightarrow> nat \<Rightarrow> commit_err + bytes list \<Rightarrow> bool" where
  "sb_safe sha3 leaves leaf i p =
     (case p of
        Inl _ \<Rightarrow> False
      | Inr path \<Rightarrow> collision_free (sb_node sha3)
          (tree_pairs (sb_node sha3) leaves \<union> fold_pairs (sb_node sha3) leaf i (length leaves) path))"

lemma unat_small: "n < 2 ^ 32 \<Longrightarrow> unat (of_nat n :: 32 word) = n"
  by (simp add: unat_of_nat)

lemma sb_verify_known:
  assumes "n < 2 ^ 32 - 1"
  shows "sb_verify sha3 leaf i n (Inr path) (Inr rt) \<longleftrightarrow>
    i < n \<and> tree_fold (sb_node sha3) leaf i n path = Some (rt, [])"
  using assms
  by (auto simp: sb_verify_def is_ok_unit membership_known unat_small word_less_nat_alt)

lemma SubbandGroupRoot_known:
  "leaves \<noteq> [] \<Longrightarrow> SubbandGroupRoot sha3 SuiteSHA3_256 leaves = Inr (tree_root (sb_node sha3) leaves)"
  by (simp add: SubbandGroupRoot_def root_loop_known)

lemma SubbandMerklePath_known:
  "i < length leaves \<Longrightarrow>
   SubbandMerklePath sha3 SuiteSHA3_256 leaves (int i) = Inr (tree_path (sb_node sha3) leaves i)"
  by (auto simp: SubbandMerklePath_def path_loop_known)

interpretation sb: list_commitment
  "SubbandGroupRoot sha3 SuiteSHA3_256"
  "\<lambda>leaves i. SubbandMerklePath sha3 SuiteSHA3_256 leaves (int i)"
  "sb_verify sha3" "\<lambda>n. n < 2 ^ 32 - 1" "sb_safe sha3"
  for sha3
proof
  fix xs :: "bytes list" and i
  assume n: "length xs < 2 ^ 32 - 1" and i: "i < length xs"
  then have "xs \<noteq> []" by auto
  with n i tree_path_complete[OF i, of "sb_node sha3" "[]"]
  show "sb_verify sha3 (xs ! i) i (length xs) (SubbandMerklePath sha3 SuiteSHA3_256 xs (int i))
      (SubbandGroupRoot sha3 SuiteSHA3_256 xs)"
    by (simp add: SubbandGroupRoot_known SubbandMerklePath_known sb_verify_known)
next
  fix xs :: "bytes list" and x i p
  assume n: "length xs < 2 ^ 32 - 1"
    and v: "sb_verify sha3 x i (length xs) p (SubbandGroupRoot sha3 SuiteSHA3_256 xs)"
    and s: "sb_safe sha3 xs x i p"
  from v have "xs \<noteq> []" by (auto simp: sb_verify_def SubbandGroupRoot_def split: sum.splits)
  moreover obtain path where p: "p = Inr path" using s by (auto simp: sb_safe_def split: sum.splits)
  ultimately have "i < length xs"
    "tree_fold (sb_node sha3) x i (length xs) path = Some (tree_root (sb_node sha3) xs, [])"
    using v sb_verify_known[OF n] by (simp_all add: SubbandGroupRoot_known)
  with tree_fold_sound[of i xs "sb_node sha3" x path "[]"] s p
  show "i < length xs \<and> x = xs ! i" by (simp add: sb_safe_def)
qed

section \<open>What a leaf binds\<close>

lemma lp_inj:
  assumes "length a < 2 ^ 32" and "length b < 2 ^ 32" and "lp a @ x = lp b @ y"
  shows "a = b \<and> x = y"
proof -
  from assms(3) have "be_bytes 4 (length a) = be_bytes 4 (length b)" and rest: "a @ x = b @ y"
    by (simp_all add: lp_def)
  from be_bytes_inj[OF _ _ this(1)] assms(1,2) have "length a = length b" by simp
  with rest show ?thesis by simp
qed

lemma be64_inj:
  assumes "int64 v" and "int64 w" and "be64 v = be64 w"
  shows "v = w"
proof -
  have "nat (v mod 2 ^ 64) = nat (w mod 2 ^ 64)"
    using assms(3) unfolding be64_def
    by (rule be_bytes_inj[rotated 2]) (simp_all add: nat_less_iff)
  then have "v mod 2 ^ 64 = w mod 2 ^ 64" by (simp add: nat_eq_iff)
  then have "2 ^ 64 dvd v - w" by (simp add: mod_eq_dvd_iff)
  moreover have "\<bar>v - w\<bar> < 2 ^ 64" using assms(1,2) by (auto simp: int64_def)
  ultimately show ?thesis
    by (metis abs_dvd_iff dvd_imp_le_int not_le eq_iff_diff_eq_0 abs_of_pos zero_less_numeral zero_less_power)
qed

lemma length_be [simp]: "length (be64 v) = 8" "length (be32 w) = 4"
  by (simp_all add: be64_def be32_def)

lemma be32_inj: "be32 v = be32 w \<Longrightarrow> v = w"
proof -
  assume "be32 v = be32 w"
  then have "unat v = unat w"
    unfolding be32_def by (rule be_bytes_inj[rotated 2]) (use unsigned_less[of v] unsigned_less[of w] in auto)
  then show ?thesis by (simp add: word_unat_eq_iff)
qed

lemma leaf_preimage_inj:
  assumes "leaf_preimage pc c m nb ex i n = leaf_preimage pc' c' m' nb' ex' i' n'"
    and "length pc = length pc'" and "length c < 2 ^ 32" "length c' < 2 ^ 32"
    and "length m < 2 ^ 32" "length m' < 2 ^ 32"
    and "int64 nb" "int64 nb'" "int64 ex" "int64 ex'"
  shows "pc = pc' \<and> c = c' \<and> m = m' \<and> nb = nb' \<and> ex = ex' \<and> i = i' \<and> n = n'"
proof -
  from assms(1,2) have pc: "pc = pc'" and r1: "lp c @ (lp m @ be64 nb @ be64 ex @ be32 i @ be32 n) =
      lp c' @ (lp m' @ be64 nb' @ be64 ex' @ be32 i' @ be32 n')"
    by (simp_all add: leaf_preimage_def)
  from lp_inj[OF assms(3,4) r1] have c: "c = c'" and r2: "lp m @ (be64 nb @ be64 ex @ be32 i @ be32 n) =
      lp m' @ (be64 nb' @ be64 ex' @ be32 i' @ be32 n')" by simp_all
  from lp_inj[OF assms(5,6) r2] have "m = m'" "be64 nb @ be64 ex @ be32 i @ be32 n =
      be64 nb' @ be64 ex' @ be32 i' @ be32 n'" by simp_all
  with pc c assms(7-10) show ?thesis by (auto dest: be64_inj be32_inj)
qed

section \<open>Committed divisions\<close>

lemma suite_sum_ok: "suite_sum sha3 s d = Inr h \<longleftrightarrow> s = SuiteSHA3_256 \<and> h = sha3 d"
  by (auto simp: suite_sum_def)

lemma commit_leaves_ok:
  "commit_leaves sha3 suite pc bands = Inr leaves \<longleftrightarrow>
     length leaves = length bands \<and>
     (\<forall>i < length bands. SubbandLeaf sha3 suite pc (bands ! i) (of_nat i) (of_nat (length bands)) = Inr (leaves ! i))"
  by (auto simp: commit_leaves_def map_err_Inr list_all2_conv_all_nth nth_enumerate_eq)

lemma CommitBandDivision_ok:
  assumes "CommitBandDivision sha3 suite parent pnbf pexp bands = Inr (rt, leaves, paths)"
  obtains pc alloc where "suite = SuiteSHA3_256"
    and "ValidateBandDivision parent pnbf pexp bands = Inr alloc"
    and "SubbandParentCommit sha3 suite parent = Inr pc"
    and "length leaves = length bands" and "bands \<noteq> []"
    and "\<forall>i < length bands. SubbandLeaf sha3 suite pc (bands ! i) (of_nat i) (of_nat (length bands)) = Inr (leaves ! i)"
    and "SubbandGroupRoot sha3 SuiteSHA3_256 leaves = Inr rt"
    and "\<forall>i < length bands. SubbandMerklePath sha3 SuiteSHA3_256 leaves (int i) = Inr (paths ! i)"
proof -
  from assms obtain pc alloc x where 1: "suite_sum sha3 suite [] = Inr x"
    "ValidateBandDivision parent pnbf pexp bands = Inr alloc" "SubbandParentCommit sha3 suite parent = Inr pc"
    and 2: "commit_leaves sha3 suite pc bands = Inr leaves" "SubbandGroupRoot sha3 suite leaves = Inr rt"
    "map_err (\<lambda>i. SubbandMerklePath sha3 suite leaves (int i)) [0..<length bands] = Inr paths"
    by (auto simp: CommitBandDivision_def split: sum.splits)
  then have "suite = SuiteSHA3_256" by (simp add: suite_sum_ok)
  moreover have "bands \<noteq> []" using 2 by (auto simp: commit_leaves_ok SubbandGroupRoot_def)
  ultimately show thesis
    using 1 2 by (intro that) (auto simp: commit_leaves_ok map_err_Inr list_all2_conv_all_nth)
qed

lemma SubbandLeaf_ok:
  "SubbandLeaf sha3 suite pc b i n = Inr leaf \<longleftrightarrow>
     suite = SuiteSHA3_256 \<and>
     (\<exists>r. toRat (lookup_val (bd_Scope b) cumulativeDim) = Some r \<and>
        leaf = sha3 (leaf_preimage pc (as_string (lookup_val (bd_Scope b) ''currency'')) (rat_string r)
                 (bd_NotBefore b) (bd_Expiry b) i n))"
  by (auto simp: SubbandLeaf_def canonicalMoney_def suite_sum_def split: option.splits)

text \<open>
  The Go types of a band: its window is a pair of \<open>int64\<close>, and the texts that are length-prefixed
  with a \<open>uint32\<close> are shorter than \<open>2 ^ 32\<close> bytes.
\<close>

definition band_typed :: "band \<Rightarrow> bool" where
  "band_typed b = (int64 (bd_NotBefore b) \<and> int64 (bd_Expiry b) \<and>
     length (as_string (lookup_val (bd_Scope b) ''currency'')) < 2 ^ 32 \<and>
     (case toRat (lookup_val (bd_Scope b) cumulativeDim) of None \<Rightarrow> True | Some r \<Rightarrow> length (rat_string r) < 2 ^ 32))"

definition band_leaf_preimage :: "bytes \<Rightarrow> band \<Rightarrow> 32 word \<Rightarrow> 32 word \<Rightarrow> bytes" where
  "band_leaf_preimage pc b i n =
     leaf_preimage pc (as_string (lookup_val (bd_Scope b) ''currency''))
       (case toRat (lookup_val (bd_Scope b) cumulativeDim) of None \<Rightarrow> [] | Some r \<Rightarrow> rat_string r)
       (bd_NotBefore b) (bd_Expiry b) i n"

lemma SubbandLeaf_binds:
  assumes "SubbandLeaf sha3 suite pc b i n = Inr leaf" and "SubbandLeaf sha3 suite pc b' i' n' = Inr leaf"
    and "band_typed b" and "band_typed b'"
    and "inj_on sha3 {band_leaf_preimage pc b i n, band_leaf_preimage pc b' i' n'}"
  shows "toRat (lookup_val (bd_Scope b) cumulativeDim) = toRat (lookup_val (bd_Scope b') cumulativeDim) \<and>
    as_string (lookup_val (bd_Scope b) ''currency'') = as_string (lookup_val (bd_Scope b') ''currency'') \<and>
    bd_NotBefore b = bd_NotBefore b' \<and> bd_Expiry b = bd_Expiry b' \<and> i = i' \<and> n = n'"
proof -
  from assms(1,2) obtain r r' where r: "toRat (lookup_val (bd_Scope b) cumulativeDim) = Some r"
    "toRat (lookup_val (bd_Scope b') cumulativeDim) = Some r'"
    and "sha3 (band_leaf_preimage pc b i n) = sha3 (band_leaf_preimage pc b' i' n')"
    by (auto simp: SubbandLeaf_ok band_leaf_preimage_def)
  with assms(5) have "band_leaf_preimage pc b i n = band_leaf_preimage pc b' i' n'"
    by (auto dest: inj_onD)
  from leaf_preimage_inj[OF this[unfolded band_leaf_preimage_def]] assms(3,4) r
  have "rat_string r = rat_string r' \<and>
    as_string (lookup_val (bd_Scope b) ''currency'') = as_string (lookup_val (bd_Scope b') ''currency'') \<and>
    bd_NotBefore b = bd_NotBefore b' \<and> bd_Expiry b = bd_Expiry b' \<and> i = i' \<and> n = n'"
    by (simp add: band_typed_def)
  with r rat_string_inj show ?thesis by auto
qed

lemma CommitBandDivision_succeeds:
  assumes "ValidateBandDivision parent pnbf pexp bands = Inr alloc"
  shows "is_ok (CommitBandDivision sha3 SuiteSHA3_256 parent pnbf pexp bands)"
proof -
  have div: "ValidateSubbandDivision parent (map bd_Scope bands) = Inr alloc"
    using assms by (auto simp: ValidateBandDivision_def split: sum.splits if_splits)
  then obtain v r where "map_of parent cumulativeDim = Some v" "toRat v = Some r" and ne: "bands \<noteq> []"
    by (auto simp: ValidateSubbandDivision_ok)
  then obtain pc where pc: "SubbandParentCommit sha3 SuiteSHA3_256 parent = Inr pc"
    by (auto simp: SubbandParentCommit_def canonicalMoney_def lookup_val_def suite_sum_def)
  have "\<exists>h. SubbandLeaf sha3 SuiteSHA3_256 pc b i n = Inr h" if "b \<in> set bands" for b i n
    using division_slice(3)[OF div, of "bd_Scope b"] that by (auto simp: SubbandLeaf_ok lookup_val_def)
  then have "\<forall>i. \<exists>h. i < length bands \<longrightarrow>
      SubbandLeaf sha3 SuiteSHA3_256 pc (bands ! i) (of_nat i) (of_nat (length bands)) = Inr h"
    by simp
  then obtain f where "\<forall>i. i < length bands \<longrightarrow>
      SubbandLeaf sha3 SuiteSHA3_256 pc (bands ! i) (of_nat i) (of_nat (length bands)) = Inr (f i)"
    using choice[of "\<lambda>i h. i < length bands \<longrightarrow>
      SubbandLeaf sha3 SuiteSHA3_256 pc (bands ! i) (of_nat i) (of_nat (length bands)) = Inr h"] by blast
  then have lv: "commit_leaves sha3 SuiteSHA3_256 pc bands = Inr (map f [0..<length bands])"
    by (simp add: commit_leaves_ok)
  let ?ls = "map f [0..<length bands]"
  have "map_err (\<lambda>i. SubbandMerklePath sha3 SuiteSHA3_256 ?ls (int i)) [0..<length bands] =
      Inr (map (tree_path (sb_node sha3) ?ls) [0..<length bands])"
    by (simp add: map_err_Inr list_all2_conv_all_nth SubbandMerklePath_known)
  with pc lv ne assms show ?thesis
    by (simp add: CommitBandDivision_def suite_sum_def SubbandGroupRoot_known)
qed

text \<open>C38: completeness of a committed division. When \<open>CommitBandDivision\<close> succeeds on fewer than
  \<open>2 ^ 32 - 1\<close> bands, every slice's leaf verifies at its own position against the returned root with
  the path returned for it.\<close>

theorem committed_slices_verify:
  assumes "CommitBandDivision sha3 suite parent pnbf pexp bands = Inr (rt, leaves, paths)"
    and "length bands < 2 ^ 32 - 1" and "i < length bands"
  shows "SubbandVerifyMembership sha3 suite (leaves ! i) (of_nat i) (of_nat (length bands)) (paths ! i) rt = Inr ()"
proof -
  from assms(1) obtain pc alloc where c: "suite = SuiteSHA3_256" "length leaves = length bands"
    "SubbandGroupRoot sha3 SuiteSHA3_256 leaves = Inr rt"
    "\<forall>i < length bands. SubbandMerklePath sha3 SuiteSHA3_256 leaves (int i) = Inr (paths ! i)"
    by (rule CommitBandDivision_ok)
  with assms(2,3) sb.complete[of leaves i sha3] show ?thesis
    by (simp add: sb_verify_def is_ok_unit)
qed

text \<open>C27: no extra slice. Take a committed division of fewer than \<open>2 ^ 32 - 1\<close> bands, and any band
  whose leaf, at any position and with any path, verifies against the committed root. Then that
  band has the budget, the currency and the window of the committed band at that position. The hash
  must not collide on the preimages hashed by the two computations.\<close>

theorem verified_slice_is_committed:
  assumes "CommitBandDivision sha3 suite parent pnbf pexp bands = Inr (rt, leaves, paths)"
    and "length bands < 2 ^ 32 - 1"
    and "SubbandParentCommit sha3 suite parent = Inr pc"
    and "SubbandLeaf sha3 suite pc b leg (of_nat (length bands)) = Inr leaf"
    and "SubbandVerifyMembership sha3 suite leaf leg (of_nat (length bands)) path rt = Inr ()"
    and "band_typed b" and "\<forall>c \<in> set bands. band_typed c"
    and "collision_free (sb_node sha3) (tree_pairs (sb_node sha3) leaves \<union>
           fold_pairs (sb_node sha3) leaf (unat leg) (length leaves) path)"
    and "inj_on sha3 (insert (band_leaf_preimage pc b leg (of_nat (length bands)))
           ((\<lambda>i. band_leaf_preimage pc (bands ! i) (of_nat i) (of_nat (length bands))) ` {..<length bands}))"
  shows "unat leg < length bands \<and>
    toRat (lookup_val (bd_Scope b) cumulativeDim) = toRat (lookup_val (bd_Scope (bands ! unat leg)) cumulativeDim) \<and>
    as_string (lookup_val (bd_Scope b) ''currency'') =
      as_string (lookup_val (bd_Scope (bands ! unat leg)) ''currency'') \<and>
    bd_NotBefore b = bd_NotBefore (bands ! unat leg) \<and> bd_Expiry b = bd_Expiry (bands ! unat leg)"
proof -
  from assms(1) obtain pc' alloc where c: "suite = SuiteSHA3_256"
    "SubbandParentCommit sha3 suite parent = Inr pc'" "length leaves = length bands"
    "\<forall>i < length bands. SubbandLeaf sha3 suite pc' (bands ! i) (of_nat i) (of_nat (length bands)) = Inr (leaves ! i)"
    "SubbandGroupRoot sha3 SuiteSHA3_256 leaves = Inr rt"
    by (rule CommitBandDivision_ok)
  with assms(3) have pc: "pc' = pc" by simp
  have "sb_verify sha3 leaf (unat leg) (length leaves) (Inr path) (SubbandGroupRoot sha3 SuiteSHA3_256 leaves)"
    using assms(5) c unsigned_less[of leg] by (simp add: sb_verify_def is_ok_unit)
  moreover have "sb_safe sha3 leaves leaf (unat leg) (Inr path)" using assms(8) by (simp add: sb_safe_def)
  ultimately have i: "unat leg < length leaves" "leaf = leaves ! unat leg"
    using sb.sound[of leaves sha3 leaf "unat leg" "Inr path"] assms(2) c(3) by auto
  with c(4)[rule_format, of "unat leg"] c(3) pc
  have "SubbandLeaf sha3 suite pc (bands ! unat leg) (of_nat (unat leg)) (of_nat (length bands)) = Inr leaf"
    by simp
  moreover have "band_leaf_preimage pc (bands ! unat leg) (of_nat (unat leg)) (of_nat (length bands)) \<in>
      (\<lambda>i. band_leaf_preimage pc (bands ! i) (of_nat i) (of_nat (length bands))) ` {..<length bands}"
    by (rule imageI) (use i(1) c(3) in simp)
  then have "inj_on sha3 {band_leaf_preimage pc b leg (of_nat (length bands)),
      band_leaf_preimage pc (bands ! unat leg) (of_nat (unat leg)) (of_nat (length bands))}"
    using inj_on_subset[OF assms(9)] by blast
  moreover have "band_typed (bands ! unat leg)" using assms(7) i(1) c(3) by simp
  ultimately show ?thesis
    using SubbandLeaf_binds[OF assms(4) _ assms(6)] i(1) c(3) by simp
qed

lemma sample_commit:
  obtains rt leaves paths where
    "CommitBandDivision (\<lambda>b. b) SuiteSHA3_256 sample_budget 0 100 sample_bands = Inr (rt, leaves, paths)"
  using CommitBandDivision_succeeds[OF sample_band_division, of "\<lambda>b. b"] by (auto simp: is_ok_iff)

lemma length_sample_bands: "length sample_bands = 2"
  by (simp add: sample_bands_def)

theorem committed_slices_verify_witness:
  "\<exists>rt leaves paths.
     CommitBandDivision (\<lambda>b. b) SuiteSHA3_256 sample_budget 0 100 sample_bands = Inr (rt, leaves, paths) \<and>
     SubbandVerifyMembership (\<lambda>b. b) SuiteSHA3_256 (leaves ! 1) (of_nat 1) (of_nat (length sample_bands))
       (paths ! 1) rt = Inr ()"
proof -
  obtain rt leaves paths where c:
    "CommitBandDivision (\<lambda>b. b) SuiteSHA3_256 sample_budget 0 100 sample_bands = Inr (rt, leaves, paths)"
    by (rule sample_commit)
  have "SubbandVerifyMembership (\<lambda>b. b) SuiteSHA3_256 (leaves ! 1) (of_nat 1) (of_nat (length sample_bands))
       (paths ! 1) rt = Inr ()"
    by (rule committed_slices_verify[OF c]) (simp_all add: length_sample_bands)
  with c show ?thesis by blast
qed

lemma sample_bands_typed: "\<forall>b \<in> set sample_bands. band_typed b"
  by (simp add: sample_bands_def sample_slices_def band_typed_def int64_def lookup_val_def cumulativeDim_def
      scope_eval rat_string_def int_str_def nat_str.simps quotient_of_number)

lemma two_leaf_pairs:
  assumes "length leaves = 2"
  shows "tree_pairs node leaves \<union> fold_pairs node (leaves ! 0) 0 2 (tree_path node leaves 0) =
    {(leaves ! 0, leaves ! 1)}"
proof -
  from assms obtain x y where l: "leaves = [x, y]" by (auto simp: length_Suc_conv numeral_2_eq_2)
  then show ?thesis by (simp add: tree_pairs.simps fold_pairs.simps tree_path.simps sibling_def)
qed

theorem verified_slice_is_committed_witness:
  "toRat (lookup_val (bd_Scope (sample_bands ! 0)) cumulativeDim) =
     toRat (lookup_val (bd_Scope (sample_bands ! unat (0 :: 32 word))) cumulativeDim)"
proof -
  let ?b = "sample_bands ! 0" and ?n = "of_nat (length sample_bands) :: 32 word"
  obtain rt leaves paths where c:
    "CommitBandDivision (\<lambda>b. b) SuiteSHA3_256 sample_budget 0 100 sample_bands = Inr (rt, leaves, paths)"
    by (rule sample_commit)
  then obtain pc alloc where pc: "SubbandParentCommit (\<lambda>b. b) SuiteSHA3_256 sample_budget = Inr pc"
    and len: "length leaves = length sample_bands"
    and leaf: "\<forall>i < length sample_bands. SubbandLeaf (\<lambda>b. b) SuiteSHA3_256 pc (sample_bands ! i) (of_nat i) ?n = Inr (leaves ! i)"
    and root: "SubbandGroupRoot (\<lambda>b. b) SuiteSHA3_256 leaves = Inr rt"
    by (rule CommitBandDivision_ok)
  let ?path = "tree_path (sb_node (\<lambda>b. b)) leaves 0"
  have 1: "SubbandLeaf (\<lambda>b. b) SuiteSHA3_256 pc ?b 0 ?n = Inr (leaves ! 0)"
    using leaf[rule_format, of 0] by (simp add: length_sample_bands)
  have "sb_verify (\<lambda>b. b) (leaves ! 0) 0 (length leaves) (Inr ?path) (Inr rt)"
    using sb.complete[of leaves 0 "\<lambda>b. b"] len root SubbandMerklePath_known[of 0 leaves "\<lambda>b. b"]
    by (simp add: length_sample_bands)
  then have 2: "SubbandVerifyMembership (\<lambda>b. b) SuiteSHA3_256 (leaves ! 0) 0 ?n ?path rt = Inr ()"
    using len by (simp add: sb_verify_def is_ok_unit)
  have 3: "collision_free (sb_node (\<lambda>b. b)) (tree_pairs (sb_node (\<lambda>b. b)) leaves \<union>
      fold_pairs (sb_node (\<lambda>b. b)) (leaves ! 0) (unat (0 :: 32 word)) (length leaves) ?path)"
    using two_leaf_pairs[of leaves "sb_node (\<lambda>b. b)"] len
    by (simp add: length_sample_bands collision_free_def)
  have 4: "band_typed ?b" using sample_bands_typed by (simp add: sample_bands_def)
  show ?thesis
    using verified_slice_is_committed[OF c _ pc 1 2 4 sample_bands_typed 3]
    by (simp add: length_sample_bands inj_on_def)
qed

text \<open>At the largest group size the membership check degenerates. For \<open>groupSize = 2 ^ 32 - 1\<close> the
  32-bit expression \<open>(levelLen + 1) / 2\<close> wraps to zero, so the walk stops after one hash: a leaf and
  one sibling are accepted for the root of a two-leaf tree.\<close>

theorem membership_wraps_at_max_group:
  "SubbandVerifyMembership sha3 SuiteSHA3_256 leaf 0 (- 1) [s] (tree_root (sb_node sha3) [leaf, s]) = Inr ()"
proof -
  have n: "unat (- 1 :: 32 word) = 2 ^ 32 - 1" by (simp add: unat_eq_nat_uint uint_word_ariths)
  have h: "((- 1 :: 32 word) + 1) div 2 = 0" by simp
  have lt: "1 < (- 1 :: 32 word)" "(0 :: 32 word) XOR 1 < - 1" "\<not> (- 1 :: 32 word) \<le> 0" "(- 1 :: 32 word) \<noteq> 0"
    using n by (simp_all add: word_less_nat_alt word_le_nat_alt)
  have "membership_walk sha3 SuiteSHA3_256 leaf 0 (- 1) [s] = Inr (sb_node sha3 leaf s, [])"
    using lt h by (subst membership_walk.simps) (simp add: membership_walk.simps[of _ _ _ _ 0])
  then show ?thesis
    using lt by (simp add: SubbandVerifyMembership_def tree_root.simps)
qed

end
