(* ===== verification/Tokens.thy ===== *)
theory Tokens
  imports Issuance SubbandCommit
begin

text \<open>
  The three token formats and the proof of possession: root capability tokens
  (src/internal/cattoken), delegated capability tokens (src/internal/cttoken), transaction tokens
  (src/internal/txntoken) and DPoP proofs (src/internal/dpop).

  Base64, JSON, Ed25519, SHA-256, SHA3-256 and URL parsing belong to the standard library or to a
  dependency and are the fields of \<open>codec\<close>. A decoded JSON number is a \<open>float64\<close>; the conversion of
  one that \<open>int64\<close> cannot hold is the field \<open>jc_oob\<close>. The clock, the random bytes of a token
  identifier and the signer are arguments.
\<close>

record url =
  u_scheme :: string
  u_host :: string
  u_query :: string
  u_fragment :: string
  u_rest :: string

record dpop_header =
  dh_typ :: string
  dh_alg :: string
  dh_kty :: string
  dh_crv :: string
  dh_x :: string

record dpop_claims =
  dc_jti :: string
  dc_htm :: string
  dc_htu :: string
  dc_ath :: string
  dc_iat :: int

record codec =
  jc_b64dec :: "string \<Rightarrow> bytes option"
  jc_b64enc :: "bytes \<Rightarrow> string"
  jc_alg :: "bytes \<Rightarrow> string"
  jc_claims :: "bytes \<Rightarrow> claims option"
  jc_marshal :: "claims \<Rightarrow> bytes option"
  jc_edverify :: "bytes \<Rightarrow> bytes \<Rightarrow> bytes \<Rightarrow> bool"
  jc_sha256 :: "bytes \<Rightarrow> bytes"
  jc_sha3 :: "bytes \<Rightarrow> bytes"
  jc_dpop_header :: "bytes \<Rightarrow> dpop_header option"
  jc_dpop_claims :: "bytes \<Rightarrow> dpop_claims option"
  jc_url_parse :: "string \<Rightarrow> url option"
  jc_url_string :: "url \<Rightarrow> string"
  jc_lower :: "string \<Rightarrow> string"
  jc_oob :: "gofloat \<Rightarrow> int"

datatype tok_err = TMsg string | BadAlg string | WrongType string | LedgerErr ledger_err | ScopeErr scope_err | IssuanceErr issuance_err | CommitErr commit_err | ParentInvalid tok_err

section \<open>Claims\<close>

definition str_claim :: "claims \<Rightarrow> string \<Rightarrow> string option" where
  "str_claim cl k = (case map_of cl k of Some (GStr s) \<Rightarrow> Some s | _ \<Rightarrow> None)"

text \<open>\<open>s, _ := claims[k].(string)\<close> gives the empty string for anything else.\<close>

definition claimStr :: "claims \<Rightarrow> string \<Rightarrow> string" where
  "claimStr cl k = (case str_claim cl k of None \<Rightarrow> [] | Some s \<Rightarrow> s)"

definition float_claim :: "claims \<Rightarrow> string \<Rightarrow> gofloat option" where
  "float_claim cl k = (case map_of cl k of Some (GFloat64 f) \<Rightarrow> Some f | _ \<Rightarrow> None)"

definition map_claim :: "claims \<Rightarrow> string \<Rightarrow> claims option" where
  "map_claim cl k = (case map_of cl k of Some (GMap m) \<Rightarrow> Some m | _ \<Rightarrow> None)"

section \<open>Signed tokens\<close>

definition verifyJWT :: "codec \<Rightarrow> string \<Rightarrow> bytes \<Rightarrow> tok_err + claims" where
  "verifyJWT c tok pub =
     (case split_char CHR ''.'' tok of
        [h, p, s] \<Rightarrow>
          bindr (some_or (TMsg ''header encoding'') (jc_b64dec c h)) (\<lambda>hb.
          bindr (need (BadAlg (jc_alg c hb)) (jc_alg c hb = ''EdDSA'')) (\<lambda>_.
          bindr (some_or (TMsg ''sig encoding'') (jc_b64dec c s)) (\<lambda>sig.
          bindr (need (TMsg ''bad signature'') (jc_edverify c pub (h @ ''.'' @ p) sig)) (\<lambda>_.
          bindr (some_or (TMsg ''claims encoding'') (jc_b64dec c p)) (\<lambda>cb.
          some_or (TMsg ''claims json'') (jc_claims c cb))))))
      | _ \<Rightarrow> Inl (TMsg ''malformed''))"

definition check_type :: "string \<Rightarrow> claims \<Rightarrow> tok_err + unit" where
  "check_type tt cl = need (WrongType (claimStr cl ''txn_token_type'')) (claimStr cl ''txn_token_type'' = tt)"

definition check_exp :: "codec \<Rightarrow> gotime \<Rightarrow> claims \<Rightarrow> tok_err + unit" where
  "check_exp c now cl =
     bindr (some_or (TMsg ''missing exp'') (float_claim cl ''exp'')) (\<lambda>ex.
     need (TMsg ''token expired'') (unix now < float_to_int (jc_oob c) ex))"

definition cat_Verify :: "codec \<Rightarrow> gotime \<Rightarrow> string \<Rightarrow> bytes \<Rightarrow> tok_err + claims" where
  "cat_Verify c now tok pub =
     bindr (verifyJWT c tok pub) (\<lambda>cl.
     bindr (check_exp c now cl) (\<lambda>_.
     bindr (check_type ''CAT'' cl) (\<lambda>_. Inr cl)))"

definition ct_Verify :: "codec \<Rightarrow> gotime \<Rightarrow> string \<Rightarrow> bytes \<Rightarrow> tok_err + claims" where
  "ct_Verify c now tok pub =
     bindr (verifyJWT c tok pub) (\<lambda>cl.
     bindr (check_type ''CT'' cl) (\<lambda>_.
     bindr (check_exp c now cl) (\<lambda>_. Inr cl)))"

definition ParseVerify :: "codec \<Rightarrow> string \<Rightarrow> bytes \<Rightarrow> tok_err + claims" where
  "ParseVerify c tok pub =
     bindr (verifyJWT c tok pub) (\<lambda>cl.
     bindr (check_type ''TXN'' cl) (\<lambda>_. Inr cl))"

definition txn_Verify :: "codec \<Rightarrow> gotime \<Rightarrow> string \<Rightarrow> bytes \<Rightarrow> tok_err + claims" where
  "txn_Verify c now tok pub =
     bindr (ParseVerify c tok pub) (\<lambda>cl.
     bindr (check_exp c now cl) (\<lambda>_. Inr cl))"

definition VerifyContextHash :: "codec \<Rightarrow> claims \<Rightarrow> txnctx \<Rightarrow> tok_err + unit" where
  "VerifyContextHash c cl tc =
     (let want = claimStr cl ''spt_txn_context_hash''; chain = claimStr cl ''spt_txn_chain'' in
      bindr (need (TMsg ''missing binding'') (want \<noteq> [] \<and> chain \<noteq> [])) (\<lambda>_.
      bindr (need (TMsg ''no chain'') (tc_Chain tc \<noteq> [])) (\<lambda>_.
      bindr (need (TMsg ''chain mismatch'') (tc_Chain tc = chain)) (\<lambda>_.
      bindr (wrap_err LedgerErr (Get registry (tc_Chain tc))) (\<lambda>l.
      bindr (wrap_err LedgerErr (ContextHash (jc_sha256 c) l tc)) (\<lambda>(_, got).
      need (TMsg ''context mismatch'') (got = want)))))))"

definition CheckSenderConstraint :: "claims \<Rightarrow> string \<Rightarrow> tok_err + unit" where
  "CheckSenderConstraint cl thumb =
     bindr (some_or (TMsg ''missing cnf'') (map_claim cl ''cnf'')) (\<lambda>cnf.
     bindr (need (TMsg ''missing jkt'') (claimStr cnf ''jkt'' \<noteq> [])) (\<lambda>_.
     need (TMsg ''sender constraint'') (claimStr cnf ''jkt'' = thumb)))"

section \<open>Proof of possession\<close>

definition DefaultMaxAge :: int where
  "DefaultMaxAge = 60 * 10 ^ 9"

definition MaxFutureSkew :: int where
  "MaxFutureSkew = 5 * 10 ^ 9"

definition jwk_text :: "codec \<Rightarrow> bytes \<Rightarrow> bytes" where
  "jwk_text c pub = ''{\"crv\":\"Ed25519\",\"kty\":\"OKP\",\"x\":\"'' @ jc_b64enc c pub @ ''\"}''"

definition Thumbprint :: "codec \<Rightarrow> bytes \<Rightarrow> string" where
  "Thumbprint c pub = jc_b64enc c (jc_sha256 c (jwk_text c pub))"

definition ATH :: "codec \<Rightarrow> string \<Rightarrow> string" where
  "ATH c token = jc_b64enc c (jc_sha256 c token)"

definition normalizeHTU :: "codec \<Rightarrow> string \<Rightarrow> string" where
  "normalizeHTU c htu =
     (case jc_url_parse c htu of
        None \<Rightarrow> htu
      | Some u \<Rightarrow> jc_url_string c (u\<lparr>u_scheme := jc_lower c (u_scheme u), u_host := jc_lower c (u_host u),
          u_query := [], u_fragment := []\<rparr>))"

text \<open>\<open>time.Since\<close> saturates at the ends of a 64-bit duration.\<close>

definition sat64 :: "int \<Rightarrow> int" where
  "sat64 n = max (- (2 ^ 63)) (min (2 ^ 63 - 1) n)"

definition check_dpop_header :: "codec \<Rightarrow> string \<Rightarrow> tok_err + bytes" where
  "check_dpop_header c h =
     bindr (some_or (TMsg ''header encoding'') (jc_b64dec c h)) (\<lambda>hb.
     bindr (some_or (TMsg ''dpop header'') (jc_dpop_header c hb)) (\<lambda>hdr.
     bindr (need (TMsg ''dpop typ'') (dh_typ hdr = ''dpop+jwt'')) (\<lambda>_.
     bindr (need (TMsg ''dpop key'') (dh_alg hdr = ''EdDSA'' \<and> dh_kty hdr = ''OKP'' \<and> dh_crv hdr = ''Ed25519'')) (\<lambda>_.
     bindr (some_or (TMsg ''dpop key'') (jc_b64dec c (dh_x hdr))) (\<lambda>pub.
     bindr (need (TMsg ''dpop key'') (length pub = 32)) (\<lambda>_. Inr pub))))))"

definition check_dpop_claims ::
  "codec \<Rightarrow> gotime \<Rightarrow> dpop_claims \<Rightarrow> string \<Rightarrow> string \<Rightarrow> string \<Rightarrow> int \<Rightarrow> tok_err + unit" where
  "check_dpop_claims c now cl htm htu ath maxAge =
     bindr (need (TMsg ''dpop no jti'') (dc_jti cl \<noteq> [])) (\<lambda>_.
     bindr (need (TMsg ''dpop no binding'') (htm \<noteq> [] \<and> htu \<noteq> [])) (\<lambda>_.
     bindr (need (TMsg ''dpop htm'') (dc_htm cl = htm)) (\<lambda>_.
     bindr (need (TMsg ''dpop htu'') (normalizeHTU c (dc_htu cl) = normalizeHTU c htu)) (\<lambda>_.
     bindr (need (TMsg ''dpop ath'') (ath = [] \<or> dc_ath cl = ath)) (\<lambda>_.
     let age = sat64 (now - time_Unix (dc_iat cl)) in
     bindr (need (TMsg ''dpop future'') (\<not> age < - MaxFutureSkew)) (\<lambda>_.
     need (TMsg ''dpop expired'') (\<not> age > maxAge)))))))"

definition dpop_Verify ::
  "codec \<Rightarrow> gotime \<Rightarrow> string \<Rightarrow> string \<Rightarrow> string \<Rightarrow> string \<Rightarrow> int \<Rightarrow> tok_err + string \<times> string" where
  "dpop_Verify c now proof htm htu ath maxAge0 =
     (let maxAge = (if maxAge0 = 0 then DefaultMaxAge else maxAge0) in
      case split_char CHR ''.'' proof of
        [h, p, s] \<Rightarrow>
          bindr (check_dpop_header c h) (\<lambda>pub.
          bindr (some_or (TMsg ''sig encoding'') (jc_b64dec c s)) (\<lambda>sig.
          bindr (need (TMsg ''bad signature'') (jc_edverify c pub (h @ ''.'' @ p) sig)) (\<lambda>_.
          bindr (some_or (TMsg ''claims encoding'') (jc_b64dec c p)) (\<lambda>cb.
          bindr (some_or (TMsg ''dpop claims'') (jc_dpop_claims c cb)) (\<lambda>cl.
          bindr (check_dpop_claims c now cl htm htu ath maxAge) (\<lambda>_.
          Inr (Thumbprint c pub, dc_jti cl)))))))
      | _ \<Rightarrow> Inl (TMsg ''malformed''))"

section \<open>Signing\<close>

definition header_text :: bytes where
  "header_text = ''{\"alg\":\"EdDSA\",\"typ\":\"JWT\"}''"

definition signJWT :: "codec \<Rightarrow> claims \<Rightarrow> (bytes \<Rightarrow> bytes option) \<Rightarrow> tok_err + string" where
  "signJWT c cl sign =
     bindr (some_or (TMsg ''marshal'') (jc_marshal c cl)) (\<lambda>cb.
     let signingInput = jc_b64enc c header_text @ ''.'' @ jc_b64enc c cb in
     bindr (some_or (TMsg ''sign'') (sign signingInput)) (\<lambda>sig.
     Inr (signingInput @ ''.'' @ jc_b64enc c sig)))"

text \<open>A random identifier: sixteen bytes with the version and variant bits of a UUID.\<close>

definition set_uuid_bits :: "bytes \<Rightarrow> bytes" where
  "set_uuid_bits b =
     (let b1 = b[6 := char_of ((of_char (b ! 6) :: nat) mod 16 + 64)] in
      b1[8 := char_of ((of_char (b1 ! 8) :: nat) mod 64 + 128)])"

definition newJTI :: "bytes option \<Rightarrow> tok_err + string" where
  "newJTI rnd =
     bindr (some_or (TMsg ''entropy'') rnd) (\<lambda>b0.
     let b = set_uuid_bits b0 in
     Inr (hex_encode (take 4 b) @ ''-'' @ hex_encode (take 2 (drop 4 b)) @ ''-'' @
          hex_encode (take 2 (drop 6 b)) @ ''-'' @ hex_encode (take 2 (drop 8 b)) @ ''-'' @
          hex_encode (take 6 (drop 10 b))))"

section \<open>Root capability tokens\<close>

record cat_request =
  cr_Issuer :: string
  cr_Subject :: string
  cr_PrincipalName :: string
  cr_Scope :: "scope option"
  cr_DelegationDepthMax :: int
  cr_TTL :: int
  cr_HolderPublicKey :: bytes
  cr_Attestation :: "claims option"
  cr_Status :: "claims option"
  cr_IdentityAnchor :: bytes
  cr_SubbandGroupRoot :: bytes
  cr_SubbandGroupSize :: int
  cr_SubbandHashSuite :: string

record token_out =
  to_Token :: string
  to_HumanAnchor :: string
  to_Claims :: claims
  to_IssuedAt :: gotime
  to_ExpiresAt :: gotime

definition scope_val :: "scope option \<Rightarrow> gval" where
  "scope_val s = (case s of None \<Rightarrow> GNil | Some m \<Rightarrow> GMap m)"

definition scope_map :: "scope option \<Rightarrow> scope" where
  "scope_map s = (case s of None \<Rightarrow> [] | Some m \<Rightarrow> m)"

text \<open>\<open>json.Number.Int64\<close>: a base-10 integer in range.\<close>

definition num_int64 :: "string \<Rightarrow> int option" where
  "num_int64 s =
     (let (neg, ds) = scan_sign s; n = (if neg then - int (digits_val ds) else int (digits_val ds)) in
      if ds = [] \<or> \<not> list_all is_digit ds \<or> \<not> int64 n then None else Some n)"

fun numClaim :: "codec \<Rightarrow> gval \<Rightarrow> int option" where
  "numClaim c (GInt I64 n) = Some n"
| "numClaim c (GInt I n) = Some n"
| "numClaim c (GFloat64 f) = Some (float_to_int (jc_oob c) f)"
| "numClaim c (GNum s) = num_int64 s"
| "numClaim c _ = None"

definition degenerateHolderKeys :: "bytes list" where
  "degenerateHolderKeys = [CHR 0x01 # replicate 31 CHR 0x00, replicate 32 CHR 0x00]"

definition checkHolderKey :: "bytes \<Rightarrow> tok_err + unit" where
  "checkHolderKey pub = need (TMsg ''degenerate holder key'') (pub \<notin> set degenerateHolderKeys)"

definition validateRequest :: "cat_request \<Rightarrow> tok_err + unit" where
  "validateRequest req =
     bindr (need (TMsg ''issuer required'') (cr_Issuer req \<noteq> [])) (\<lambda>_.
     bindr (need (TMsg ''subject required'') (cr_Subject req \<noteq> [])) (\<lambda>_.
     bindr (need (TMsg ''principal required'') (cr_PrincipalName req \<noteq> [])) (\<lambda>_.
     bindr (need (TMsg ''holder key length'') (length (cr_HolderPublicKey req) = 32)) (\<lambda>_.
     bindr (checkHolderKey (cr_HolderPublicKey req)) (\<lambda>_.
     bindr (need (TMsg ''depth max'') (\<not> cr_DelegationDepthMax req < 1)) (\<lambda>_.
     wrap_err IssuanceErr (ValidateIssuance (scope_map (cr_Scope req)))))))))"

text \<open>The anchor: the caller's 32 bytes, or the commitment to the test principal, which is computed
  outside (\<open>computed\<close> is \<open>None\<close> when no randomness was available).\<close>

definition obtain_anchor :: "cat_request \<Rightarrow> bytes option \<Rightarrow> tok_err + bytes" where
  "obtain_anchor req computed =
     (if length (cr_IdentityAnchor req) = 32 then Inr (cr_IdentityAnchor req)
      else if length (cr_IdentityAnchor req) \<noteq> 0 then Inl (TMsg ''bad anchor'')
      else some_or (TMsg ''entropy'') computed)"

definition cat_commit_claims :: "codec \<Rightarrow> cat_request \<Rightarrow> claims \<Rightarrow> tok_err + claims" where
  "cat_commit_claims c req cl =
     (if cr_SubbandGroupRoot req = [] then Inr cl
      else
        bindr (need (TMsg ''group root size'') (length (cr_SubbandGroupRoot req) = 32)) (\<lambda>_.
        bindr (need (TMsg ''group size'') (cr_SubbandGroupSize req \<noteq> 0)) (\<lambda>_.
        bindr (need (TMsg ''unknown suite'') (IsKnownHashSuite (jc_sha3 c) (cr_SubbandHashSuite req))) (\<lambda>_.
        bindr (need (TMsg ''no cumulative'') (DeclaresCumulativeBudget (scope_map (cr_Scope req)))) (\<lambda>_.
        Inr (put ''subband_hash_suite'' (GStr (cr_SubbandHashSuite req))
              (put ''subband_group_size'' (GInt U32 (cr_SubbandGroupSize req))
                (put ''subband_group_root'' (GStr (hex_encode (cr_SubbandGroupRoot req))) cl))))))))"

definition seal_attestation :: "codec \<Rightarrow> cat_request \<Rightarrow> gotime \<Rightarrow> claims \<Rightarrow> tok_err + claims" where
  "seal_attestation c req ex cl =
     (case cr_Attestation req of
        None \<Rightarrow> Inr cl
      | Some att \<Rightarrow>
          bindr (need (TMsg ''outlives attestation'')
            (case numClaim c (lookup_val att ''exp'') of None \<Rightarrow> True | Some a \<Rightarrow> \<not> unix ex > a)) (\<lambda>_.
          Inr (put ''spt_attestation'' (GMap att) cl)))"

definition put_status :: "claims option \<Rightarrow> claims \<Rightarrow> claims" where
  "put_status st cl = (case st of None \<Rightarrow> cl | Some m \<Rightarrow> put ''status'' (GMap m) cl)"

definition cat_Issue ::
  "codec \<Rightarrow> gotime \<Rightarrow> bytes option \<Rightarrow> bytes option \<Rightarrow> cat_request \<Rightarrow> (bytes \<Rightarrow> bytes option) \<Rightarrow> tok_err + token_out" where
  "cat_Issue c now computed rnd req sign =
     bindr (validateRequest req) (\<lambda>_.
     bindr (obtain_anchor req computed) (\<lambda>anchor.
     let ttl = (if cr_TTL req = 0 then 24 * 3600 * 10 ^ 9 else cr_TTL req); ex = now + ttl in
     bindr (newJTI rnd) (\<lambda>jti.
     let claims0 =
       [(''iss'', GStr (cr_Issuer req)), (''sub'', GStr (cr_Subject req)),
        (''iat'', GInt I64 (unix now)), (''exp'', GInt I64 (unix ex)), (''jti'', GStr jti),
        (''txn_token_type'', GStr ''CAT''), (''human_anchor'', GStr (hex_encode anchor)),
        (''capability_scope'', scope_val (cr_Scope req)),
        (''delegation_depth_max'', GInt I (cr_DelegationDepthMax req)),
        (''holder_key'', GStr (hex_encode (cr_HolderPublicKey req)))] in
     bindr (seal_attestation c req ex claims0) (\<lambda>cl1.
     bindr (cat_commit_claims c req (put_status (cr_Status req) cl1)) (\<lambda>cl.
     bindr (signJWT c cl sign) (\<lambda>tok.
     Inr \<lparr>to_Token = tok, to_HumanAnchor = hex_encode anchor, to_Claims = cl,
          to_IssuedAt = now, to_ExpiresAt = ex\<rparr>))))))"

section \<open>Delegated capability tokens\<close>

record subband_membership =
  sm_GroupRoot :: bytes
  sm_GroupSize :: "32 word"
  sm_HashSuite :: string
  sm_LegIndex :: "32 word"
  sm_MerklePath :: "bytes list"

record ct_request =
  ir_Issuer :: string
  ir_Parent :: string
  ir_ParentIssuerKey :: bytes
  ir_RequestedScope :: "scope option"
  ir_HolderPublicKey :: bytes
  ir_TTL :: int
  ir_NotBefore :: gotime
  ir_Status :: "claims option"

definition ct_DefaultTTL :: int where
  "ct_DefaultTTL = 600 * 10 ^ 9"

text \<open>Containment, the inherited unit, and the issuance rules: the scope that is sealed.\<close>

definition seal_scope :: "scope \<Rightarrow> scope \<Rightarrow> tok_err + scope" where
  "seal_scope parentScope requested =
     bindr (wrap_err ScopeErr (Attenuate parentScope requested)) (\<lambda>att0.
     bindr (wrap_err IssuanceErr (InheritMoneyUnit parentScope att0)) (\<lambda>att.
     bindr (wrap_err IssuanceErr (ValidateIssuance att)) (\<lambda>_. Inr att)))"

text \<open>The child's expiry: a default lifetime is clamped to the parent's, an explicit one that overruns
  is refused. The result is the instant and its Unix seconds.\<close>

definition child_expiry :: "codec \<Rightarrow> claims \<Rightarrow> gotime \<Rightarrow> int \<Rightarrow> int \<Rightarrow> tok_err + gotime \<times> int" where
  "child_expiry c parent now reqTTL dflt =
     (let ttl = (if reqTTL = 0 then dflt else reqTTL); ex = now + ttl in
      bindr (some_or (TMsg ''missing exp'') (float_claim parent ''exp'')) (\<lambda>f.
      let parentExp = float_to_int (jc_oob c) f;
          (ex', exU) = (if reqTTL = 0 \<and> unix ex > parentExp then (time_Unix parentExp, parentExp) else (ex, unix ex)) in
      bindr (need (TMsg ''outlives parent'') (\<not> exU > parentExp)) (\<lambda>_. Inr (ex', exU))))"

definition parent_nbf :: "claims \<Rightarrow> tok_err + int" where
  "parent_nbf parent =
     (case map_of parent ''nbf'' of
        None \<Rightarrow> Inr 0
      | Some (GFloat64 (Fin r)) \<Rightarrow>
          if - (2 ^ 63) \<le> r \<and> r < 2 ^ 63 then Inr (if 0 \<le> r then floor r else ceiling r) else Inl (TMsg ''bad nbf'')
      | Some (GFloat64 NegZero) \<Rightarrow> Inr 0
      | Some _ \<Rightarrow> Inl (TMsg ''bad nbf''))"

definition attenuateNotBefore :: "claims \<Rightarrow> gotime \<Rightarrow> int \<Rightarrow> tok_err + int" where
  "attenuateNotBefore parent requested childExp =
     bindr (parent_nbf parent) (\<lambda>parentNbf.
     let nbf = (if is_zero_time requested then parentNbf else unix requested) in
     bindr (need (TMsg ''opens before parent'') (is_zero_time requested \<or> \<not> nbf < parentNbf)) (\<lambda>_.
     bindr (need (TMsg ''window empty'') (\<not> (nbf > 0 \<and> nbf \<ge> childExp))) (\<lambda>_. Inr nbf)))"

definition put_nbf :: "int \<Rightarrow> claims \<Rightarrow> claims" where
  "put_nbf nbf cl = (if nbf > 0 then put ''nbf'' (GInt I64 nbf) cl else cl)"

definition put_membership :: "codec \<Rightarrow> subband_membership option \<Rightarrow> claims \<Rightarrow> tok_err + claims" where
  "put_membership c sb cl =
     (case sb of
        None \<Rightarrow> Inr cl
      | Some m \<Rightarrow>
          bindr (need (TMsg ''group size'') (\<not> (sm_GroupSize m = 0 \<or> sm_LegIndex m \<ge> sm_GroupSize m))) (\<lambda>_.
          bindr (need (TMsg ''unknown suite'') (IsKnownHashSuite (jc_sha3 c) (sm_HashSuite m))) (\<lambda>_.
          Inr (put ''subband_merkle_path'' (GList (map (\<lambda>h. GStr (hex_encode h)) (sm_MerklePath m)))
                (put ''subband_leg_index'' (GInt U32 (uint (sm_LegIndex m)))
                  (put ''subband_hash_suite'' (GStr (sm_HashSuite m))
                    (put ''subband_group_size'' (GInt U32 (uint (sm_GroupSize m)))
                      (put ''subband_group_root'' (GStr (hex_encode (sm_GroupRoot m))) cl))))))))"

definition check_request :: "ct_request \<Rightarrow> tok_err + scope" where
  "check_request req =
     bindr (need (TMsg ''issuer required'') (ir_Issuer req \<noteq> [])) (\<lambda>_.
     bindr (need (TMsg ''holder key length'') (length (ir_HolderPublicKey req) = 32)) (\<lambda>_.
     some_or (TMsg ''scope required'') (ir_RequestedScope req)))"

definition child_depth :: "codec \<Rightarrow> claims \<Rightarrow> string \<Rightarrow> tok_err + int" where
  "child_depth c parent k =
     bindr (some_or (TMsg ''missing depth'') (float_claim parent k)) (\<lambda>f.
     let remaining = wrap64 (float_to_int (jc_oob c) f - 1) in
     bindr (need (TMsg ''depth exhausted'') (\<not> remaining < 0)) (\<lambda>_. Inr remaining))"

definition parent_anchor :: "claims \<Rightarrow> tok_err + string" where
  "parent_anchor parent =
     bindr (some_or (TMsg ''missing anchor'') (str_claim parent ''human_anchor'')) (\<lambda>a.
     bindr (need (TMsg ''missing anchor'') (a \<noteq> [])) (\<lambda>_. Inr a))"

definition ct_Issue ::
  "codec \<Rightarrow> gotime \<Rightarrow> gotime \<Rightarrow> bytes option \<Rightarrow> ct_request \<Rightarrow> subband_membership option \<Rightarrow>
     (bytes \<Rightarrow> bytes option) \<Rightarrow> tok_err + token_out" where
  "ct_Issue c nowV now rnd req subband sign =
     bindr (check_request req) (\<lambda>requested.
     bindr (wrap_err ParentInvalid (cat_Verify c nowV (ir_Parent req) (ir_ParentIssuerKey req))) (\<lambda>parent.
     bindr (some_or (TMsg ''missing scope'') (map_claim parent ''capability_scope'')) (\<lambda>parentScope.
     bindr (parent_anchor parent) (\<lambda>humanAnchor.
     bindr (child_depth c parent ''delegation_depth_max'') (\<lambda>remaining.
     bindr (need (TMsg ''budget uncounted'') (\<not> ((DeclaresCumulativeBudget parentScope \<or> has_key parent ''subband_group_root'')
              \<and> subband = None))) (\<lambda>_.
     bindr (seal_scope parentScope requested) (\<lambda>attenuated.
     bindr (child_expiry c parent now (ir_TTL req) ct_DefaultTTL) (\<lambda>(ex, exU).
     bindr (newJTI rnd) (\<lambda>jti.
     let claims0 =
       [(''iss'', GStr (ir_Issuer req)), (''sub'', GStr (claimStr parent ''sub'')),
        (''iat'', GInt I64 (unix now)), (''exp'', GInt I64 exU), (''jti'', GStr jti),
        (''txn_token_type'', GStr ''CT''), (''human_anchor'', GStr humanAnchor),
        (''capability_scope'', GMap attenuated), (''delegation_depth_remaining'', GInt I remaining),
        (''holder_key'', GStr (hex_encode (ir_HolderPublicKey req))),
        (''spt_cat_ref'', GStr (claimStr parent ''jti'')),
        (''spt_parent_hash'', GStr (jc_b64enc c (jc_sha256 c (ir_Parent req))))] in
     bindr (attenuateNotBefore parent (ir_NotBefore req) exU) (\<lambda>nbf.
     bindr (put_membership c subband (put_nbf nbf claims0)) (\<lambda>cl1.
     let cl = put_status (ir_Status req) cl1 in
     bindr (signJWT c cl sign) (\<lambda>tok.
     Inr \<lparr>to_Token = tok, to_HumanAnchor = humanAnchor, to_Claims = cl,
          to_IssuedAt = now, to_ExpiresAt = ex\<rparr>))))))))))))"

definition ct_Delegate ::
  "codec \<Rightarrow> gotime \<Rightarrow> gotime \<Rightarrow> bytes option \<Rightarrow> ct_request \<Rightarrow> (bytes \<Rightarrow> bytes option) \<Rightarrow> tok_err + token_out" where
  "ct_Delegate c nowV now rnd req sign =
     bindr (check_request req) (\<lambda>requested.
     bindr (wrap_err ParentInvalid (ct_Verify c nowV (ir_Parent req) (ir_ParentIssuerKey req))) (\<lambda>parent.
     bindr (some_or (TMsg ''missing scope'') (map_claim parent ''capability_scope'')) (\<lambda>parentScope.
     bindr (parent_anchor parent) (\<lambda>humanAnchor.
     bindr (child_depth c parent ''delegation_depth_remaining'') (\<lambda>remaining.
     bindr (need (TMsg ''budget uncounted'') (\<not> (DeclaresCumulativeBudget parentScope \<or> has_key parent ''subband_group_root''))) (\<lambda>_.
     bindr (seal_scope parentScope requested) (\<lambda>attenuated.
     bindr (child_expiry c parent now (ir_TTL req) ct_DefaultTTL) (\<lambda>(ex, exU).
     bindr (newJTI rnd) (\<lambda>jti.
     let claims0 =
       [(''iss'', GStr (ir_Issuer req)), (''sub'', GStr (claimStr parent ''sub'')),
        (''iat'', GInt I64 (unix now)), (''exp'', GInt I64 exU), (''jti'', GStr jti),
        (''txn_token_type'', GStr ''CT''), (''human_anchor'', GStr humanAnchor),
        (''capability_scope'', GMap attenuated), (''delegation_depth_remaining'', GInt I remaining),
        (''holder_key'', GStr (hex_encode (ir_HolderPublicKey req))),
        (''spt_cat_ref'', GStr (claimStr parent ''spt_cat_ref'')),
        (''spt_parent_ref'', GStr (claimStr parent ''jti'')),
        (''spt_parent_hash'', GStr (jc_b64enc c (jc_sha256 c (ir_Parent req))))] in
     bindr (attenuateNotBefore parent (ir_NotBefore req) exU) (\<lambda>nbf.
     let cl = put_status (ir_Status req) (put_nbf nbf claims0) in
     bindr (signJWT c cl sign) (\<lambda>tok.
     Inr \<lparr>to_Token = tok, to_HumanAnchor = humanAnchor, to_Claims = cl,
          to_IssuedAt = now, to_ExpiresAt = ex\<rparr>)))))))))))"

record subband_request =
  sr_Issuer :: string
  sr_ParentCAT :: string
  sr_ParentIssuerKey :: bytes
  sr_HashSuite :: string
  sr_DivisionNbf :: int
  sr_DivisionExp :: int
  sr_Bands :: "band list"
  sr_HolderPublicKeys :: "bytes list"

text \<open>One slice, with the three clock readings of its turn: for its lifetime, for the verification of
  the parent, and for its own times.\<close>

definition mint_slice ::
  "codec \<Rightarrow> (nat \<Rightarrow> gotime \<times> gotime \<times> gotime) \<Rightarrow> (nat \<Rightarrow> bytes option) \<Rightarrow> subband_request \<Rightarrow> bytes \<Rightarrow> bytes list list \<Rightarrow>
     (bytes \<Rightarrow> bytes option) \<Rightarrow> nat \<Rightarrow> tok_err + token_out" where
  "mint_slice c clk rnd req rt paths sign i =
     (let b = sr_Bands req ! i;
          holder = (if length (sr_HolderPublicKeys req) = length (sr_Bands req) then sr_HolderPublicKeys req ! i
                    else sr_HolderPublicKeys req ! 0);
          (nowT, nowV, now) = clk i in
      ct_Issue c nowV now (rnd i)
        \<lparr>ir_Issuer = sr_Issuer req, ir_Parent = sr_ParentCAT req, ir_ParentIssuerKey = sr_ParentIssuerKey req,
         ir_RequestedScope = Some (bd_Scope b), ir_HolderPublicKey = holder,
         ir_TTL = sat64 (time_Unix (bd_Expiry b) - nowT), ir_NotBefore = time_Unix (bd_NotBefore b),
         ir_Status = None\<rparr>
        (Some \<lparr>sm_GroupRoot = rt, sm_GroupSize = of_nat (length (sr_Bands req)), sm_HashSuite = sr_HashSuite req,
               sm_LegIndex = of_nat i, sm_MerklePath = paths ! i\<rparr>) sign)"

definition IssueSubbands ::
  "codec \<Rightarrow> gotime \<Rightarrow> (nat \<Rightarrow> gotime \<times> gotime \<times> gotime) \<Rightarrow> (nat \<Rightarrow> bytes option) \<Rightarrow> subband_request \<Rightarrow>
     (bytes \<Rightarrow> bytes option) \<Rightarrow> tok_err + token_out list" where
  "IssueSubbands c nowV clk rnd req sign =
     bindr (wrap_err ParentInvalid (cat_Verify c nowV (sr_ParentCAT req) (sr_ParentIssuerKey req))) (\<lambda>parent.
     bindr (some_or (TMsg ''missing scope'') (map_claim parent ''capability_scope'')) (\<lambda>parentScope.
     bindr (need (TMsg ''no committed root'') (claimStr parent ''subband_group_root'' \<noteq> [])) (\<lambda>_.
     bindr (wrap_err CommitErr (CommitBandDivision (jc_sha3 c) (sr_HashSuite req) parentScope
              (sr_DivisionNbf req) (sr_DivisionExp req) (sr_Bands req))) (\<lambda>(rt, leaves, paths).
     bindr (need (TMsg ''root mismatch'') (hex_encode rt = claimStr parent ''subband_group_root'')) (\<lambda>_.
     bindr (need (TMsg ''holder key count'') (\<not> (length (sr_HolderPublicKeys req) \<noteq> length (sr_Bands req) \<and>
              length (sr_HolderPublicKeys req) \<noteq> 1))) (\<lambda>_.
     map_err (mint_slice c clk rnd req rt paths sign) [0..<length (sr_Bands req)]))))))"

section \<open>Transaction tokens\<close>

record txn_request =
  tq_Issuer :: string
  tq_Audience :: string
  tq_ParentCT :: string
  tq_ParentIssuerKey :: bytes
  tq_HolderPublicKey :: bytes
  tq_Ledger :: "adapter option"
  tq_Txn :: txnctx
  tq_IntentDigest :: string
  tq_TTL :: int

definition txn_DefaultTTL :: int where
  "txn_DefaultTTL = 30 * 10 ^ 9"

definition txn_Issue ::
  "codec \<Rightarrow> gotime \<Rightarrow> gotime \<Rightarrow> bytes option \<Rightarrow> txn_request \<Rightarrow> (bytes \<Rightarrow> bytes option) \<Rightarrow> tok_err + token_out" where
  "txn_Issue c nowV now rnd req sign =
     bindr (need (TMsg ''issuer required'') (tq_Issuer req \<noteq> [] \<and> tq_Audience req \<noteq> [])) (\<lambda>_.
     bindr (need (TMsg ''holder key length'') (length (tq_HolderPublicKey req) = 32)) (\<lambda>_.
     bindr (some_or (TMsg ''no ledger'') (tq_Ledger req)) (\<lambda>l.
     bindr (wrap_err ParentInvalid (ct_Verify c nowV (tq_ParentCT req) (tq_ParentIssuerKey req))) (\<lambda>parent.
     bindr (need (TMsg ''missing holder'') (claimStr parent ''holder_key'' \<noteq> [])) (\<lambda>_.
     bindr (need (TMsg ''holder mismatch'') (to_lower (claimStr parent ''holder_key'') = hex_encode (tq_HolderPublicKey req))) (\<lambda>_.
     bindr (some_or (TMsg ''missing scope'') (map_claim parent ''capability_scope'')) (\<lambda>parentScope.
     bindr (wrap_err ScopeErr (TxnScope parentScope (tq_Txn req))) (\<lambda>txnScope.
     bindr (wrap_err ScopeErr (Contains parentScope txnScope)) (\<lambda>_.
     bindr (wrap_err LedgerErr (ContextHash (jc_sha256 c) l (tq_Txn req))) (\<lambda>(_, ctxHash).
     bindr (child_expiry c parent now (tq_TTL req) txn_DefaultTTL) (\<lambda>(ex, exU).
     bindr (newJTI rnd) (\<lambda>jti.
     let claims0 =
       [(''iss'', GStr (tq_Issuer req)), (''sub'', GStr (claimStr parent ''sub'')),
        (''aud'', GStr (tq_Audience req)), (''iat'', GInt I64 (unix now)), (''exp'', GInt I64 exU),
        (''jti'', GStr jti), (''txn_token_type'', GStr ''TXN''),
        (''human_anchor'', GStr (claimStr parent ''human_anchor'')),
        (''spt_ct_ref'', GStr (claimStr parent ''jti'')), (''spt_txn_chain'', GStr (ad_name l)),
        (''spt_txn_context_hash'', GStr ctxHash),
        (''cnf'', GMap [(''jkt'', GStr (Thumbprint c (tq_HolderPublicKey req)))])];
       cl = (if tq_IntentDigest req = [] then claims0
             else put ''spt_intent_digest'' (GStr (tq_IntentDigest req)) claims0) in
     bindr (signJWT c cl sign) (\<lambda>tok.
     Inr \<lparr>to_Token = tok, to_HumanAnchor = claimStr parent ''human_anchor'', to_Claims = cl,
          to_IssuedAt = now, to_ExpiresAt = ex\<rparr>)))))))))))))"

end
