(* ===== verification/Receipt.thy ===== *)
theory Receipt
  imports JcsRead AuditLog Tokens
begin

text \<open>
  Transaction receipts and their emission (src/pkg/receipt/receipt.go, src/internal/receiptlog and
  src/pkg/pepevidence): construction with the decision and class pairing, the signed bytes, signing,
  verification, the receipt hash, the detail map of the audit entry, and the emitter that signs a
  receipt and appends it to the audit log.

  SHA-256, base64url and Ed25519 are the fields of the codec and the argument \<open>edsign\<close>. The random
  nonce of a receipt is an argument that is \<open>None\<close> when the random source fails.
\<close>

section \<open>Receipts\<close>

definition receipt_Version :: string where
  "receipt_Version = ''spt-receipt-v1''"

definition signingTag :: bytes where
  "signingTag = ''spt-txn-receipt-v1''"

definition DecisionPermit :: string where "DecisionPermit = ''PERMIT''"
definition DecisionDeny :: string where "DecisionDeny = ''DENY''"
definition ClassOK :: string where "ClassOK = ''ok''"
definition ClassViolation :: string where "ClassViolation = ''violation''"
definition ClassUnavailable :: string where "ClassUnavailable = ''unavailable''"

lemmas receipt_names = DecisionPermit_def DecisionDeny_def ClassOK_def ClassViolation_def ClassUnavailable_def

record receipt =
  rc_V :: string
  rc_PEP :: string
  rc_Decision :: string
  rc_Class :: string
  rc_RulePath :: string
  rc_TokenHash :: string
  rc_PolicyHash :: string
  rc_IntentDigest :: string
  rc_Jurisdiction :: string
  rc_TS :: int
  rc_Nonce :: string
  rc_Sig :: string

datatype receipt_err = RMsg string | RCanon jcs_err | RAudit audit_err

definition TokenHash :: "codec \<Rightarrow> string \<Rightarrow> string" where
  "TokenHash c token = (if token = [] then [] else jc_b64enc c (jc_sha256 c token))"

definition check_pairing :: "string \<Rightarrow> string \<Rightarrow> receipt_err + unit" where
  "check_pairing decision cls =
     (if decision = DecisionPermit then need (RMsg ''PERMIT class'') (cls = ClassOK)
      else if decision = DecisionDeny then need (RMsg ''DENY class'') (cls = ClassViolation \<or> cls = ClassUnavailable)
      else Inl (RMsg ''invalid decision''))"

definition receipt_New :: "codec \<Rightarrow> gotime \<Rightarrow> bytes option \<Rightarrow> string \<Rightarrow> string \<Rightarrow> string \<Rightarrow> string \<Rightarrow> string \<Rightarrow> string \<Rightarrow>
    receipt_err + receipt" where
  "receipt_New c now nonce pep decision cls rulePath tokenHash policyHash =
     bindr (need (RMsg ''empty PEP'') (pep \<noteq> [])) (\<lambda>_.
     bindr (check_pairing decision cls) (\<lambda>_.
     bindr (need (RMsg ''empty rule path'') (rulePath \<noteq> [])) (\<lambda>_.
     bindr (some_or (RMsg ''nonce'') nonce) (\<lambda>nb.
     Inr \<lparr>rc_V = receipt_Version, rc_PEP = pep, rc_Decision = decision, rc_Class = cls, rc_RulePath = rulePath,
          rc_TokenHash = tokenHash, rc_PolicyHash = policyHash, rc_IntentDigest = [], rc_Jurisdiction = [],
          rc_TS = unix now, rc_Nonce = jc_b64enc c nb, rc_Sig = []\<rparr>))))"

definition receipt_fields :: "receipt \<Rightarrow> gval gomap" where
  "receipt_fields r =
     [(''v'', GStr (rc_V r)), (''pep'', GStr (rc_PEP r)), (''decision'', GStr (rc_Decision r)),
      (''class'', GStr (rc_Class r)), (''rule_path'', GStr (rc_RulePath r)), (''token_hash'', GStr (rc_TokenHash r)),
      (''policy_hash'', GStr (rc_PolicyHash r)), (''ts'', GInt I64 (rc_TS r)), (''nonce'', GStr (rc_Nonce r))] @
     (if rc_IntentDigest r \<noteq> [] then [(''intent_digest'', GStr (rc_IntentDigest r))] else []) @
     (if rc_Jurisdiction r \<noteq> [] then [(''jurisdiction'', GStr (rc_Jurisdiction r))] else [])"

definition signingInput :: "receipt \<Rightarrow> receipt_err + bytes" where
  "signingInput r =
     bindr (wrap_err RCanon (Canonicalize (GMap (receipt_fields r)))) (\<lambda>canonical.
     Inr (signingTag @ CHR 0x00 # canonical))"

type_synonym signer = "bytes \<Rightarrow> bytes \<Rightarrow> bytes"

definition receipt_Sign :: "codec \<Rightarrow> signer \<Rightarrow> bytes \<Rightarrow> receipt \<Rightarrow> receipt_err + receipt" where
  "receipt_Sign c edsign logKey r =
     bindr (need (RMsg ''bad log key size'') (length logKey = 64)) (\<lambda>_.
     bindr (signingInput r) (\<lambda>inp.
     Inr (r\<lparr>rc_Sig := jc_b64enc c (edsign logKey inp)\<rparr>)))"

definition receipt_Verify :: "codec \<Rightarrow> bytes \<Rightarrow> receipt \<Rightarrow> receipt_err + unit" where
  "receipt_Verify c logPub r =
     bindr (need (RMsg ''bad log public key size'') (length logPub = 32)) (\<lambda>_.
     bindr (need (RMsg ''unsupported version'') (rc_V r = receipt_Version)) (\<lambda>_.
     bindr (need (RMsg ''invalid pair'')
        (rc_Decision r = DecisionPermit \<and> rc_Class r = ClassOK \<or>
         rc_Decision r = DecisionDeny \<and> (rc_Class r = ClassViolation \<or> rc_Class r = ClassUnavailable))) (\<lambda>_.
     bindr (case jc_b64dec c (rc_Sig r) of
              None \<Rightarrow> Inl (RMsg ''malformed signature'')
            | Some sig \<Rightarrow> if length sig \<noteq> 64 then Inl (RMsg ''malformed signature'') else Inr sig) (\<lambda>sig.
     bindr (signingInput r) (\<lambda>inp.
     need (RMsg ''signature verification failed'') (jc_edverify c logPub inp sig))))))"

definition receipt_Hash :: "codec \<Rightarrow> receipt \<Rightarrow> receipt_err + string" where
  "receipt_Hash c r =
     bindr (need (RMsg ''unsigned'') (rc_Sig r \<noteq> [])) (\<lambda>_.
     bindr (signingInput r) (\<lambda>inp.
     Inr (jc_b64enc c (jc_sha256 c (inp @ CHR 0x00 # rc_Sig r)))))"

definition AuditDetail :: "codec \<Rightarrow> receipt \<Rightarrow> receipt_err + string gomap" where
  "AuditDetail c r =
     bindr (receipt_Hash c r) (\<lambda>rh.
     Inr ([(''receipt_v'', rc_V r), (''receipt_hash'', rh), (''pep'', rc_PEP r), (''decision'', rc_Decision r),
           (''class'', rc_Class r), (''rule_path'', rc_RulePath r), (''token_hash'', rc_TokenHash r),
           (''policy_hash'', rc_PolicyHash r)] @
          (if rc_IntentDigest r \<noteq> [] then [(''intent_digest'', rc_IntentDigest r)] else []) @
          (if rc_Jurisdiction r \<noteq> [] then [(''jurisdiction'', rc_Jurisdiction r)] else [])))"

section \<open>Emission\<close>

definition EventType :: string where
  "EventType = ''txn_receipt''"

definition NewLogEmitter :: "auditlog option \<Rightarrow> bytes \<Rightarrow> receipt_err + auditlog \<times> bytes" where
  "NewLogEmitter lg logKey =
     bindr (some_or (RMsg ''nil audit log'') lg) (\<lambda>l.
     bindr (need (RMsg ''bad log key size'') (length logKey = 64)) (\<lambda>_. Inr (l, logKey)))"

text \<open>The emitter's surroundings for one call: the clock and the outcome of the file operations.\<close>

record emit_env =
  em_now :: gotime
  em_io :: io_result

definition Emit :: "codec \<Rightarrow> signer \<Rightarrow> (jrecord \<Rightarrow> bytes) \<Rightarrow> bytes \<Rightarrow> emit_env \<Rightarrow> auditlog \<Rightarrow> receipt \<Rightarrow>
    (receipt_err + string) \<times> auditlog" where
  "Emit c edsign marshal key env l r =
     (case receipt_Sign c edsign key r of
        Inl e \<Rightarrow> (Inl e, l)
      | Inr r1 \<Rightarrow>
          (case receipt_Hash c r1 of
             Inl e \<Rightarrow> (Inl e, l)
           | Inr hash \<Rightarrow>
               (case AuditDetail c r1 of
                  Inl e \<Rightarrow> (Inl e, l)
                | Inr detail \<Rightarrow>
                    (case Append (jc_sha256 c) marshal (em_now env) (em_io env) l EventType hash detail of
                       (Inl e, l1) \<Rightarrow> (Inl (RAudit e), l1)
                     | (Inr _, l1) \<Rightarrow> (Inr hash, l1)))))"

text \<open>The adapter of src/pkg/pepevidence: a decision of an external enforcement point, recorded the same way.\<close>

record evidence =
  ev_PEP :: string
  ev_Decision :: string
  ev_Class :: string
  ev_RulePath :: string
  ev_TokenHash :: string
  ev_PolicyHash :: string
  ev_IntentDigest :: string
  ev_Jurisdiction :: string

definition pepevidence_Emit :: "codec \<Rightarrow> signer \<Rightarrow> (jrecord \<Rightarrow> bytes) \<Rightarrow> bytes option \<Rightarrow> gotime \<Rightarrow> bytes option \<Rightarrow> emit_env \<Rightarrow>
    auditlog \<Rightarrow> evidence \<Rightarrow> (receipt_err + string) \<times> auditlog" where
  "pepevidence_Emit c edsign marshal inner now nonce env l er =
     (case inner of
        None \<Rightarrow> (Inl (RMsg ''nil emitter''), l)
      | Some key \<Rightarrow>
          (case receipt_New c now nonce (ev_PEP er) (ev_Decision er) (ev_Class er) (ev_RulePath er)
                  (ev_TokenHash er) (ev_PolicyHash er) of
             Inl e \<Rightarrow> (Inl e, l)
           | Inr r \<Rightarrow> Emit c edsign marshal key env l
               (r\<lparr>rc_IntentDigest := ev_IntentDigest er, rc_Jurisdiction := ev_Jurisdiction er\<rparr>)))"

section \<open>What the signed bytes fix\<close>

lemma jnorm_GMap_lookup:
  assumes "wf_map a" "wf_map b" "jnorm (GMap a) = jnorm (GMap b)"
  shows "map_option jnorm (map_of a k) = map_option jnorm (map_of b k)"
proof -
  let ?val = "\<lambda>m k. case map_of m k of None \<Rightarrow> GNil | Some w \<Rightarrow> jnorm w"
  from assms(3) have e: "sorted_keys a = sorted_keys b" "\<forall>k \<in> set (sorted_keys a). ?val a k = ?val b k"
    unfolding jnorm_GMap gval.inject map_keyed_eq by blast+
  from e(1) have keys: "fst ` set a = fst ` set b" by (metis set_sorted_keys)
  show ?thesis
  proof (cases "k \<in> fst ` set a")
    case True
    then obtain x y where "map_of a k = Some x" "map_of b k = Some y"
      using keys by (metis domD dom_map_of_conv_image_fst)
    with True e(2) show ?thesis by auto
  next
    case False
    then have "map_of a k = None" "map_of b k = None" using keys by (simp_all add: map_of_eq_None_iff)
    then show ?thesis by simp
  qed
qed

lemma receipt_fields_wf: "wf_val (GMap (receipt_fields r))" "typed_ints (GMap (receipt_fields r))" "wf_map (receipt_fields r)"
  by (auto simp: receipt_fields_def wf_map_def is_unsigned_def)

lemma receipt_fields_lookup:
  "map_of (receipt_fields r) ''v'' = Some (GStr (rc_V r))" "map_of (receipt_fields r) ''pep'' = Some (GStr (rc_PEP r))"
  "map_of (receipt_fields r) ''decision'' = Some (GStr (rc_Decision r))"
  "map_of (receipt_fields r) ''class'' = Some (GStr (rc_Class r))"
  "map_of (receipt_fields r) ''rule_path'' = Some (GStr (rc_RulePath r))"
  "map_of (receipt_fields r) ''token_hash'' = Some (GStr (rc_TokenHash r))"
  "map_of (receipt_fields r) ''policy_hash'' = Some (GStr (rc_PolicyHash r))"
  "map_of (receipt_fields r) ''ts'' = Some (GInt I64 (rc_TS r))" "map_of (receipt_fields r) ''nonce'' = Some (GStr (rc_Nonce r))"
  "map_of (receipt_fields r) ''intent_digest'' = (if rc_IntentDigest r = [] then None else Some (GStr (rc_IntentDigest r)))"
  "map_of (receipt_fields r) ''jurisdiction'' = (if rc_Jurisdiction r = [] then None else Some (GStr (rc_Jurisdiction r)))"
  by (simp_all add: receipt_fields_def)

lemma signingInput_inj:
  assumes "signingInput r = Inr b" "signingInput s = Inr b"
  shows "r\<lparr>rc_Sig := x\<rparr> = s\<lparr>rc_Sig := x\<rparr>"
proof -
  from assms obtain d where "Canonicalize (GMap (receipt_fields r)) = Inr d" "Canonicalize (GMap (receipt_fields s)) = Inr d"
    by (auto simp: signingInput_def)
  then have "jnorm (GMap (receipt_fields r)) = jnorm (GMap (receipt_fields s))"
    using Canonicalize_eq_iff receipt_fields_wf by blast
  from jnorm_GMap_lookup[OF receipt_fields_wf(3) receipt_fields_wf(3) this]
  have l: "map_option jnorm (map_of (receipt_fields r) k) = map_option jnorm (map_of (receipt_fields s) k)" for k .
  show ?thesis
    using l[of "''v''"] l[of "''pep''"] l[of "''decision''"] l[of "''class''"] l[of "''rule_path''"] l[of "''token_hash''"]
      l[of "''policy_hash''"] l[of "''ts''"] l[of "''nonce''"] l[of "''intent_digest''"] l[of "''jurisdiction''"]
    by (auto simp: receipt_fields_lookup int_str_inj split: if_split_asm)
qed

lemma signingInput_sig [simp]: "signingInput (r\<lparr>rc_Sig := x\<rparr>) = signingInput r"
  by (simp add: signingInput_def receipt_fields_def)

lemma receipt_New_Inr:
  "receipt_New c now nonce pep dec cls rp th ph = Inr r \<longleftrightarrow>
     pep \<noteq> [] \<and> check_pairing dec cls = Inr () \<and> rp \<noteq> [] \<and> (\<exists>nb. nonce = Some nb \<and>
       r = \<lparr>rc_V = receipt_Version, rc_PEP = pep, rc_Decision = dec, rc_Class = cls, rc_RulePath = rp, rc_TokenHash = th,
          rc_PolicyHash = ph, rc_IntentDigest = [], rc_Jurisdiction = [], rc_TS = unix now, rc_Nonce = jc_b64enc c nb, rc_Sig = []\<rparr>)"
  by (auto simp: receipt_New_def)

lemma check_pairing_iff:
  "check_pairing d k = Inr () \<longleftrightarrow> d = DecisionPermit \<and> k = ClassOK \<or> d = DecisionDeny \<and> (k = ClassViolation \<or> k = ClassUnavailable)"
  by (simp add: check_pairing_def receipt_names)

text \<open>C13: A receipt that the log key signed verifies, and only with what was signed. A receipt built by
  the constructor and signed with a 64-byte log key passes verification under the matching public
  key; and whatever receipt carries the same signed bytes agrees with it in every field but the
  signature: version, enforcement point, decision, class, rule, token hash, policy hash, intent
  digest, jurisdiction, time and nonce.\<close>

theorem signed_receipt_verifies_and_binds:
  assumes "receipt_New c now nonce pep dec cls rp th ph = Inr r0"
    and "receipt_Sign c edsign key (r0\<lparr>rc_IntentDigest := dg, rc_Jurisdiction := ju\<rparr>) = Inr r"
    and "\<forall>b. jc_b64dec c (jc_b64enc c b) = Some b"
    and "\<forall>m. length (edsign key m) = 64 \<and> jc_edverify c pub m (edsign key m)" and "length pub = 32"
  shows "receipt_Verify c pub r = Inr () \<and> (\<forall>s. signingInput s = signingInput r \<longrightarrow> s\<lparr>rc_Sig := rc_Sig r\<rparr> = r)"
proof -
  let ?r = "r0\<lparr>rc_IntentDigest := dg, rc_Jurisdiction := ju\<rparr>"
  from assms(2) obtain inp where inp: "signingInput ?r = Inr inp" "r = ?r\<lparr>rc_Sig := jc_b64enc c (edsign key inp)\<rparr>"
    by (auto simp: receipt_Sign_def)
  from inp have si: "signingInput r = Inr inp" by (metis signingInput_sig)
  have "receipt_Verify c pub r = Inr ()"
    using assms(1,3-5) inp si by (auto simp: receipt_Verify_def receipt_New_Inr check_pairing_iff)
  moreover have "s\<lparr>rc_Sig := rc_Sig r\<rparr> = r" if "signingInput s = signingInput r" for s
    using signingInput_inj[of s inp r "rc_Sig r"] that si by simp
  ultimately show ?thesis by blast
qed

section \<open>What an emission records\<close>

lemma Emit_ok:
  assumes "Emit c edsign marshal key env l r = (Inr h, l1)"
  shows "\<exists>sig d. receipt_Sign c edsign key r = Inr (r\<lparr>rc_Sig := sig\<rparr>) \<and> receipt_Hash c (r\<lparr>rc_Sig := sig\<rparr>) = Inr h \<and>
     AuditDetail c (r\<lparr>rc_Sig := sig\<rparr>) = Inr d \<and> em_io env = IoOk \<and>
     lg_entries l1 = lg_entries l @ [new_entry (jc_sha256 c) (em_now env) l EventType h d] \<and>
     fst (Append (jc_sha256 c) marshal (em_now env) (em_io env) l EventType h d) = Inr (new_entry (jc_sha256 c) (em_now env) l EventType h d) \<and>
     l1 = snd (Append (jc_sha256 c) marshal (em_now env) (em_io env) l EventType h d)"
proof -
  from assms obtain r1 where r1: "receipt_Sign c edsign key r = Inr r1"
    by (auto simp: Emit_def split: sum.split_asm)
  then obtain sig where sig: "r1 = r\<lparr>rc_Sig := sig\<rparr>" by (auto simp: receipt_Sign_def)
  from assms r1 obtain d where h: "receipt_Hash c r1 = Inr h" "AuditDetail c r1 = Inr d"
    by (auto simp: Emit_def split: sum.split_asm prod.split_asm)
  from assms r1 h obtain e where a: "Append (jc_sha256 c) marshal (em_now env) (em_io env) l EventType h d = (Inr e, l1)"
    by (auto simp: Emit_def split: sum.split_asm prod.split_asm)
  then have "em_io env = IoOk" "e = new_entry (jc_sha256 c) (em_now env) l EventType h d" "lg_entries l1 = lg_entries l @ [e]"
    by (auto simp: Append_def Let_def split: sum.split_asm io_result.split_asm)
  with r1 sig h a show ?thesis by auto
qed

lemma Append_fail_entries: "Append sha m now io l ev sb d = (Inl e, l1) \<Longrightarrow> lg_entries l1 = lg_entries l"
  by (auto simp: Append_def Let_def split: sum.split_asm io_result.split_asm)

lemma Emit_fail: "Emit c edsign marshal key env l r = (Inl e, l1) \<Longrightarrow> lg_entries l1 = lg_entries l"
  by (auto simp: Emit_def split: sum.split_asm prod.split_asm dest: Append_fail_entries)

section \<open>Receipts that can always be signed\<close>

definition plain_fields :: "receipt \<Rightarrow> bool" where
  "plain_fields r = (\<bar>rc_TS r\<bar> \<le> MaxInt \<and> list_all (\<lambda>s. checkString s = Inr ())
     [rc_V r, rc_PEP r, rc_Decision r, rc_Class r, rc_RulePath r, rc_TokenHash r, rc_PolicyHash r, rc_Nonce r,
      rc_IntentDigest r, rc_Jurisdiction r])"

lemma signingInput_ok:
  assumes "plain_fields r"
  shows "\<exists>b. signingInput r = Inr b"
proof -
  have ascii: "checkString k = Inr ()" if "k \<in> fst ` set (receipt_fields r)" for k
    using that by (intro checkString_ascii) (auto simp: receipt_fields_def byte_def split: if_split_asm)
  have d: "\<not> MaxDepth < Suc 0" by (simp add: MaxDepth_def)
  have "canonical_at (Suc 0) (GInt I64 (rc_TS r))"
    using assms d by (auto simp: canonical_at_def appendValue_eval is_unsigned_def appendInt_def plain_fields_def)
  moreover have "canonical_at (Suc 0) (GStr s)" if "checkString s = Inr ()" for s
    using that d by (simp add: canonical_at_simps)
  ultimately have "canonical_at (Suc 0) x" if "(k, x) \<in> set (receipt_fields r)" for k x
    using that assms by (auto simp: receipt_fields_def plain_fields_def split: if_split_asm)
  then have "canonical_at 0 (GMap (receipt_fields r))"
    using ascii receipt_fields_wf(3) by (intro canonical_at_GMap) (force simp: MaxDepth_def)+
  then show ?thesis by (auto simp: signingInput_def canonical_at_def Canonicalize_def is_ok_iff)
qed

text \<open>A small instance: base64 and the hash as identities, a signature that is the padded message.\<close>

definition rcs_sign :: signer where
  "rcs_sign key m = take 64 (m @ replicate 64 CHR ''.'')"

definition rcs_codec :: codec where
  "rcs_codec = \<lparr>jc_b64dec = Some, jc_b64enc = (\<lambda>b. b), jc_alg = (\<lambda>_. ''EdDSA''), jc_claims = (\<lambda>_. None), jc_marshal = (\<lambda>_. None),
     jc_edverify = (\<lambda>pub m s. s = rcs_sign pub m), jc_sha256 = (\<lambda>b. b), jc_sha3 = (\<lambda>b. b), jc_dpop_header = (\<lambda>_. None),
     jc_dpop_claims = (\<lambda>_. None), jc_url_parse = (\<lambda>_. None), jc_url_string = (\<lambda>_. []), jc_lower = (\<lambda>s. s), jc_oob = (\<lambda>_. 0)\<rparr>"

definition rcs_key :: bytes where "rcs_key = replicate 64 CHR ''k''"
definition rcs_pub :: bytes where "rcs_pub = replicate 32 CHR ''p''"

definition rcs_receipt :: receipt where
  "rcs_receipt = \<lparr>rc_V = receipt_Version, rc_PEP = ''pep'', rc_Decision = DecisionPermit, rc_Class = ClassOK, rc_RulePath = ''authorize.ok'',
     rc_TokenHash = ''t'', rc_PolicyHash = ''h'', rc_IntentDigest = [], rc_Jurisdiction = [], rc_TS = 7, rc_Nonce = ''n'', rc_Sig = []\<rparr>"

lemma rcs_new: "receipt_New rcs_codec (7 * 10 ^ 9) (Some ''n'') ''pep'' DecisionPermit ClassOK ''authorize.ok'' ''t'' ''h'' = Inr rcs_receipt"
  by (simp add: receipt_New_def check_pairing_def rcs_receipt_def rcs_codec_def unix_def)

lemma rcs_plain: "plain_fields (rcs_receipt\<lparr>rc_IntentDigest := ''d'', rc_Jurisdiction := ''eu''\<rparr>)"
  by (simp add: plain_fields_def rcs_receipt_def receipt_Version_def receipt_names MaxInt_def checkString_ascii byte_def)

lemma rcs_crypto: "\<forall>b. jc_b64dec rcs_codec (jc_b64enc rcs_codec b) = Some b"
  "\<forall>m. length (rcs_sign rcs_key m) = 64 \<and> jc_edverify rcs_codec rcs_pub m (rcs_sign rcs_key m)" "length rcs_pub = 32"
  by (auto simp: rcs_codec_def rcs_sign_def rcs_pub_def min_def)

theorem signed_receipt_verifies_and_binds_witness:
  "\<exists>r. receipt_Sign rcs_codec rcs_sign rcs_key (rcs_receipt\<lparr>rc_IntentDigest := ''d'', rc_Jurisdiction := ''eu''\<rparr>) = Inr r \<and>
     rc_Decision r = DecisionPermit \<and> receipt_Verify rcs_codec rcs_pub r = Inr ()"
proof -
  from signingInput_ok[OF rcs_plain] obtain r where
    r: "receipt_Sign rcs_codec rcs_sign rcs_key (rcs_receipt\<lparr>rc_IntentDigest := ''d'', rc_Jurisdiction := ''eu''\<rparr>) = Inr r"
    by (auto simp: receipt_Sign_def rcs_key_def)
  then have "rc_Decision r = DecisionPermit" by (auto simp: receipt_Sign_def rcs_receipt_def)
  with r signed_receipt_verifies_and_binds[OF rcs_new r rcs_crypto] show ?thesis by blast
qed

end
