(* ===== verification/Intent.thy ===== *)
theory Intent
  imports JcsRead Tokens
begin

text \<open>
  Intent binding (src/internal/intent/intent.go): the digest of a declared action over its tool,
  parameters and target, and the comparison of the digest in a token with the actual call. SHA-256
  and base64url are fields of the codec.
\<close>

section \<open>The digest\<close>

definition intent_Claim :: string where
  "intent_Claim = ''spt_intent_digest''"

definition intent_domainTag :: bytes where
  "intent_domainTag = ''spt-txn-intent-v1''"

record intent =
  it_Tool :: string
  it_Params :: bytes
  it_Target :: string

datatype intent_err = IMsg string | IParams jcs_err | ICanon jcs_err | ErrMismatch

definition parseParams :: "bytes \<Rightarrow> intent_err + gval" where
  "parseParams raw =
     (if raw = [] then Inr (GMap [])
      else bindr (wrap_err IParams (ParseStrict raw)) (\<lambda>v.
        case v of GMap m \<Rightarrow> Inr v | _ \<Rightarrow> Inl (IMsg ''params must be a JSON object'')))"

definition intent_value :: "string \<Rightarrow> gval \<Rightarrow> string \<Rightarrow> gval" where
  "intent_value tool params target = GMap [(''tool'', GStr tool), (''params'', params), (''target'', GStr target)]"

definition intent_preimage :: "intent \<Rightarrow> intent_err + bytes" where
  "intent_preimage i =
     bindr (need (IMsg ''empty tool'') (it_Tool i \<noteq> [])) (\<lambda>_.
     bindr (need (IMsg ''empty target'') (it_Target i \<noteq> [])) (\<lambda>_.
     bindr (parseParams (it_Params i)) (\<lambda>params.
     bindr (wrap_err ICanon (Canonicalize (intent_value (it_Tool i) params (it_Target i)))) (\<lambda>canonical.
     Inr (intent_domainTag @ CHR 0x00 # canonical)))))"

definition Digest :: "codec \<Rightarrow> intent \<Rightarrow> intent_err + string" where
  "Digest c i = bindr (intent_preimage i) (\<lambda>p. Inr (jc_b64enc c (jc_sha256 c p)))"

definition Match :: "codec \<Rightarrow> string \<Rightarrow> intent \<Rightarrow> intent_err + unit" where
  "Match c boundDigest actual =
     bindr (need ErrMismatch (boundDigest \<noteq> [])) (\<lambda>_.
     bindr (wrap_err (\<lambda>_. ErrMismatch) (Digest c actual)) (\<lambda>got.
     case (jc_b64dec c boundDigest, jc_b64dec c got) of
       (Some a, Some b) \<Rightarrow>
         bindr (need ErrMismatch (length a = 32 \<and> length b = 32)) (\<lambda>_. need ErrMismatch (a = b))
     | _ \<Rightarrow> Inl ErrMismatch))"

definition BoundDigestFromClaims :: "claims \<Rightarrow> string" where
  "BoundDigestFromClaims cl = claimStr cl intent_Claim"

section \<open>What a match means\<close>

text \<open>Two intents name the same action: the same tool, the same target, parameters that denote the same object.\<close>

definition same_action :: "intent \<Rightarrow> intent \<Rightarrow> bool" where
  "same_action i j = (it_Tool i = it_Tool j \<and> it_Target i = it_Target j \<and>
     (case (parseParams (it_Params i), parseParams (it_Params j)) of
        (Inr p, Inr q) \<Rightarrow> same_json p q | _ \<Rightarrow> False))"

lemma parseParams_canonical: "parseParams raw = Inr p \<Longrightarrow> wf_val p \<and> typed_ints p \<and> is_ok (Canonicalize p)"
proof (cases "raw = []")
  case True
  moreover have "canonical_at 0 (GMap [])" by (rule canonical_at_GMap) (simp_all add: MaxDepth_def)
  ultimately show "parseParams raw = Inr p \<Longrightarrow> wf_val p \<and> typed_ints p \<and> is_ok (Canonicalize p)"
    by (auto simp: parseParams_def canonical_at_def Canonicalize_def)
next
  case False
  assume a: "parseParams raw = Inr p"
  with False obtain v where v: "ParseStrict raw = Inr v" by (auto simp: parseParams_def)
  with a False have "p = v" by (cases v) (simp_all add: parseParams_def)
  with ParseStrict_canonical[OF v] show "wf_val p \<and> typed_ints p \<and> is_ok (Canonicalize p)"
    by (simp add: canonical_at_def Canonicalize_def)
qed

lemma intent_value_wf:
  assumes "wf_val p" "typed_ints p"
  shows "wf_val (intent_value t p g)" "typed_ints (intent_value t p g)"
  using assms by (simp_all add: intent_value_def wf_map_def)

lemma intent_preimage_Inr:
  "intent_preimage i = Inr b \<longleftrightarrow> it_Tool i \<noteq> [] \<and> it_Target i \<noteq> [] \<and> (\<exists>p d. parseParams (it_Params i) = Inr p \<and>
     Canonicalize (intent_value (it_Tool i) p (it_Target i)) = Inr d \<and> b = intent_domainTag @ CHR 0x00 # d)"
  by (auto simp: intent_preimage_def)

lemma intent_preimage_binds:
  assumes "intent_preimage i = Inr b" "intent_preimage j = Inr b"
  shows "same_action i j"
proof -
  from assms obtain p q d where p: "parseParams (it_Params i) = Inr p" "Canonicalize (intent_value (it_Tool i) p (it_Target i)) = Inr d"
    and q: "parseParams (it_Params j) = Inr q" "Canonicalize (intent_value (it_Tool j) q (it_Target j)) = Inr d"
    by (auto simp: intent_preimage_Inr)
  have wp: "wf_val p" "typed_ints p" and wq: "wf_val q" "typed_ints q"
    using parseParams_canonical p(1) q(1) by blast+
  have "same_json (intent_value (it_Tool i) p (it_Target i)) (intent_value (it_Tool j) q (it_Target j))"
    using Canonicalize_eq_iff[OF intent_value_wf[OF wp] p(2) intent_value_wf[OF wq] q(2)]
      jnorm_eq_iff[of "intent_value (it_Tool i) p (it_Target i)" "intent_value (it_Tool j) q (it_Target j)" 0 d d]
      intent_value_wf wp wq p(2) q(2) by (simp add: Canonicalize_def)
  then show ?thesis
    by (simp add: intent_value_def same_json.simps[of "GMap m" for m] same_json.simps[of "GStr m" for m] same_action_def p(1) q(1))
qed

lemma Match_Inr:
  "Match c bd a = Inr u \<longleftrightarrow> bd \<noteq> [] \<and> (\<exists>p x y. intent_preimage a = Inr p \<and> jc_b64dec c bd = Some x \<and>
     jc_b64dec c (jc_b64enc c (jc_sha256 c p)) = Some y \<and> length x = 32 \<and> x = y)"
  by (auto simp: Match_def Digest_def split: option.split_asm prod.split_asm)

text \<open>A match accepts the declared action only, unless the two hashed texts collide.\<close>

lemma matched_intent_is_declared_action:
  assumes "Digest c declared = Inr bound" and "Match c bound actual = Inr ()"
    and "\<forall>b. jc_b64dec c (jc_b64enc c b) = Some b"
    and "\<forall>p q. intent_preimage declared = Inr p \<longrightarrow> intent_preimage actual = Inr q \<longrightarrow>
       jc_sha256 c p = jc_sha256 c q \<longrightarrow> p = q"
  shows "same_action declared actual"
proof -
  from assms(1) obtain p where p: "intent_preimage declared = Inr p" "bound = jc_b64enc c (jc_sha256 c p)"
    by (auto simp: Digest_def)
  from assms(2,3) p obtain q where q: "intent_preimage actual = Inr q" "jc_sha256 c p = jc_sha256 c q"
    by (auto simp: Match_Inr)
  with assms(4) p have "p = q" by blast
  with intent_preimage_binds p(1) q(1) show ?thesis by blast
qed

end
