(* ===== verification/Decision.thy ===== *)
theory Decision
  imports Receipt Intent
begin

text \<open>
  The decision core behind the gateway skins (src/internal/decision/decision.go): configuration and
  its guards, the replay cache, the decision path with a receipt for every outcome, and the two
  records a skin may originate. The token verifier and the receipt emitter are the fields of the
  configuration; the emitter's state (the audit log) travels with the engine. One call reads the
  clock several times, so its surroundings carry one reading for each place.

  Calls run concurrently; the only shared state they change one after another is the replay cache
  (under its mutex) and the log. A run lists the calls in the order of their replay checks, each with
  its own clock readings, which covers every interleaving of the cache.
\<close>

section \<open>Configuration and engine\<close>

datatype verify_err = VUnavailable | VViolation

type_synonym verifier = "gotime \<Rightarrow> string \<Rightarrow> verify_err + claims"

record denv =
  dv_verify :: gotime
  dv_ttl :: gotime
  dv_replay :: gotime
  dv_receipt :: gotime
  dv_nonce :: "bytes option"
  dv_emit :: emit_env

record 'l dconfig =
  dn_PEP :: string
  dn_PolicyHash :: string
  dn_Jurisdiction :: string
  dn_Verify :: "verifier option"
  dn_Emit :: "(emit_env \<Rightarrow> 'l \<Rightarrow> receipt \<Rightarrow> (receipt_err + string) \<times> 'l) option"
  dn_Audience :: string
  dn_MaxTokenTTL :: int
  dn_ReplayWindow :: int
  dn_ReplayCapacity :: int

record 'l dengine =
  dg_cfg :: "'l dconfig"
  dg_replay :: "int gomap"
  dg_log :: 'l

definition decision_New :: "'l dconfig \<Rightarrow> 'l \<Rightarrow> string + 'l dengine" where
  "decision_New cfg l =
     bindr (need ''PEP identity required'' (dn_PEP cfg \<noteq> [])) (\<lambda>_.
     bindr (need ''policy hash required'' (dn_PolicyHash cfg \<noteq> [])) (\<lambda>_.
     bindr (need ''token verifier required'' (dn_Verify cfg \<noteq> None)) (\<lambda>_.
     bindr (need ''receipt emitter required'' (dn_Emit cfg \<noteq> None)) (\<lambda>_.
     bindr (need ''Audience required'' (dn_Audience cfg \<noteq> [])) (\<lambda>_.
     bindr (need ''MaxTokenTTL required'' (\<not> dn_MaxTokenTTL cfg \<le> 0)) (\<lambda>_.
     let cfg1 = (if dn_ReplayWindow cfg \<le> 0 then cfg\<lparr>dn_ReplayWindow := 10 * 60 * 10 ^ 9\<rparr> else cfg) in
     bindr (need ''ReplayWindow is shorter than MaxTokenTTL'' (\<not> dn_ReplayWindow cfg1 < dn_MaxTokenTTL cfg1)) (\<lambda>_.
     let cfg2 = (if dn_ReplayCapacity cfg1 \<le> 0 then cfg1\<lparr>dn_ReplayCapacity := 65536\<rparr> else cfg1) in
     Inr \<lparr>dg_cfg = cfg2, dg_replay = [], dg_log = l\<rparr>)))))))"

section \<open>Decisions\<close>

record ddecision =
  dd_permit :: bool
  dd_class :: string
  dd_rule :: string
  dd_receiptHash :: string

definition zero_decision :: ddecision where
  "zero_decision = \<lparr>dd_permit = False, dd_class = [], dd_rule = [], dd_receiptHash = []\<rparr>"

definition dd_Class :: "ddecision \<Rightarrow> string" where
  "dd_Class d = (if dd_class d = [] then ClassUnavailable else dd_class d)"

definition dd_Rule :: "ddecision \<Rightarrow> string" where
  "dd_Rule d = (if dd_rule d = [] then ''decision.unset'' else dd_rule d)"

definition failed_decision :: "string \<Rightarrow> ddecision" where
  "failed_decision rule = zero_decision\<lparr>dd_class := ClassUnavailable, dd_rule := rule\<rparr>"

definition dfinish :: "codec \<Rightarrow> denv \<Rightarrow> 'l dengine \<Rightarrow> string \<Rightarrow> string \<Rightarrow> string \<Rightarrow> string \<Rightarrow> string \<Rightarrow> ddecision \<times> 'l dengine" where
  "dfinish c env e dec cls rule tokenHash intentDigest =
     (case receipt_New c (dv_receipt env) (dv_nonce env) (dn_PEP (dg_cfg e)) dec cls rule tokenHash (dn_PolicyHash (dg_cfg e)) of
        Inl _ \<Rightarrow> (failed_decision ''receipt.construct-failed'', e)
      | Inr r \<Rightarrow>
          (case the (dn_Emit (dg_cfg e)) (dv_emit env) (dg_log e)
                  (r\<lparr>rc_IntentDigest := intentDigest, rc_Jurisdiction := dn_Jurisdiction (dg_cfg e)\<rparr>) of
             (Inl _, l1) \<Rightarrow> (failed_decision ''receipt.emit-failed'', e\<lparr>dg_log := l1\<rparr>)
           | (Inr hash, l1) \<Rightarrow>
               (\<lparr>dd_permit = (dec = DecisionPermit), dd_class = cls, dd_rule = rule, dd_receiptHash = hash\<rparr>,
                e\<lparr>dg_log := l1\<rparr>)))"

datatype replayResult = replayFresh | replayDuplicate | replayUnavailable

definition replayCheck :: "gotime \<Rightarrow> 'l dengine \<Rightarrow> string \<Rightarrow> replayResult \<times> 'l dengine" where
  "replayCheck t e jti =
     (let now = unix t;
          live = filter (\<lambda>(k, ex). \<not> ex \<le> now) (dg_replay e)
      in if has_key live jti then (replayDuplicate, e\<lparr>dg_replay := live\<rparr>)
         else if int (length live) \<ge> dn_ReplayCapacity (dg_cfg e) then (replayUnavailable, e\<lparr>dg_replay := live\<rparr>)
         else (replayFresh, e\<lparr>dg_replay := put jti (wrap64 (now + go_quot (dn_ReplayWindow (dg_cfg e)) (10 ^ 9))) live\<rparr>))"

text \<open>\<open>time.Until\<close> saturates at the ends of a 64-bit duration.\<close>

definition time_Until :: "gotime \<Rightarrow> gotime \<Rightarrow> int" where
  "time_Until now t = max (- (2 ^ 63)) (min (2 ^ 63 - 1) (t - now))"

definition bound_and_finish :: "codec \<Rightarrow> denv \<Rightarrow> 'l dengine \<Rightarrow> string \<Rightarrow> claims \<Rightarrow> intent \<Rightarrow> ddecision \<times> 'l dengine" where
  "bound_and_finish c env e tokenHash claims i =
     (let bound = BoundDigestFromClaims claims in
      if Match c bound i \<noteq> Inr () then dfinish c env e DecisionDeny ClassViolation ''intent.digest-mismatch'' tokenHash bound
      else dfinish c env e DecisionPermit ClassOK ''authorize.ok'' tokenHash bound)"

definition Decide :: "codec \<Rightarrow> denv \<Rightarrow> 'l dengine \<Rightarrow> string \<Rightarrow> intent \<Rightarrow> ddecision \<times> 'l dengine" where
  "Decide c env e token i =
     (if token = [] then dfinish c env e DecisionDeny ClassViolation ''token.absent'' [] []
      else let tokenHash = TokenHash c token in
        case the (dn_Verify (dg_cfg e)) (dv_verify env) token of
          Inl VUnavailable \<Rightarrow> dfinish c env e DecisionDeny ClassUnavailable ''token.verify-unavailable'' tokenHash []
        | Inl VViolation \<Rightarrow> dfinish c env e DecisionDeny ClassViolation ''token.verify'' tokenHash []
        | Inr claims \<Rightarrow>
            (let jti = claimStr claims ''jti'' in
             if jti = [] then dfinish c env e DecisionDeny ClassViolation ''token.jti-absent'' tokenHash []
             else if claimStr claims ''aud'' \<noteq> dn_Audience (dg_cfg e) then
               dfinish c env e DecisionDeny ClassViolation ''token.audience-mismatch'' tokenHash []
             else case float_claim claims ''exp'' of
               None \<Rightarrow> dfinish c env e DecisionDeny ClassViolation ''token.exp-absent'' tokenHash []
             | Some expF \<Rightarrow>
                 if time_Until (dv_ttl env) (time_Unix (float_to_int (jc_oob c) expF)) > dn_MaxTokenTTL (dg_cfg e) then
                   dfinish c env e DecisionDeny ClassViolation ''token.ttl-excessive'' tokenHash []
                 else case replayCheck (dv_replay env) e jti of
                   (replayDuplicate, e1) \<Rightarrow> dfinish c env e1 DecisionDeny ClassViolation ''replay.duplicate'' tokenHash []
                 | (replayUnavailable, e1) \<Rightarrow>
                     dfinish c env e1 DecisionDeny ClassUnavailable ''replay.cache-unavailable'' tokenHash []
                 | (replayFresh, e1) \<Rightarrow> bound_and_finish c env e1 tokenHash claims i))"

definition RecordDeny :: "codec \<Rightarrow> denv \<Rightarrow> 'l dengine \<Rightarrow> string \<Rightarrow> bool \<Rightarrow> string \<Rightarrow> ddecision \<times> 'l dengine" where
  "RecordDeny c env e rule unavailable token =
     dfinish c env e DecisionDeny (if unavailable then ClassUnavailable else ClassViolation) rule (TokenHash c token) []"

definition RecordObserved :: "codec \<Rightarrow> denv \<Rightarrow> 'l dengine \<Rightarrow> string \<Rightarrow> ddecision \<times> 'l dengine" where
  "RecordObserved c env e rule = dfinish c env e DecisionPermit ClassOK rule [] []"

section \<open>Runs\<close>

datatype dop = ODecide string intent | ODeny string bool string | OObserve string

definition dstep :: "codec \<Rightarrow> 'l dengine \<Rightarrow> denv \<times> dop \<Rightarrow> ddecision \<times> 'l dengine" where
  "dstep c e p = (case p of (env, q) \<Rightarrow>
     (case q of
        ODecide token i \<Rightarrow> Decide c env e token i
      | ODeny rule un token \<Rightarrow> RecordDeny c env e rule un token
      | OObserve rule \<Rightarrow> RecordObserved c env e rule))"

fun druns :: "codec \<Rightarrow> 'l dengine \<Rightarrow> (denv \<times> dop) list \<Rightarrow> ddecision list \<times> 'l dengine" where
  "druns c e [] = ([], e)"
| "druns c e (p # ps) =
     (let (d, e1) = dstep c e p; (ds, e2) = druns c e1 ps in (d # ds, e2))"

section \<open>Facts about the decision path\<close>

lemma dfinish_engine: "dfinish c env e dec cls rule th dg = (d, e1) \<Longrightarrow> dg_cfg e1 = dg_cfg e \<and> dg_replay e1 = dg_replay e"
  by (auto simp: dfinish_def split: sum.split_asm prod.split_asm)

lemma dfinish_permit: "dfinish c env e dec cls rule th dg = (d, e1) \<Longrightarrow> dd_permit d \<Longrightarrow> dec = DecisionPermit"
  by (auto simp: dfinish_def failed_decision_def zero_decision_def split: sum.split_asm prod.split_asm)

lemma dfinish_deny: "\<not> dd_permit (fst (dfinish c env e DecisionDeny cls rule th dg))"
  by (auto simp: dfinish_def failed_decision_def zero_decision_def receipt_names split: sum.split prod.split)

lemma replayCheck_cfg: "replayCheck t e j = (r, e1) \<Longrightarrow> dg_cfg e1 = dg_cfg e \<and> dg_log e1 = dg_log e"
  by (auto simp: replayCheck_def Let_def split: if_split_asm)

lemma Decide_permit:
  assumes "Decide c env e token i = (d, e1)" "dd_permit d"
  obtains claims expF e0 where "token \<noteq> []" "the (dn_Verify (dg_cfg e)) (dv_verify env) token = Inr claims"
    "claimStr claims ''jti'' \<noteq> []" "claimStr claims ''aud'' = dn_Audience (dg_cfg e)" "float_claim claims ''exp'' = Some expF"
    "time_Until (dv_ttl env) (time_Unix (float_to_int (jc_oob c) expF)) \<le> dn_MaxTokenTTL (dg_cfg e)"
    "replayCheck (dv_replay env) e (claimStr claims ''jti'') = (replayFresh, e0)"
    "Match c (BoundDigestFromClaims claims) i = Inr ()"
    "dfinish c env e0 DecisionPermit ClassOK ''authorize.ok'' (TokenHash c token) (BoundDigestFromClaims claims) = (d, e1)"
proof -
  have nd: "\<not> (dfinish c env e' DecisionDeny cls rule th dg = (d, e1))" for e' cls rule th dg
    using dfinish_deny[of c env e' cls rule th dg] assms(2) by auto
  from assms(1) obtain claims where v: "token \<noteq> []" "the (dn_Verify (dg_cfg e)) (dv_verify env) token = Inr claims"
    by (auto simp: Decide_def Let_def nd split: if_split_asm sum.split_asm verify_err.split_asm)
  with assms(1) have j: "claimStr claims ''jti'' \<noteq> []" "claimStr claims ''aud'' = dn_Audience (dg_cfg e)"
    by (auto simp: Decide_def Let_def nd split: if_split_asm)
  with assms(1) v obtain f where f: "float_claim claims ''exp'' = Some f"
    "time_Until (dv_ttl env) (time_Unix (float_to_int (jc_oob c) f)) \<le> dn_MaxTokenTTL (dg_cfg e)"
    by (auto simp: Decide_def Let_def nd split: if_split_asm option.split_asm)
  obtain r e0 where r: "replayCheck (dv_replay env) e (claimStr claims ''jti'') = (r, e0)" by fastforce
  with assms(1) v j f have fr: "r = replayFresh"
    by (cases r) (auto simp: Decide_def Let_def nd)
  with assms(1) v j f r have b: "bound_and_finish c env e0 (TokenHash c token) claims i = (d, e1)"
    by (simp add: Decide_def Let_def)
  then have "Match c (BoundDigestFromClaims claims) i = Inr ()"
    "dfinish c env e0 DecisionPermit ClassOK ''authorize.ok'' (TokenHash c token) (BoundDigestFromClaims claims) = (d, e1)"
    by (auto simp: bound_and_finish_def Let_def nd split: if_split_asm)
  with that v j f r fr show thesis by blast
qed

lemma dstep_cfg: "dstep c e p = (d, e1) \<Longrightarrow> dg_cfg e1 = dg_cfg e"
  by (auto simp: dstep_def Decide_def bound_and_finish_def RecordDeny_def RecordObserved_def Let_def
      split: prod.split_asm dop.split_asm if_split_asm sum.split_asm verify_err.split_asm option.split_asm replayResult.split_asm
      dest!: dfinish_engine replayCheck_cfg)

end
