(* ===== verification/DecisionProps.thy ===== *)
theory DecisionProps
  imports Decision
begin

text \<open>
  The decision core over runs of calls (src/internal/decision/decision.go): single use of a token
  identifier, permits for valid presentations, the audit log as the history of the decisions, intent
  binding, the bound of the replay cache, and two inputs its guards do not catch.
\<close>

section \<open>Single use\<close>

lemma druns_nth:
  "druns c e ps = (ds, e') \<Longrightarrow> i < length ps \<Longrightarrow>
   \<exists>e1 e2. druns c e (take i ps) = (take i ds, e1) \<and> dstep c e1 (ps ! i) = (ds ! i, e2) \<and>
     druns c e2 (drop (Suc i) ps) = (drop (Suc i) ds, e')"
proof (induction ps arbitrary: e ds i)
  case (Cons p ps)
  obtain d e1 ds1 where s: "dstep c e p = (d, e1)" "druns c e1 ps = (ds1, e')" "ds = d # ds1"
    using Cons.prems(1) by (auto split: prod.split_asm)
  show ?case
  proof (cases i)
    case 0
    with s show ?thesis by auto
  next
    case (Suc j)
    with Cons.prems(2) have "j < length ps" by simp
    from Cons.IH[OF s(2) this] s Suc show ?thesis by auto
  qed
qed simp


lemma druns_cfg: "druns c e ps = (ds, e') \<Longrightarrow> dg_cfg e' = dg_cfg e"
  by (induction ps arbitrary: e ds) (auto split: prod.split_asm dest!: dstep_cfg)











lemma New_replay:
  "decision_New cfg l = Inr e \<Longrightarrow> dg_replay e = [] \<and> dn_MaxTokenTTL (dg_cfg e) \<le> dn_ReplayWindow (dg_cfg e) \<and>
     0 < dn_ReplayWindow (dg_cfg e) \<and> 0 < dn_ReplayCapacity (dg_cfg e) \<and> dn_Audience (dg_cfg e) \<noteq> [] \<and> dg_log e = l \<and>
     dn_Verify (dg_cfg e) = dn_Verify cfg \<and> dn_Emit (dg_cfg e) = dn_Emit cfg"
  by (auto simp: decision_New_def Let_def split: if_split_asm)



section \<open>Permitted presentations\<close>

definition live_slots :: "gotime \<Rightarrow> 'l dengine \<Rightarrow> int gomap" where
  "live_slots t e = filter (\<lambda>(k, ex). \<not> ex \<le> unix t) (dg_replay e)"

lemma replayCheck_is_fresh:
  "\<not> has_key (live_slots t e) j \<Longrightarrow> int (length (live_slots t e)) < dn_ReplayCapacity (dg_cfg e) \<Longrightarrow>
   replayCheck t e j = (replayFresh, e\<lparr>dg_replay := put j (wrap64 (unix t + go_quot (dn_ReplayWindow (dg_cfg e)) (10 ^ 9))) (live_slots t e)\<rparr>)"
  by (simp add: replayCheck_def live_slots_def Let_def)

lemma Decide_reaches_finish:
  assumes "token \<noteq> []" and "the (dn_Verify (dg_cfg e)) (dv_verify env) token = Inr claims"
    and "claimStr claims ''jti'' \<noteq> []" and "claimStr claims ''aud'' = dn_Audience (dg_cfg e)"
    and "float_claim claims ''exp'' = Some f"
    and "time_Until (dv_ttl env) (time_Unix (float_to_int (jc_oob c) f)) \<le> dn_MaxTokenTTL (dg_cfg e)"
    and "\<not> has_key (live_slots (dv_replay env) e) (claimStr claims ''jti'')"
    and "int (length (live_slots (dv_replay env) e)) < dn_ReplayCapacity (dg_cfg e)"
    and "Match c (BoundDigestFromClaims claims) i = Inr ()"
  shows "Decide c env e token i = dfinish c env (snd (replayCheck (dv_replay env) e (claimStr claims ''jti'')))
      DecisionPermit ClassOK ''authorize.ok'' (TokenHash c token) (BoundDigestFromClaims claims)"
  using assms replayCheck_is_fresh[OF assms(7,8)] by (simp add: Decide_def bound_and_finish_def Let_def)

lemma dfinish_permits:
  assumes "dn_PEP (dg_cfg e) \<noteq> []" "rule \<noteq> []" "dv_nonce env = Some nb"
    "\<forall>r. is_ok (fst (the (dn_Emit (dg_cfg e)) (dv_emit env) (dg_log e) r))"
  shows "dd_permit (fst (dfinish c env e DecisionPermit ClassOK rule th dg))"
proof -
  obtain r where r: "receipt_New c (dv_receipt env) (dv_nonce env) (dn_PEP (dg_cfg e)) DecisionPermit ClassOK rule th (dn_PolicyHash (dg_cfg e)) = Inr r"
    using assms(1-3) by (auto simp: receipt_New_def check_pairing_def)
  obtain h l1 where "the (dn_Emit (dg_cfg e)) (dv_emit env) (dg_log e)
      (r\<lparr>rc_IntentDigest := dg, rc_Jurisdiction := dn_Jurisdiction (dg_cfg e)\<rparr>) = (Inr h, l1)"
    using assms(4) by (metis is_ok_iff prod.collapse)
  with r show ?thesis by (simp add: dfinish_def)
qed

text \<open>C9: A valid presentation is permitted. On an engine the constructor accepted, a verified token with
  an identifier, the engine's audience, an expiry within the accepted lifetime and the digest of the
  actual call is permitted when its identifier holds no live slot, the live slots are fewer than the
  capacity, and the receipt can be built and emitted: no guard of the path refuses it.\<close>

theorem valid_presentation_is_permitted:
  assumes "decision_New cfg l = Inr e0" and "druns c e0 ps = (ds, e)"
    and "token \<noteq> []" and "the (dn_Verify cfg) (dv_verify env) token = Inr claims"
    and "claimStr claims ''jti'' \<noteq> []" and "claimStr claims ''aud'' = dn_Audience cfg"
    and "float_claim claims ''exp'' = Some f"
    and "time_Until (dv_ttl env) (time_Unix (float_to_int (jc_oob c) f)) \<le> dn_MaxTokenTTL cfg"
    and "\<not> has_key (live_slots (dv_replay env) e) (claimStr claims ''jti'')"
    and "int (length (live_slots (dv_replay env) e)) < dn_ReplayCapacity (dg_cfg e0)"
    and "Match c (BoundDigestFromClaims claims) i = Inr ()"
    and "dv_nonce env = Some nb" and "\<forall>r. is_ok (fst (the (dn_Emit cfg) (dv_emit env) (dg_log e) r))"
  shows "dd_permit (fst (Decide c env e token i))"
proof -
  have cfg: "dg_cfg e = dg_cfg e0" by (rule druns_cfg[OF assms(2)])
  have n: "dn_Verify (dg_cfg e0) = dn_Verify cfg" "dn_Audience (dg_cfg e0) = dn_Audience cfg" "dn_Emit (dg_cfg e0) = dn_Emit cfg"
    "dn_MaxTokenTTL (dg_cfg e0) = dn_MaxTokenTTL cfg" "dn_PEP (dg_cfg e0) = dn_PEP cfg" "dn_PEP cfg \<noteq> []"
    using assms(1) by (auto simp: decision_New_def Let_def split: if_split_asm)
  obtain r e1 where rc: "replayCheck (dv_replay env) e (claimStr claims ''jti'') = (r, e1)" by fastforce
  note c1 = replayCheck_cfg[OF rc]
  have "Decide c env e token i = dfinish c env e1 DecisionPermit ClassOK ''authorize.ok'' (TokenHash c token) (BoundDigestFromClaims claims)"
    using Decide_reaches_finish[of token e env claims f c i] assms cfg n rc by simp
  moreover have "dd_permit (fst (dfinish c env e1 DecisionPermit ClassOK ''authorize.ok'' (TokenHash c token) (BoundDigestFromClaims claims)))"
    using assms(12,13) cfg n c1 by (intro dfinish_permits) auto
  ultimately show ?thesis by simp
qed

section \<open>A sample engine\<close>

text \<open>The emitter of the sample keeps the receipts in a list.\<close>

definition dcs_codec :: codec where
  "dcs_codec = rcs_codec\<lparr>jc_sha256 := (\<lambda>b. take 32 (b @ replicate 32 CHR ''.''))\<rparr>"

definition dcs_intent :: intent where
  "dcs_intent = \<lparr>it_Tool = ''pay'', it_Params = [], it_Target = ''srv''\<rparr>"

definition dcs_bound :: string where
  "dcs_bound = (case Digest dcs_codec dcs_intent of Inr b \<Rightarrow> b | Inl _ \<Rightarrow> [])"

definition dcs_claims :: "int \<Rightarrow> claims" where
  "dcs_claims x = [(''jti'', GStr ''j1''), (''aud'', GStr ''dom''), (''exp'', GFloat64 (Fin (of_int x))), (intent_Claim, GStr dcs_bound)]"

definition dcs_verify :: "int \<Rightarrow> verifier" where
  "dcs_verify x t tok = (if tok = ''tok'' \<and> unix t < x then Inr (dcs_claims x) else Inl VViolation)"

definition dcs_emit :: "emit_env \<Rightarrow> receipt list \<Rightarrow> receipt \<Rightarrow> (receipt_err + string) \<times> receipt list" where
  "dcs_emit env l r = (Inr ''h'', l @ [r])"

definition dcs_cfg :: "int \<Rightarrow> int \<Rightarrow> int \<Rightarrow> receipt list dconfig" where
  "dcs_cfg x ttl win = \<lparr>dn_PEP = ''pep'', dn_PolicyHash = ''h'', dn_Jurisdiction = ''eu'', dn_Verify = Some (dcs_verify x), dn_Emit = Some dcs_emit,
     dn_Audience = ''dom'', dn_MaxTokenTTL = ttl, dn_ReplayWindow = win, dn_ReplayCapacity = 2\<rparr>"

definition dcs_engine :: "int \<Rightarrow> int \<Rightarrow> int \<Rightarrow> receipt list dengine" where
  "dcs_engine x ttl win = \<lparr>dg_cfg = dcs_cfg x ttl win, dg_replay = [], dg_log = []\<rparr>"

definition dcs_env :: "gotime \<Rightarrow> gotime \<Rightarrow> denv" where
  "dcs_env t r = \<lparr>dv_verify = t, dv_ttl = t, dv_replay = r, dv_receipt = r, dv_nonce = Some ''n'', dv_emit = \<lparr>em_now = r, em_io = IoOk\<rparr>\<rparr>"

lemma dcs_new: "0 < ttl \<Longrightarrow> ttl \<le> win \<Longrightarrow> decision_New (dcs_cfg x ttl win) [] = Inr (dcs_engine x ttl win)"
  by (simp add: decision_New_def dcs_cfg_def dcs_engine_def)

lemma dcs_preimage: "\<exists>p. intent_preimage dcs_intent = Inr p \<and> dcs_bound = take 32 (p @ replicate 32 CHR ''.'')"
proof -
  have d: "\<not> MaxDepth < 0" "\<not> MaxDepth < Suc 0" by (simp_all add: MaxDepth_def)
  have s: "checkString k = Inr ()" if "k \<in> {''tool'', ''params'', ''target'', ''pay'', ''srv''}" for k
    using that by (intro checkString_ascii) (auto simp: byte_def)
  have "canonical_at (Suc 0) (GMap [])" by (rule canonical_at_GMap) (use d in auto)
  then have "canonical_at 0 (intent_value ''pay'' (GMap []) ''srv'')"
    unfolding intent_value_def using d s by (intro canonical_at_GMap) (auto simp: wf_map_def canonical_at_simps)
  then obtain b where "Canonicalize (intent_value ''pay'' (GMap []) ''srv'') = Inr b"
    by (auto simp: canonical_at_def Canonicalize_def is_ok_iff)
  then have "intent_preimage dcs_intent = Inr (intent_domainTag @ CHR 0x00 # b)"
    by (simp add: intent_preimage_def dcs_intent_def parseParams_def)
  then show ?thesis by (simp add: dcs_bound_def Digest_def dcs_codec_def rcs_codec_def)
qed

lemma dcs_match: "Match dcs_codec (BoundDigestFromClaims (dcs_claims x)) dcs_intent = Inr ()"
proof -
  obtain p where p: "intent_preimage dcs_intent = Inr p" "dcs_bound = take 32 (p @ replicate 32 CHR ''.'')" using dcs_preimage by blast
  have "BoundDigestFromClaims (dcs_claims x) = dcs_bound"
    by (simp add: BoundDigestFromClaims_def claimStr_def str_claim_def dcs_claims_def intent_Claim_def)
  moreover have "length dcs_bound = 32" unfolding p(2) by simp
  moreover from this have "dcs_bound \<noteq> []" by auto
  ultimately show ?thesis using p by (auto simp: Match_Inr dcs_codec_def rcs_codec_def)
qed

lemma dcs_claim_eval:
  "claimStr (dcs_claims x) ''jti'' = ''j1''" "claimStr (dcs_claims x) ''aud'' = ''dom''"
  "float_claim (dcs_claims x) ''exp'' = Some (Fin (of_int x))"
  by (simp_all add: claimStr_def str_claim_def float_claim_def dcs_claims_def)

lemma dcs_float: "- (2 ^ 63) \<le> x \<Longrightarrow> x < 2 ^ 63 \<Longrightarrow> float_to_int oob (Fin (of_int x)) = x"
  by (simp add: float_to_int_def)

text \<open>One permitted presentation of the sample token.\<close>

lemma dcs_permit:
  assumes "dg_cfg e = dcs_cfg x ttl win" "unix t < x" "- (2 ^ 63) \<le> x" "x < 2 ^ 63" "time_Until t (time_Unix x) \<le> ttl"
    "live_slots r e = []"
  shows "\<exists>d l. dd_permit d \<and> dstep dcs_codec e (dcs_env t r, ODecide ''tok'' dcs_intent) =
     (d, e\<lparr>dg_replay := [(''j1'', wrap64 (unix r + go_quot win (10 ^ 9)))], dg_log := l\<rparr>)"
proof -
  let ?e1 = "e\<lparr>dg_replay := [(''j1'', wrap64 (unix r + go_quot win (10 ^ 9)))]\<rparr>"
  have rc: "replayCheck r e ''j1'' = (replayFresh, ?e1)"
    using replayCheck_is_fresh[of r e "''j1''"] assms(1,6) by (simp add: has_key_def dcs_cfg_def put_def)
  have "Decide dcs_codec (dcs_env t r) e ''tok'' dcs_intent = dfinish dcs_codec (dcs_env t r) ?e1 DecisionPermit ClassOK ''authorize.ok''
      (TokenHash dcs_codec ''tok'') (BoundDigestFromClaims (dcs_claims x))"
    using Decide_reaches_finish[of "''tok''" e "dcs_env t r" "dcs_claims x" "Fin (of_int x)" dcs_codec dcs_intent] assms rc dcs_match[of x]
    by (simp add: dcs_env_def dcs_cfg_def dcs_verify_def dcs_claim_eval dcs_float has_key_def)
  then have "dd_permit (fst (Decide dcs_codec (dcs_env t r) e ''tok'' dcs_intent)) \<and>
      (\<exists>l. snd (Decide dcs_codec (dcs_env t r) e ''tok'' dcs_intent) = ?e1\<lparr>dg_log := l\<rparr>)"
    using assms(1) by (auto simp: dfinish_def receipt_New_def check_pairing_def dcs_env_def dcs_cfg_def dcs_emit_def)
  then show ?thesis by (auto simp: dstep_def prod_eq_iff)
qed

lemma dcs_two_permits:
  assumes "unix t1 < x" "unix t2 < x" "- (2 ^ 63) \<le> x" "x < 2 ^ 63" "time_Until t1 (time_Unix x) \<le> ttl" "time_Until t2 (time_Unix x) \<le> ttl"
    "wrap64 (unix r1 + go_quot win (10 ^ 9)) \<le> unix r2"
  shows "\<exists>ds e'. druns dcs_codec (dcs_engine x ttl win)
      [(dcs_env t1 r1, ODecide ''tok'' dcs_intent), (dcs_env t2 r2, ODecide ''tok'' dcs_intent)] = (ds, e') \<and> dd_permit (ds ! 0) \<and> dd_permit (ds ! 1)"
proof -
  let ?e = "dcs_engine x ttl win"
  have "dg_cfg ?e = dcs_cfg x ttl win" "live_slots r1 ?e = []" by (simp_all add: dcs_engine_def live_slots_def)
  from dcs_permit[OF this(1) assms(1,3,4,5) this(2)] obtain d l where d: "dd_permit d"
    "dstep dcs_codec ?e (dcs_env t1 r1, ODecide ''tok'' dcs_intent) =
       (d, ?e\<lparr>dg_replay := [(''j1'', wrap64 (unix r1 + go_quot win (10 ^ 9)))], dg_log := l\<rparr>)" by blast
  let ?e1 = "?e\<lparr>dg_replay := [(''j1'', wrap64 (unix r1 + go_quot win (10 ^ 9)))], dg_log := l\<rparr>"
  have "dg_cfg ?e1 = dcs_cfg x ttl win" "live_slots r2 ?e1 = []" using assms(7) by (simp_all add: dcs_engine_def live_slots_def)
  from dcs_permit[OF this(1) assms(2,3,4,6) this(2)] d show ?thesis by auto
qed


theorem valid_presentation_is_permitted_witness:
  "dd_permit (fst (Decide dcs_codec (dcs_env (5 * 10 ^ 9) (5 * 10 ^ 9)) (dcs_engine 10 (10 * 10 ^ 9) (10 * 10 ^ 9)) ''tok'' dcs_intent))"
  by (rule valid_presentation_is_permitted[where cfg = "dcs_cfg 10 (10 * 10 ^ 9) (10 * 10 ^ 9)" and ps = "[]" and claims = "dcs_claims 10"
        and f = "Fin (of_int 10)" and nb = "''n''" and l = "[]", OF dcs_new])
     (simp_all add: dcs_match dcs_claim_eval dcs_engine_def dcs_cfg_def dcs_env_def dcs_verify_def dcs_emit_def unix_def
       float_to_int_def time_Until_def time_Unix_id live_slots_def has_key_def)

section \<open>Where the guards do not reach\<close>

text \<open>C14: A replay window that is not a whole number of seconds forgets an identifier too early. The
  constructor accepts an engine whose replay window and accepted lifetime are both 1.5 seconds, but the
  window is cut to whole seconds when the slot is written: a token that expires at second 2, presented
  at 0.9 s and again at 1.0 s, is permitted both times, each time verified and replay-checked before it
  expires.\<close>

theorem subsecond_window_replays:
  "decision_New (dcs_cfg 2 1500000000 1500000000) [] = Inr (dcs_engine 2 1500000000 1500000000) \<and>
   (\<exists>ds e'. druns dcs_codec (dcs_engine 2 1500000000 1500000000)
      [(dcs_env 900000000 900000000, ODecide ''tok'' dcs_intent), (dcs_env 1000000000 1000000000, ODecide ''tok'' dcs_intent)] = (ds, e') \<and>
     dd_permit (ds ! 0) \<and> dd_permit (ds ! 1)) \<and> unix 1000000000 < 2"
proof (intro conjI)
  show "\<exists>ds e'. druns dcs_codec (dcs_engine 2 1500000000 1500000000)
      [(dcs_env 900000000 900000000, ODecide ''tok'' dcs_intent), (dcs_env 1000000000 1000000000, ODecide ''tok'' dcs_intent)] = (ds, e') \<and>
     dd_permit (ds ! 0) \<and> dd_permit (ds ! 1)"
    by (rule dcs_two_permits) (simp_all add: unix_def time_Until_def time_Unix_id go_quot_def)
qed (simp_all add: dcs_new unix_def)

text \<open>C15: An expiry near the end of the 64-bit range passes the lifetime bound. With an accepted lifetime of
  30 seconds, a verified token whose expiry is 2 to the 63 less 1024 seconds is permitted:
  \<open>time.Unix\<close> wraps such an expiry into the distant past, so its remaining lifetime reads as negative.\<close>

theorem huge_expiry_passes_lifetime_bound:
  "dd_permit (fst (Decide dcs_codec (dcs_env 5 5) (dcs_engine (2 ^ 63 - 1024) (30 * 10 ^ 9) (30 * 10 ^ 9)) ''tok'' dcs_intent)) \<and>
   30 * 10 ^ 9 < (2 ^ 63 - 1024) * 10 ^ 9 - (5 :: int)"
proof -
  let ?e = "dcs_engine (2 ^ 63 - 1024) (30 * 10 ^ 9) (30 * 10 ^ 9)"
  have "time_Until 5 (time_Unix (2 ^ 63 - 1024)) \<le> 30 * 10 ^ 9" by (simp add: time_Until_def time_Unix_def wrap64_def)
  then have "\<exists>d l. dd_permit d \<and> dstep dcs_codec ?e (dcs_env 5 5, ODecide ''tok'' dcs_intent) =
     (d, ?e\<lparr>dg_replay := [(''j1'', wrap64 (unix 5 + go_quot (30 * 10 ^ 9) (10 ^ 9)))], dg_log := l\<rparr>)"
    by (intro dcs_permit) (simp_all add: dcs_engine_def unix_def live_slots_def)
  then show ?thesis by (auto simp: dstep_def)
qed

section \<open>Evidence\<close>

lemma dstep_finish:
  "\<exists>e1 dec cls rule th dg. dstep c e p = dfinish c (fst p) e1 dec cls rule th dg \<and> dg_cfg e1 = dg_cfg e \<and> dg_log e1 = dg_log e"
proof -
  obtain env q where p: "p = (env, q)" by (cases p)
  define fin where "fin d = (\<exists>e1 dec cls rule th dg. d = dfinish c env e1 dec cls rule th dg \<and> dg_cfg e1 = dg_cfg e \<and> dg_log e1 = dg_log e)" for d
  have fin: "fin (dfinish c env e1 dec cls rule th dg)" if "dg_cfg e1 = dg_cfg e" "dg_log e1 = dg_log e" for e1 dec cls rule th dg
    using that unfolding fin_def by blast
  have "fin (Decide c env e token i)" for token i
  proof -
    have "fin (bound_and_finish c env e1 th cl i)" if "dg_cfg e1 = dg_cfg e" "dg_log e1 = dg_log e" for e1 th cl
      using fin that by (simp add: bound_and_finish_def Let_def)
    moreover have "dg_cfg e1 = dg_cfg e" "dg_log e1 = dg_log e" if "replayCheck t e j = (r, e1)" for t j r e1
      using replayCheck_cfg[OF that] by simp_all
    ultimately show ?thesis using fin[of e]
      by (auto simp: Decide_def Let_def fin split: sum.split verify_err.split option.split prod.split replayResult.split)
  qed
  moreover have "fin (RecordDeny c env e rule un token)" "fin (RecordObserved c env e rule)" for rule un token
    using fin[of e] by (simp_all add: RecordDeny_def RecordObserved_def)
  ultimately have "fin (dstep c e p)" by (cases q) (simp_all add: p dstep_def)
  then show ?thesis by (simp add: p fin_def)
qed

definition entry_view :: "entry \<Rightarrow> string \<times> string \<times> string option \<times> string option" where
  "entry_view en = (en_Type en, en_Subject en, map_of (en_Detail en) ''decision'', map_of (en_Detail en) ''rule_path'')"

definition decision_view :: "ddecision \<Rightarrow> string \<times> string \<times> string option \<times> string option" where
  "decision_view d = (EventType, dd_receiptHash d, Some (if dd_permit d then DecisionPermit else DecisionDeny), Some (dd_rule d))"

lemma AuditDetail_lookup:
  "AuditDetail c r = Inr d \<Longrightarrow> map_of d ''decision'' = Some (rc_Decision r) \<and> map_of d ''rule_path'' = Some (rc_RulePath r)"
  by (auto simp: AuditDetail_def)

lemma receipt_Hash_not_Nil:
  "\<forall>b. jc_b64enc c (jc_sha256 c b) \<noteq> [] \<Longrightarrow> receipt_Hash c r = Inr h \<Longrightarrow> h \<noteq> []"
  by (auto simp: receipt_Hash_def)

lemma dfinish_logged:
  assumes "dfinish c env e dec cls rule th dg = (d, e1)" "the (dn_Emit (dg_cfg e)) = Emit c edsign marshal key"
    "\<forall>b. jc_b64enc c (jc_sha256 c b) \<noteq> []"
  shows "dd_receiptHash d = [] \<and> \<not> dd_permit d \<and> lg_entries (dg_log e1) = lg_entries (dg_log e) \<or>
    dd_receiptHash d \<noteq> [] \<and> (\<exists>en. lg_entries (dg_log e1) = lg_entries (dg_log e) @ [en] \<and> entry_view en = decision_view d)"
proof (cases "receipt_New c (dv_receipt env) (dv_nonce env) (dn_PEP (dg_cfg e)) dec cls rule th (dn_PolicyHash (dg_cfg e))")
  case (Inl x)
  with assms(1) show ?thesis by (auto simp: dfinish_def failed_decision_def zero_decision_def)
next
  case (Inr r)
  let ?r = "r\<lparr>rc_IntentDigest := dg, rc_Jurisdiction := dn_Jurisdiction (dg_cfg e)\<rparr>"
  obtain res l1 where em: "Emit c edsign marshal key (dv_emit env) (dg_log e) ?r = (res, l1)" by fastforce
  show ?thesis
  proof (cases res)
    case (Inl x)
    with em assms(1,2) \<open>receipt_New _ _ _ _ _ _ _ _ _ = Inr r\<close> Emit_fail[of c edsign marshal key "dv_emit env" "dg_log e" ?r x l1] show ?thesis
      by (auto simp: dfinish_def failed_decision_def zero_decision_def)
  next
    case (Inr h)
    from Emit_ok[OF em[unfolded Inr]] obtain sig dt where k: "receipt_Hash c (?r\<lparr>rc_Sig := sig\<rparr>) = Inr h"
      "AuditDetail c (?r\<lparr>rc_Sig := sig\<rparr>) = Inr dt"
      "lg_entries l1 = lg_entries (dg_log e) @ [new_entry (jc_sha256 c) (em_now (dv_emit env)) (dg_log e) EventType h dt]" by blast
    have d: "d = \<lparr>dd_permit = (dec = DecisionPermit), dd_class = cls, dd_rule = rule, dd_receiptHash = h\<rparr>" "dg_log e1 = l1"
      using assms(1,2) em Inr \<open>receipt_New _ _ _ _ _ _ _ _ _ = Inr r\<close> by (auto simp: dfinish_def)
    from \<open>receipt_New _ _ _ _ _ _ _ _ _ = Inr r\<close> have r: "rc_Decision r = dec" "rc_RulePath r = rule" "check_pairing dec cls = Inr ()"
      by (auto simp: receipt_New_Inr)
    from r(3) have "dec \<noteq> DecisionPermit \<Longrightarrow> dec = DecisionDeny" by (auto simp: check_pairing_iff)
    with AuditDetail_lookup[OF k(2)] r d(1)
    have "entry_view (new_entry (jc_sha256 c) (em_now (dv_emit env)) (dg_log e) EventType h dt) = decision_view d"
      by (auto simp: entry_view_def decision_view_def new_entry_def Let_def)
    with k d receipt_Hash_not_Nil[OF assms(3) k(1)] show ?thesis by auto
  qed
qed

lemma druns_logged:
  assumes "druns c e ps = (ds, e')" "the (dn_Emit (dg_cfg e)) = Emit c edsign marshal key" "\<forall>b. jc_b64enc c (jc_sha256 c b) \<noteq> []"
  shows "\<exists>es. lg_entries (dg_log e') = lg_entries (dg_log e) @ es \<and>
     map entry_view es = map decision_view (filter (\<lambda>d. dd_receiptHash d \<noteq> []) ds) \<and> (\<forall>d \<in> set ds. dd_permit d \<longrightarrow> dd_receiptHash d \<noteq> [])"
  using assms
proof (induction ps arbitrary: e ds)
  case (Cons p ps)
  obtain d e1 ds1 where s: "dstep c e p = (d, e1)" "druns c e1 ps = (ds1, e')" "ds = d # ds1"
    using Cons.prems(1) by (auto split: prod.split_asm)
  obtain e0 dec cls rule th dg where f: "dfinish c (fst p) e0 dec cls rule th dg = (d, e1)" "dg_cfg e0 = dg_cfg e" "dg_log e0 = dg_log e"
    using dstep_finish[of c e p] s(1) by metis
  from dstep_cfg[OF s(1)] Cons.prems(2) have "the (dn_Emit (dg_cfg e1)) = Emit c edsign marshal key" by simp
  from Cons.IH[OF s(2) this Cons.prems(3)] obtain es where es: "lg_entries (dg_log e') = lg_entries (dg_log e1) @ es"
    "map entry_view es = map decision_view (filter (\<lambda>d. dd_receiptHash d \<noteq> []) ds1)" "\<forall>d \<in> set ds1. dd_permit d \<longrightarrow> dd_receiptHash d \<noteq> []"
    by blast
  from dfinish_logged[OF f(1) _ Cons.prems(3), of edsign marshal key] f(2,3) Cons.prems(2)
  consider "dd_receiptHash d = []" "\<not> dd_permit d" "lg_entries (dg_log e1) = lg_entries (dg_log e)"
    | en where "dd_receiptHash d \<noteq> []" "lg_entries (dg_log e1) = lg_entries (dg_log e) @ [en]" "entry_view en = decision_view d" by auto
  then show ?case
  proof cases
    case 1
    with es s(3) show ?thesis by auto
  next
    case 2
    with es s(3) show ?thesis by (intro exI[of _ "en # es"]) auto
  qed
qed simp

text \<open>C7: The audit log is the history of the decisions. With the log emitter, whatever a run of decisions,
  recorded denials and observations returns, the entries it added to the audit log are, in order, the
  entries of exactly the decisions that carry a receipt hash, each with that hash as its subject and
  with its verdict and rule; and every permit carries one: nothing is permitted that the log does not
  show.\<close>

theorem audit_log_is_decision_history:
  assumes "dn_Emit cfg = Some (Emit c edsign marshal key)" and "decision_New cfg l = Inr e" and "druns c e ps = (ds, e')"
    and "\<forall>b. jc_b64enc c (jc_sha256 c b) \<noteq> []"
  shows "\<exists>es. lg_entries (dg_log e') = lg_entries l @ es \<and>
     map entry_view es = map decision_view (filter (\<lambda>d. dd_receiptHash d \<noteq> []) ds) \<and> (\<forall>d \<in> set ds. dd_permit d \<longrightarrow> dd_receiptHash d \<noteq> [])"
  using druns_logged[OF assms(3) _ assms(4)] New_replay[OF assms(2)] assms(1) by simp

text \<open>C6: A permitted call is the action the token was minted for. In any run, a permitted presentation was
  verified for this engine's audience, and if its token carries the digest of a declared action then the
  actual call has the same tool, the same target and the same parameters, unless the two hashed texts
  are a SHA-256 collision.\<close>

theorem permitted_call_is_declared_action:
  assumes "decision_New cfg l = Inr e0" and "druns c e0 ps = (ds, e')" and "n < length ps"
    and "ps ! n = (env, ODecide tok actual)" and "dd_permit (ds ! n)"
    and "\<forall>b. jc_b64dec c (jc_b64enc c b) = Some b"
    and "\<forall>p q. intent_preimage declared = Inr p \<longrightarrow> intent_preimage actual = Inr q \<longrightarrow> jc_sha256 c p = jc_sha256 c q \<longrightarrow> p = q"
  shows "\<exists>cl. the (dn_Verify cfg) (dv_verify env) tok = Inr cl \<and> claimStr cl ''aud'' = dn_Audience (dg_cfg e0) \<and>
     (Digest c declared = Inr (BoundDigestFromClaims cl) \<longrightarrow> same_action declared actual)"
proof -
  from druns_nth[OF assms(2,3)] obtain e1 e2 where r: "druns c e0 (take n ps) = (take n ds, e1)" "dstep c e1 (ps ! n) = (ds ! n, e2)" by blast
  have cfg: "dg_cfg e1 = dg_cfg e0" by (rule druns_cfg[OF r(1)])
  from r(2) assms(4) have "Decide c env e1 tok actual = (ds ! n, e2)" by (simp add: dstep_def)
  from Decide_permit[OF this assms(5)] obtain cl where cl: "the (dn_Verify (dg_cfg e1)) (dv_verify env) tok = Inr cl"
    "claimStr cl ''aud'' = dn_Audience (dg_cfg e1)" "Match c (BoundDigestFromClaims cl) actual = Inr ()" by metis
  then show ?thesis using New_replay[OF assms(1)] cfg matched_intent_is_declared_action[OF _ cl(3) assms(6,7)] by auto
qed






theorem permitted_call_is_declared_action_witness:
  "same_action dcs_intent dcs_intent \<and> dd_permit (fst (dstep dcs_codec (dcs_engine 10 (10 * 10 ^ 9) (10 * 10 ^ 9)) (dcs_env 5 5, ODecide ''tok'' dcs_intent)))"
proof -
  let ?e = "dcs_engine 10 (10 * 10 ^ 9) (10 * 10 ^ 9)" and ?p = "(dcs_env 5 5, ODecide ''tok'' dcs_intent)"
  obtain d e1 where d: "dd_permit d" "dstep dcs_codec ?e ?p = (d, e1)"
    using dcs_permit[of ?e 10 "10 * 10 ^ 9" "10 * 10 ^ 9" 5 5]
    by (auto simp: dcs_engine_def unix_def time_Until_def time_Unix_id live_slots_def)
  have r: "druns dcs_codec ?e [?p] = ([d], e1)" using d by simp
  obtain p where p: "intent_preimage dcs_intent = Inr p" using dcs_preimage by blast
  have "\<exists>cl. the (dn_Verify (dcs_cfg 10 (10 * 10 ^ 9) (10 * 10 ^ 9))) (dv_verify (dcs_env 5 5)) ''tok'' = Inr cl \<and>
      claimStr cl ''aud'' = dn_Audience (dg_cfg ?e) \<and> (Digest dcs_codec dcs_intent = Inr (BoundDigestFromClaims cl) \<longrightarrow> same_action dcs_intent dcs_intent)"
    by (rule permitted_call_is_declared_action[OF dcs_new r, of 0]) (use d p in \<open>auto simp: dcs_codec_def rcs_codec_def\<close>)
  moreover have "Digest dcs_codec dcs_intent = Inr (BoundDigestFromClaims (dcs_claims 10))"
    using p by (simp add: Digest_def BoundDigestFromClaims_def claimStr_def str_claim_def dcs_claims_def intent_Claim_def dcs_bound_def)
  ultimately have "same_action dcs_intent dcs_intent" by (auto simp: dcs_cfg_def dcs_verify_def dcs_env_def unix_def)
  with d show ?thesis by simp
qed

text \<open>The sample engine with the log emitter on an empty audit log.\<close>

definition dls_log :: auditlog where
  "dls_log = \<lparr>lg_entries = [], lg_lastHash = [], lg_nextSeq = 1, lg_file = []\<rparr>"

definition dls_cfg :: "auditlog dconfig" where
  "dls_cfg = \<lparr>dn_PEP = ''pep'', dn_PolicyHash = ''h'', dn_Jurisdiction = ''eu'', dn_Verify = Some (dcs_verify 10),
     dn_Emit = Some (Emit dcs_codec rcs_sign (\<lambda>_. ''line'') rcs_key), dn_Audience = ''dom'', dn_MaxTokenTTL = 1, dn_ReplayWindow = 1,
     dn_ReplayCapacity = 2\<rparr>"

definition dls_receipt :: receipt where
  "dls_receipt = \<lparr>rc_V = receipt_Version, rc_PEP = ''pep'', rc_Decision = DecisionDeny, rc_Class = ClassViolation, rc_RulePath = ''rpc.malformed'',
     rc_TokenHash = [], rc_PolicyHash = ''h'', rc_IntentDigest = [], rc_Jurisdiction = ''eu'', rc_TS = 0, rc_Nonce = ''n'', rc_Sig = []\<rparr>"

lemma dls_emit: "\<exists>h l. h \<noteq> [] \<and> Emit dcs_codec rcs_sign (\<lambda>_. ''line'') rcs_key \<lparr>em_now = 5, em_io = IoOk\<rparr> dls_log dls_receipt = (Inr h, l)"
proof -
  have "plain_fields dls_receipt"
    by (simp add: plain_fields_def dls_receipt_def receipt_Version_def receipt_names MaxInt_def checkString_ascii byte_def)
  then obtain b where b: "signingInput dls_receipt = Inr b" using signingInput_ok by blast
  define sg where "sg = rcs_sign rcs_key b"
  have "length sg = 64" using rcs_crypto(2) by (simp add: sg_def)
  then have sg: "sg \<noteq> []" by auto
  have s: "receipt_Sign dcs_codec rcs_sign rcs_key dls_receipt = Inr (dls_receipt\<lparr>rc_Sig := sg\<rparr>)"
    by (simp add: receipt_Sign_def rcs_key_def b sg_def dcs_codec_def rcs_codec_def)
  define h where "h = jc_b64enc dcs_codec (jc_sha256 dcs_codec (b @ CHR 0x00 # sg))"
  have h: "receipt_Hash dcs_codec (dls_receipt\<lparr>rc_Sig := sg\<rparr>) = Inr h"
    using sg b by (simp add: receipt_Hash_def h_def)
  then obtain d where d: "AuditDetail dcs_codec (dls_receipt\<lparr>rc_Sig := sg\<rparr>) = Inr d" and
    k: "map fst d = [''receipt_v'', ''receipt_hash'', ''pep'', ''decision'', ''class'', ''rule_path'', ''token_hash'', ''policy_hash'', ''jurisdiction'']"
    by (simp add: AuditDetail_def dls_receipt_def)
  have "go_lower x \<notin> set sensitiveDetailKeys" if "x \<in> set (map fst d)" for x
    using that unfolding k by (auto simp: sensitiveDetailKeys_def lower_char_def)
  then have "checkNoPII d = Inr ()" by (force simp: checkNoPII_def first_err_Inr)
  moreover have "h \<noteq> []" by (simp add: h_def dcs_codec_def rcs_codec_def)
  ultimately show ?thesis using s h d by (simp add: Emit_def Append_def Let_def)
qed

theorem audit_log_is_decision_history_witness:
  "\<exists>d en. druns dcs_codec \<lparr>dg_cfg = dls_cfg, dg_replay = [], dg_log = dls_log\<rparr> [(dcs_env 5 5, ODeny ''rpc.malformed'' False [])] =
      ([d], snd (druns dcs_codec \<lparr>dg_cfg = dls_cfg, dg_replay = [], dg_log = dls_log\<rparr> [(dcs_env 5 5, ODeny ''rpc.malformed'' False [])])) \<and>
    lg_entries (dg_log (snd (druns dcs_codec \<lparr>dg_cfg = dls_cfg, dg_replay = [], dg_log = dls_log\<rparr> [(dcs_env 5 5, ODeny ''rpc.malformed'' False [])]))) = [en] \<and>
    entry_view en = decision_view d \<and> \<not> dd_permit d"
proof -
  let ?e = "\<lparr>dg_cfg = dls_cfg, dg_replay = [], dg_log = dls_log\<rparr>" and ?ps = "[(dcs_env 5 5, ODeny ''rpc.malformed'' False [])]"
  have new: "decision_New dls_cfg dls_log = Inr ?e" by (simp add: decision_New_def dls_cfg_def)
  obtain h l where hl: "h \<noteq> []" "Emit dcs_codec rcs_sign (\<lambda>_. ''line'') rcs_key \<lparr>em_now = 5, em_io = IoOk\<rparr> dls_log dls_receipt = (Inr h, l)"
    using dls_emit by blast
  define d where "d = \<lparr>dd_permit = False, dd_class = ClassViolation, dd_rule = ''rpc.malformed'', dd_receiptHash = h\<rparr>"
  have "dstep dcs_codec ?e (hd ?ps) = (d, ?e\<lparr>dg_log := l\<rparr>)"
    using hl(2) by (simp add: dstep_def RecordDeny_def dfinish_def receipt_New_def check_pairing_def dcs_env_def dls_cfg_def
        TokenHash_def d_def receipt_names dls_receipt_def unix_def dcs_codec_def rcs_codec_def)
  then have r: "druns dcs_codec ?e ?ps = ([d], ?e\<lparr>dg_log := l\<rparr>)" by simp
  have "\<forall>b. jc_b64enc dcs_codec (jc_sha256 dcs_codec b) \<noteq> []" by (simp add: dcs_codec_def rcs_codec_def)
  from audit_log_is_decision_history[OF _ new r this, of rcs_sign "\<lambda>_. ''line''" rcs_key]
  obtain es where es: "lg_entries l = es" "map entry_view es = [decision_view d]"
    by (auto simp: dls_cfg_def dls_log_def d_def hl(1))
  then obtain en where "es = [en]" "entry_view en = decision_view d" by auto
  then show ?thesis unfolding r using es(1) by (simp add: d_def)
qed

end
