(* ===== verification/JsonRaw.thy ===== *)
theory JsonRaw
  imports Jcs "HOL-Library.Char_ord"
begin

text \<open>
  \<open>json.Unmarshal\<close> and \<open>json.Marshal\<close> as the JSON-RPC gateways use them
  (src/internal/mcppep/mcppep.go, src/internal/a2apep/a2apep.go): a document is checked in full
  before anything is decoded, a \<open>json.RawMessage\<close> is the exact text of a value, a struct member is
  found by its exact name or else without regard to case, the last of several members wins, and a
  member of the wrong type is an error that does not stop the other members from being set. On the
  way out a raw value is compacted and the characters that are special in HTML are escaped.
\<close>

section \<open>Documents with their text\<close>

datatype jtree =
    JTok jtoken bytes
  | JArr bytes "jtree list"
  | JObj bytes "(bytes \<times> bytes \<times> jtree) list"

text \<open>A member of an object is the text of its name, the name, and the value.\<close>

fun tree_raw :: "jtree \<Rightarrow> bytes" where
  "tree_raw (JTok tok raw) = raw"
| "tree_raw (JArr raw ts) = raw"
| "tree_raw (JObj raw ms) = raw"

definition maxNestingDepth :: nat where
  "maxNestingDepth = 10000"

definition consumed :: "bytes \<Rightarrow> bytes \<Rightarrow> bytes" where
  "consumed s r = take (length s - length r) s"

text \<open>The character that follows white space, and the rest.\<close>

definition next_is :: "char \<Rightarrow> bytes \<Rightarrow> bytes option" where
  "next_is c s = (case skip_ws s of [] \<Rightarrow> None | d # t \<Rightarrow> if d = c then Some t else None)"

fun parse_tree :: "nat \<Rightarrow> nat \<Rightarrow> bytes \<Rightarrow> (jtree \<times> bytes) option"
  and parse_items :: "nat \<Rightarrow> nat \<Rightarrow> bytes \<Rightarrow> (jtree list \<times> bytes) option"
  and parse_fields :: "nat \<Rightarrow> nat \<Rightarrow> bytes \<Rightarrow> ((bytes \<times> bytes \<times> jtree) list \<times> bytes) option" where
  "parse_tree 0 depth s = None"
| "parse_tree (Suc f) depth s =
     (let s0 = skip_ws s in
      case s0 of
        [] \<Rightarrow> None
      | c # t \<Rightarrow>
          if c = CHR ''['' then
            (if depth \<ge> maxNestingDepth then None
             else case next_is (CHR '']'') t of
                 Some r \<Rightarrow> Some (JArr (consumed s0 r) [], r)
               | None \<Rightarrow> map_option (\<lambda>(ts, r). (JArr (consumed s0 r) ts, r)) (parse_items f (Suc depth) t))
          else if c = CHR ''{'' then
            (if depth \<ge> maxNestingDepth then None
             else case next_is (CHR ''}'') t of
                 Some r \<Rightarrow> Some (JObj (consumed s0 r) [], r)
               | None \<Rightarrow> map_option (\<lambda>(ms, r). (JObj (consumed s0 r) ms, r)) (parse_fields f (Suc depth) t))
          else map_option (\<lambda>(tok, r). (JTok tok (consumed s0 r), r)) (scan_scalar s0))"
| "parse_items 0 depth s = None"
| "parse_items (Suc f) depth s =
     (case parse_tree f depth s of
        None \<Rightarrow> None
      | Some (v, r) \<Rightarrow>
          (case next_is (CHR '','') r of
             Some r1 \<Rightarrow> map_option (\<lambda>(vs, r2). (v # vs, r2)) (parse_items f depth r1)
           | None \<Rightarrow> map_option (\<lambda>r1. ([v], r1)) (next_is (CHR '']'') r)))"
| "parse_fields 0 depth s = None"
| "parse_fields (Suc f) depth s =
     (let s0 = skip_ws s in
      if s0 = [] \<or> hd s0 \<noteq> quote then None
      else case scan_string (tl s0) of
          None \<Rightarrow> None
        | Some (k, r0) \<Rightarrow>
            (case next_is (CHR '':'') r0 of
               None \<Rightarrow> None
             | Some r \<Rightarrow>
                 (case parse_tree f depth r of
                    None \<Rightarrow> None
                  | Some (v, r1) \<Rightarrow>
                      (case next_is (CHR '','') r1 of
                         Some r2 \<Rightarrow> map_option (\<lambda>(ms, r3). ((consumed s0 r0, k, v) # ms, r3)) (parse_fields f depth r2)
                       | None \<Rightarrow> map_option (\<lambda>r2. ([(consumed s0 r0, k, v)], r2)) (next_is (CHR ''}'') r1)))))"

definition parse_json :: "bytes \<Rightarrow> jtree option" where
  "parse_json raw =
     (case parse_tree (2 * length raw + 2) 0 raw of
        Some (t, r) \<Rightarrow> if skip_ws r = [] then Some t else None
      | None \<Rightarrow> None)"

section \<open>Decoding into Go values\<close>

text \<open>The member of a struct a name selects. A rune outside ASCII folds to an ASCII letter only from the
  Kelvin sign and the long s, and the names of the structs are ASCII.\<close>

definition fold_rune :: "nat \<Rightarrow> nat" where
  "fold_rune r = (if 97 \<le> r \<and> r \<le> 122 then r - 32 else if r = 0x212A then 0x4B else if r = 0x17F then 0x53 else r)"

definition foldName :: "bytes \<Rightarrow> nat list" where
  "foldName s = map fold_rune (runes s)"

definition struct_field :: "bytes list \<Rightarrow> bytes \<Rightarrow> bytes option" where
  "struct_field names key = (if key \<in> set names then Some key else find (\<lambda>n. foldName n = foldName key) names)"

text \<open>A decoding step takes the current value of a field and says whether the type fits.\<close>

definition dec_string :: "jtree \<Rightarrow> bytes \<Rightarrow> bool \<times> bytes" where
  "dec_string t cur = (case t of JTok (TStr s) _ \<Rightarrow> (True, s) | JTok TNull _ \<Rightarrow> (True, cur) | _ \<Rightarrow> (False, cur))"

definition rawmap_of :: "(bytes \<times> bytes \<times> jtree) list \<Rightarrow> bytes gomap \<Rightarrow> bytes gomap" where
  "rawmap_of ms m = fold (\<lambda>(rk, k, v). put k (tree_raw v)) ms m"

definition dec_rawmap :: "jtree \<Rightarrow> bytes gomap \<Rightarrow> bool \<times> bytes gomap" where
  "dec_rawmap t cur = (case t of JObj _ ms \<Rightarrow> (True, rawmap_of ms cur) | JTok TNull _ \<Rightarrow> (True, []) | _ \<Rightarrow> (False, cur))"

definition parse_int64 :: "string \<Rightarrow> int option" where
  "parse_int64 s =
     (let neg = (s \<noteq> [] \<and> hd s = CHR ''-''); body = (if neg then tl s else s);
          n = (if neg then - int (digits_val body) else int (digits_val body))
      in if body \<noteq> [] \<and> list_all is_digit body \<and> int64 n then Some n else None)"

definition dec_intptr :: "jtree \<Rightarrow> int option \<Rightarrow> bool \<times> int option" where
  "dec_intptr t cur = (case t of
      JTok (TNum s) _ \<Rightarrow> (case parse_int64 s of Some n \<Rightarrow> (True, Some n) | None \<Rightarrow> (False, cur))
    | JTok TNull _ \<Rightarrow> (True, None)
    | _ \<Rightarrow> (False, cur))"

text \<open>\<open>json.Unmarshal\<close> into a struct whose members \<open>step\<close> decodes, starting from its zero value.\<close>

definition Unmarshal_struct :: "(bytes \<Rightarrow> jtree \<Rightarrow> 's \<Rightarrow> bool \<times> 's) \<Rightarrow> 's \<Rightarrow> bytes \<Rightarrow> bool \<times> 's" where
  "Unmarshal_struct step z raw = (case parse_json raw of
      None \<Rightarrow> (False, z)
    | Some (JObj _ ms) \<Rightarrow> fold (\<lambda>(rk, k, v) (ok, s). let (b, s1) = step k v s in (ok \<and> b, s1)) ms (True, z)
    | Some (JTok TNull _) \<Rightarrow> (True, z)
    | Some _ \<Rightarrow> (False, z))"

definition Unmarshal_rawmap :: "bytes \<Rightarrow> bytes gomap option" where
  "Unmarshal_rawmap raw = (case parse_json raw of
      None \<Rightarrow> None
    | Some t \<Rightarrow> (let (ok, m) = dec_rawmap t [] in if ok then Some m else None))"

definition Unmarshal_string :: "bytes \<Rightarrow> bytes option" where
  "Unmarshal_string raw = (case parse_json raw of
      None \<Rightarrow> None
    | Some t \<Rightarrow> (let (ok, s) = dec_string t [] in if ok then Some s else None))"

section \<open>Encoding\<close>

text \<open>A string literal as \<open>json.Marshal\<close> writes it.\<close>

definition go_esc :: "nat \<Rightarrow> bytes" where
  "go_esc r =
     (if r = 0x22 then [backslash, quote]
      else if r = 0x5C then [backslash, backslash]
      else if r = 0x08 then [backslash, CHR ''b'']
      else if r = 0x0C then [backslash, CHR ''f'']
      else if r = 0x0A then [backslash, CHR ''n'']
      else if r = 0x0D then [backslash, CHR ''r'']
      else if r = 0x09 then [backslash, CHR ''t'']
      else if r < 0x20 \<or> r = 0x3C \<or> r = 0x3E \<or> r = 0x26 then
        [backslash, CHR ''u'', CHR ''0'', CHR ''0'', hex_digit (r div 16), hex_digit (r mod 16)]
      else if r = 0x2028 \<or> r = 0x2029 then
        [backslash, CHR ''u'', CHR ''2'', CHR ''0'', CHR ''2'', hex_digit (r mod 16)]
      else EncodeRune r)"

definition go_unit :: "bytes \<Rightarrow> (bytes \<times> bytes) option" where
  "go_unit s = (case s of
      [] \<Rightarrow> None
    | c # t \<Rightarrow> Some (if DecodeRune s = (RuneError, 1) then backslash # ''ufffd'' else go_esc (fst (DecodeRune s)),
                    drop (snd (DecodeRune s)) s))"

lemma go_unit_length: "go_unit s = Some (e, u) \<Longrightarrow> length u < length s"
  using drop_DecodeRune_lt[of s] by (auto simp: go_unit_def split: list.split_asm)

function go_body :: "bytes \<Rightarrow> bytes" where
  "go_body s = (case go_unit s of None \<Rightarrow> [] | Some (e, u) \<Rightarrow> e @ go_body u)"
  by pat_completeness auto
termination
  by (relation "measure length") (auto dest: go_unit_length)

declare go_body.simps [simp del]

definition Marshal_string :: "bytes \<Rightarrow> bytes" where
  "Marshal_string s = quote # go_body s @ [quote]"

text \<open>\<open>compact\<close> with HTML escaping: white space between tokens goes, and inside a literal three ASCII
  characters and two line separators become escapes.\<close>

definition line_sep :: "bytes \<Rightarrow> bool" where
  "line_sep s = (length s \<ge> 3 \<and> byte (s ! 0) = 0xE2 \<and> byte (s ! 1) = 0x80 \<and> (byte (s ! 2) = 0xA8 \<or> byte (s ! 2) = 0xA9))"

fun html_raw :: "bytes \<Rightarrow> bytes" where
  "html_raw [] = []"
| "html_raw (c # s) =
     (if byte c = 0x3C \<or> byte c = 0x3E \<or> byte c = 0x26
      then [backslash, CHR ''u'', CHR ''0'', CHR ''0'', hex_digit (byte c div 16), hex_digit (byte c mod 16)] @ html_raw s
      else if line_sep (c # s)
      then [backslash, CHR ''u'', CHR ''2'', CHR ''0'', CHR ''2'', hex_digit (byte (s ! 1) mod 16)] @ html_raw (drop 2 s)
      else c # html_raw s)"

fun compact :: "jtree \<Rightarrow> bytes" where
  "compact (JTok tok raw) = html_raw raw"
| "compact (JArr raw ts) = CHR ''['' # comma_join (map compact ts) @ '']''"
| "compact (JObj raw ms) = CHR ''{'' # comma_join (map (\<lambda>(rk, k, v). html_raw rk @ CHR '':'' # compact v) ms) @ ''}''"

definition Marshal_raw :: "bytes \<Rightarrow> bytes option" where
  "Marshal_raw raw = (if raw = [] then Some ''null'' else map_option compact (parse_json raw))"

definition byte_sorted :: "'v gomap \<Rightarrow> 'v gomap" where
  "byte_sorted m = sort_key fst m"

definition Marshal_members :: "(bytes \<times> bytes option) list \<Rightarrow> bytes option" where
  "Marshal_members ms =
     (if list_ex (\<lambda>(k, v). v = None) ms then None
      else Some (CHR ''{'' # comma_join (map (\<lambda>(k, v). Marshal_string k @ CHR '':'' # the v) ms) @ ''}''))"

definition Marshal_rawmap :: "bytes gomap \<Rightarrow> bytes option" where
  "Marshal_rawmap m = Marshal_members (map (\<lambda>(k, v). (k, Marshal_raw v)) (byte_sorted m))"

section \<open>The reader always has enough steps\<close>

lemma next_is_length: "next_is c s = Some t \<Longrightarrow> length t < length s"
  using skip_ws_length[of s] by (auto simp: next_is_def split: list.split_asm if_split_asm)

lemma parse_lengths:
  "parse_tree f d s = Some (t, r) \<Longrightarrow> length r < length s"
  "parse_items f d s = Some (ts, r) \<Longrightarrow> length r < length s"
  "parse_fields f d s = Some (ms, r) \<Longrightarrow> length r < length s"
proof (induction f d s and f d s and f d s arbitrary: t r and ts r and ms r rule: parse_tree_parse_items_parse_fields.induct)
  case (2 f d s)
  show ?case
  proof (cases "skip_ws s")
    case (Cons c u)
    note l = skip_ws_Cons_length[OF Cons] skip_ws_length[of s]
    from 2 Cons l show ?thesis
      by (fastforce simp: Let_def split: if_split_asm option.split_asm dest: next_is_length scan_scalar_length)
  qed (use 2 in \<open>simp add: Let_def\<close>)
next
  case (4 f d s)
  then show ?case by (fastforce split: option.split_asm dest: next_is_length)
next
  case (6 f d s)
  show ?case
  proof (cases "skip_ws s")
    case (Cons c u)
    note l = skip_ws_Cons_length[OF Cons]
    with 6 Cons show ?thesis
      by (fastforce simp: Let_def split: if_split_asm option.split_asm dest: next_is_length scan_string_length)
  qed (use 6 in \<open>simp add: Let_def\<close>)
qed simp_all

lemma parse_fuel_irrelevant:
  "2 * length s + 1 \<le> f \<Longrightarrow> 2 * length s + 1 \<le> g \<Longrightarrow> parse_tree f d s = parse_tree g d s"
  "2 * length s + 2 \<le> f \<Longrightarrow> 2 * length s + 2 \<le> g \<Longrightarrow> parse_items f d s = parse_items g d s"
  "2 * length s + 2 \<le> f \<Longrightarrow> 2 * length s + 2 \<le> g \<Longrightarrow> parse_fields f d s = parse_fields g d s"
proof (induction f d s and f d s and f d s arbitrary: g and g and g rule: parse_tree_parse_items_parse_fields.induct)
  case (2 f d s)
  from 2(4) obtain h where g: "g = Suc h" by (cases g) simp_all
  show ?case
  proof (cases "skip_ws s")
    case (Cons c u)
    note l = skip_ws_Cons_length[OF Cons]
    have i: "parse_items f (Suc d) u = parse_items h (Suc d) u" if "c = CHR ''[''" "\<not> maxNestingDepth \<le> d" "next_is (CHR '']'') u = None"
      by (rule 2(1)[OF refl Cons that]) (use l 2(3,4) g in auto)
    have m: "parse_fields f (Suc d) u = parse_fields h (Suc d) u" if "c = CHR ''{''" "\<not> maxNestingDepth \<le> d" "next_is (CHR ''}'') u = None"
      by (rule 2(2)[OF refl Cons _ that]) (use l 2(3,4) g that in auto)
    show ?thesis using i m Cons g by (auto simp: Let_def split: option.split)
  qed (simp add: g Let_def)
next
  case (4 f d s)
  from 4(4) obtain h where g: "g = Suc h" by (cases g) simp_all
  have t: "parse_tree f d s = parse_tree h d s" by (rule 4(1)) (use 4(3,4) g in auto)
  have i: "parse_items f d r1 = parse_items h d r1" if "parse_tree f d s = Some (v, r)" "next_is (CHR '','') r = Some r1" for v r r1
    by (rule 4(2)[OF that(1) refl that(2)])
       (use 4(3,4) g parse_lengths(1)[OF that(1)] next_is_length[OF that(2)] in auto)
  show ?case using t i g by (auto split: option.split)
next
  case (6 f d s)
  from 6(4) obtain h where g: "g = Suc h" by (cases g) simp_all
  show ?case
  proof (cases "skip_ws s = [] \<or> hd (skip_ws s) \<noteq> quote")
    case False
    have "length (tl (skip_ws s)) < length s" using skip_ws_length[of s] False by (cases "skip_ws s") auto
    note l = this
    have t: "parse_tree f d r = parse_tree h d r"
      if "scan_string (tl (skip_ws s)) = Some (k, r0)" "next_is (CHR '':'') r0 = Some r" for k r0 r
      by (rule 6(1)[OF refl False that(1) refl that(2)])
         (use 6(3,4) g l scan_string_length[OF that(1)] next_is_length[OF that(2)] in auto)
    have m: "parse_fields f d r2 = parse_fields h d r2"
      if "scan_string (tl (skip_ws s)) = Some (k, r0)" "next_is (CHR '':'') r0 = Some r"
        "parse_tree f d r = Some (v, r1)" "next_is (CHR '','') r1 = Some r2" for k r0 r v r1 r2
      by (rule 6(2)[OF refl False that(1) refl that(2,3) refl that(4)])
         (use 6(3,4) g l scan_string_length[OF that(1)] next_is_length[OF that(2)] parse_lengths(1)[OF that(3)]
            next_is_length[OF that(4)] in auto)
    show ?thesis using t m g by (auto simp: Let_def split: option.split)
  qed (auto simp: g Let_def)
qed simp_all

text \<open>Reading with any larger number of steps gives the same document.\<close>

lemma parse_json_enough: "2 * length raw + 1 \<le> f \<Longrightarrow> parse_tree f 0 raw = parse_tree (2 * length raw + 2) 0 raw"
  by (rule parse_fuel_irrelevant(1)) auto

end
