(* ===== verification/JsonLiteral.thy ===== *)
theory JsonLiteral
  imports JsonRaw
begin

text \<open>
  Literals under compaction and HTML escaping: the escaped text of a string, number or keyword is read
  as the same token, also where a string holds ill-formed bytes or unpaired surrogates, and a name
  written by \<open>json.Marshal\<close> is read back as itself.
\<close>

section \<open>String literals under HTML escaping\<close>

definition special :: "char \<Rightarrow> bool" where
  "special c = (byte c = 0x3C \<or> byte c = 0x3E \<or> byte c = 0x26)"

lemma line_sep_hd: "line_sep s \<Longrightarrow> s \<noteq> [] \<and> byte (hd s) = 0xE2"
  by (cases s) (auto simp: line_sep_def)

lemma html_raw_copy: "\<not> special c \<Longrightarrow> \<not> line_sep (c # s) \<Longrightarrow> html_raw (c # s) = c # html_raw s"
  by (simp add: special_def)

lemma html_raw_special:
  "special c \<Longrightarrow> html_raw (c # s) = [backslash, CHR ''u'', CHR ''0'', CHR ''0'', hex_digit (byte c div 16), hex_digit (byte c mod 16)] @ html_raw s"
  by (auto simp: special_def)

lemma html_raw_sep:
  "line_sep (c # s) \<Longrightarrow> html_raw (c # s) = [backslash, CHR ''u'', CHR ''2'', CHR ''0'', CHR ''2'', hex_digit (byte (s ! 1) mod 16)] @ html_raw (drop 2 s)"
  using line_sep_hd[of "c # s"] by simp

declare html_raw.simps(2) [simp del]

lemma html_raw_plain: "\<forall>c \<in> set a. byte c \<noteq> 0xE2 \<and> \<not> special c \<Longrightarrow> html_raw (a @ s) = a @ html_raw s"
proof (induction a)
  case (Cons c a)
  then have "\<not> line_sep (c # a @ s)" using line_sep_hd[of "c # a @ s"] by auto
  with Cons show ?case by (simp add: html_raw_copy)
qed simp

text \<open>A character of the escaped text that is not a backslash was copied.\<close>

lemma html_raw_hd:
  assumes "html_raw b @ r' = x # z" "x \<noteq> backslash" "b \<noteq> []"
  shows "\<exists>b'. b = x # b' \<and> z = html_raw b' @ r'"
proof -
  obtain c b' where b: "b = c # b'" using assms(3) by (cases b) auto
  have "\<not> special c" "\<not> line_sep (c # b')"
    using assms(1,2) html_raw_special[of c b'] html_raw_sep[of c b'] by (auto simp: b)
  with assms(1) b show ?thesis by (simp add: html_raw_copy)
qed

lemma html_raw_prefix:
  assumes "html_raw b @ r' = p @ z" "\<forall>x \<in> set p. x \<noteq> backslash \<and> x \<noteq> quote" "quote \<in> set b"
  shows "\<exists>b'. b = p @ b' \<and> z = html_raw b' @ r' \<and> quote \<in> set b'"
  using assms
proof (induction p arbitrary: b)
  case (Cons x p)
  then obtain b' where b: "b = x # b'" "p @ z = html_raw b' @ r'"
    using html_raw_hd[of b r' x "p @ z"] by (cases b) auto
  with Cons.prems have "quote \<in> set b'" by auto
  with Cons.IH[of b'] Cons.prems(2) b show ?case by auto
qed simp

lemma hex_val_not: "hex_val backslash = None" "hex_val quote = None"
  by (simp_all add: hex_val_def)

lemma getu4_html:
  assumes "getu4 (html_raw b @ r') = Some (v, t)" "quote \<in> set b"
  shows "\<exists>b'. getu4 (b @ r) = Some (v, b' @ r) \<and> t = html_raw b' @ r' \<and> quote \<in> set b'"
proof -
  obtain w x y z where g: "html_raw b @ r' = [w, x, y, z] @ t"
    and h: "hex_val w \<noteq> None" "hex_val x \<noteq> None" "hex_val y \<noteq> None" "hex_val z \<noteq> None"
    using assms(1) by (auto simp: getu4_def split: list.split_asm option.split_asm)
  then have "\<forall>u \<in> set [w, x, y, z]. u \<noteq> backslash \<and> u \<noteq> quote" using hex_val_not by auto
  from html_raw_prefix[OF g this assms(2)] obtain b' where b: "b = [w, x, y, z] @ b'" "t = html_raw b' @ r'" "quote \<in> set b'" by blast
  with assms(1) g show ?thesis by (auto simp: getu4_def split: option.split_asm)
qed

lemma special_code: "special c \<Longrightarrow> byte c \<in> {0x3C, 0x3E, 0x26}"
  by (auto simp: special_def)

lemma getu4_sep: "x < 16 \<Longrightarrow> getu4 (CHR ''2'' # CHR ''0'' # CHR ''2'' # hex_digit x # t) = Some (0x2020 + x, t)"
proof -
  assume x: "x < 16"
  have "hex_val (CHR ''2'') = Some 2" "hex_val (CHR ''0'') = Some 0" by (simp_all add: hex_val_def)
  moreover have "hex_val (hex_digit x) = Some x" using x by simp
  ultimately show ?thesis by (simp add: getu4_def)
qed

lemma low_surrogate_html:
  assumes "low_surrogate (b @ r) = None" "quote \<in> set b"
  shows "low_surrogate (html_raw b @ r') = None"
proof (rule ccontr)
  assume "low_surrogate (html_raw b @ r') \<noteq> None"
  then obtain t v t1 where l: "html_raw b @ r' = backslash # CHR ''u'' # t" "getu4 t = Some (v, t1)" "0xDC00 \<le> v" "v < 0xE000"
    by (auto simp: low_surrogate_def split: list.split_asm if_split_asm option.split_asm)
  obtain c b1 where b: "b = c # b1" using assms(2) by (cases b) auto
  show False
  proof (cases "special c \<or> line_sep (c # b1)")
    case True
    then show False
    proof
      assume "special c"
      with l b have "t = CHR ''0'' # CHR ''0'' # hex_digit (byte c div 16) # hex_digit (byte c mod 16) # html_raw b1 @ r'"
        by (simp add: html_raw_special)
      with l getu4_low[of "byte c"] special_code[OF \<open>special c\<close>] show False by auto
    next
      assume "line_sep (c # b1)"
      with l b have "t = CHR ''2'' # CHR ''0'' # CHR ''2'' # hex_digit (byte (b1 ! 1) mod 16) # html_raw (drop 2 b1) @ r'"
        by (simp add: html_raw_sep)
      with l getu4_sep[of "byte (b1 ! 1) mod 16"] show False by auto
    qed
  next
    case False
    with l b have c: "c = backslash" "html_raw b1 @ r' = CHR ''u'' # t" by (auto simp: html_raw_copy)
    with b assms(2) have q: "quote \<in> set b1" by auto
    then have "b1 \<noteq> []" by auto
    from html_raw_hd[OF c(2) _ this] obtain b2 where b2: "b1 = CHR ''u'' # b2" "t = html_raw b2 @ r'" by auto
    with q have q2: "quote \<in> set b2" by simp
    from getu4_html[of b2 r' v t1 r] l(2) b2 q2 obtain b3 where "getu4 (b2 @ r) = Some (v, b3 @ r)" by auto
    with assms(1) l(3,4) b b2 c show False by (simp add: low_surrogate_def)
  qed
qed

text \<open>Whether a rune is well formed depends on the bytes that follow only as far as they are continuations.\<close>

lemma DecodeRune_local:
  assumes "DecodeRune (c # w) \<noteq> (RuneError, 1)" "0x80 \<le> byte c"
  shows "\<exists>p z. w = p @ z \<and> (\<forall>x \<in> set p. 0x80 \<le> byte x \<and> byte x \<le> 0xBF) \<and> (\<forall>z'. DecodeRune (c # p @ z') = DecodeRune (c # w)) \<and> snd (DecodeRune (c # w)) = Suc (length p)"
proof -
  consider (two) "0xC2 \<le> byte c" "byte c \<le> 0xDF" | (three) "0xE0 \<le> byte c" "byte c \<le> 0xEF" | (four) "0xF0 \<le> byte c" "byte c \<le> 0xF4"
    using assms by (auto simp: DecodeRune_def Let_def split: if_split_asm)
  then show ?thesis
  proof cases
    case two
    with assms obtain x z where "w = [x] @ z" "byte_in 0x80 0xBF x"
      by (auto simp: DecodeRune_def Let_def split: list.split_asm if_split_asm)
    with two show ?thesis by (intro exI[of _ "[x]"] exI[of _ z]) (auto simp: DecodeRune_def byte_in_def)
  next
    case three
    with assms obtain x y z where w: "w = [x, y] @ z" "lead3 (byte c) x" "byte_in 0x80 0xBF y"
      by (auto simp: DecodeRune_def Let_def split: list.split_asm if_split_asm)
    then have "byte_in 0x80 0xBF x" "byte_in 0x80 0xBF y" by (auto simp: lead3_def byte_in_def split: if_split_asm)
    with three w show ?thesis by (intro exI[of _ "[x, y]"] exI[of _ z]) (auto simp: DecodeRune_def byte_in_def)
  next
    case four
    with assms obtain x y u z where w: "w = [x, y, u] @ z" "lead4 (byte c) x" "byte_in 0x80 0xBF y" "byte_in 0x80 0xBF u"
      by (auto simp: DecodeRune_def Let_def split: list.split_asm if_split_asm)
    then have "byte_in 0x80 0xBF x" "byte_in 0x80 0xBF y" "byte_in 0x80 0xBF u" by (auto simp: lead4_def byte_in_def split: if_split_asm)
    with four w show ?thesis by (intro exI[of _ "[x, y, u]"] exI[of _ z]) (auto simp: DecodeRune_def byte_in_def)
  qed
qed

lemma byte_not: "0x80 \<le> byte x \<Longrightarrow> x \<noteq> backslash \<and> x \<noteq> quote \<and> \<not> special x"
  by (auto simp: byte_code special_def)

lemma DecodeRune_ill_formed_html:
  assumes "DecodeRune (c # b @ r) = (RuneError, 1)" "0x80 \<le> byte c" "quote \<in> set b"
  shows "DecodeRune (c # html_raw b @ r') = (RuneError, 1)"
proof (rule ccontr)
  assume n: "DecodeRune (c # html_raw b @ r') \<noteq> (RuneError, 1)"
  from DecodeRune_local[OF this assms(2)] obtain p z where p: "html_raw b @ r' = p @ z" "\<forall>x \<in> set p. 0x80 \<le> byte x \<and> byte x \<le> 0xBF"
    "\<forall>z'. DecodeRune (c # p @ z') = DecodeRune (c # html_raw b @ r')" by blast
  from html_raw_prefix[OF p(1) _ assms(3)] p(2) byte_not obtain b' where "b = p @ b'" by blast
  with p(3)[rule_format, of "b' @ r"] assms(1) n show False by simp
qed

lemma getu4_split: "getu4 s = Some (v, t) \<Longrightarrow> \<exists>h. s = h @ t \<and> (\<forall>w. getu4 (h @ w) = Some (v, w)) \<and> (\<forall>x \<in> set h. hex_val x \<noteq> None)"
  by (auto simp: getu4_def split: list.split_asm option.split_asm)

lemma hex_plain: "hex_val x \<noteq> None \<Longrightarrow> byte x \<noteq> 0xE2 \<and> \<not> special x"
  by (auto simp: hex_val_def special_def byte_def Let_def)

lemma plain_chars: "byte backslash \<noteq> 0xE2" "\<not> special backslash" "byte (CHR ''u'') \<noteq> 0xE2" "\<not> special (CHR ''u'')"
  by (simp_all add: special_def byte_def)

definition unit_html :: "bytes \<Rightarrow> bytes \<Rightarrow> bytes \<Rightarrow> bytes \<Rightarrow> bool" where
  "unit_html s e b r = (\<exists>a a'. s = a @ b @ r \<and> html_raw (a @ b) = a' @ html_raw b \<and> a' \<noteq> [] \<and> (hd s \<noteq> quote \<longrightarrow> hd a' \<noteq> quote) \<and>
     (\<forall>r'. scan_unit (a' @ html_raw b @ r') = Some (e, html_raw b @ r')))"

lemma unit_html_plain:
  assumes "s = a @ b @ r" "a \<noteq> []" "\<forall>c \<in> set a. byte c \<noteq> 0xE2 \<and> \<not> special c" "\<And>r'. scan_unit (a @ html_raw b @ r') = Some (e, html_raw b @ r')"
  shows "unit_html s e b r"
  unfolding unit_html_def using assms by (intro exI[of _ a]) (auto simp: html_raw_plain)

lemma scan_u_escape_html:
  assumes "scan_u_escape s = Some (e, b @ r)" "quote \<in> set b"
  shows "\<exists>a. s = a @ b @ r \<and> (\<forall>c \<in> set a. byte c \<noteq> 0xE2 \<and> \<not> special c) \<and> (\<forall>r'. scan_u_escape (a @ html_raw b @ r') = Some (e, html_raw b @ r'))"
proof -
  from assms(1) obtain v t where g: "getu4 s = Some (v, t)" by (auto simp: scan_u_escape_def split: option.split_asm)
  from getu4_split[OF g] obtain h where h: "s = h @ t" "\<forall>w. getu4 (h @ w) = Some (v, w)" "\<forall>x \<in> set h. hex_val x \<noteq> None" by blast
  show ?thesis
  proof (cases "0xD800 \<le> v \<and> v < 0xDC00 \<and> low_surrogate t \<noteq> None")
    case True
    then obtain v1 t1 where l: "low_surrogate t = Some (v1, t1)" by auto
    then obtain t0 where t0: "t = [backslash, CHR ''u''] @ t0" "getu4 t0 = Some (v1, t1)" "0xDC00 \<le> v1" "v1 < 0xE000"
      by (auto simp: low_surrogate_def split: list.split_asm if_split_asm option.split_asm)
    from getu4_split[OF t0(2)] obtain h1 where h1: "t0 = h1 @ t1" "\<forall>w. getu4 (h1 @ w) = Some (v1, w)" "\<forall>x \<in> set h1. hex_val x \<noteq> None" by blast
    from assms(1) g l True have e: "t1 = b @ r" "e = EncodeRune ((v - 0xD800) * 0x400 + (v1 - 0xDC00) + 0x10000)"
      by (auto simp: scan_u_escape_def)
    let ?a = "h @ [backslash, CHR ''u''] @ h1"
    have "low_surrogate ([backslash, CHR ''u''] @ h1 @ w) = Some (v1, w)" for w
      using h1(2) t0(3,4) by (simp add: low_surrogate_def)
    then have "scan_u_escape (?a @ w) = Some (e, w)" for w using h(2) e(2) True by (simp add: scan_u_escape_def)
    then show ?thesis using h h1 t0(1) e(1) hex_plain plain_chars by (intro exI[of _ ?a]) auto
  next
    case False
    then have t: "t = b @ r" using assms(1) g by (auto simp: scan_u_escape_def split: if_split_asm option.split_asm)
    have "scan_u_escape (h @ html_raw b @ r') = Some (e, html_raw b @ r')" for r'
      using assms g h(2) False low_surrogate_html[of b r r'] t by (auto simp: scan_u_escape_def split: if_split_asm option.split_asm)
    then show ?thesis using h t hex_plain by blast
  qed
qed

lemma esc_char_plain: "esc_char x \<noteq> None \<Longrightarrow> byte x \<noteq> 0xE2 \<and> \<not> special x"
  by (auto simp: esc_char_def special_def byte_def split: if_split_asm)

lemma scan_unit_escape_html:
  assumes "scan_unit (backslash # t) = Some (e, b @ r)" "quote \<in> set b"
  shows "unit_html (backslash # t) e b r"
proof -
  obtain x u where t: "t = x # u" using assms(1) by (auto simp: scan_unit_def split: list.split_asm)
  show ?thesis
  proof (cases "x = CHR ''u''")
    case True
    with assms(1) t have "scan_u_escape u = Some (e, b @ r)" by (simp add: scan_unit_def)
    from scan_u_escape_html[OF this assms(2)] obtain a where a: "u = a @ b @ r" "\<forall>c \<in> set a. byte c \<noteq> 0xE2 \<and> \<not> special c"
      "\<forall>r'. scan_u_escape (a @ html_raw b @ r') = Some (e, html_raw b @ r')" by blast
    show ?thesis
      by (rule unit_html_plain[where a = "[backslash, CHR ''u''] @ a"]) (use True a t plain_chars in \<open>auto simp: scan_unit_def\<close>)
  next
    case False
    with assms(1) t obtain y where y: "esc_char x = Some y" "e = [y]" "u = b @ r" by (auto simp: scan_unit_def split: option.split_asm)
    show ?thesis
      by (rule unit_html_plain[where a = "[backslash, x]"]) (use False y t esc_char_plain[of x] plain_chars in \<open>auto simp: scan_unit_def\<close>)
  qed
qed

lemma line_sep_append: "line_sep s \<Longrightarrow> line_sep (s @ r)"
  by (auto simp: line_sep_def nth_append)

lemma line_sep_EncodeRune:
  assumes "line_sep (c # s)"
  shows "\<exists>x y. s = x # y # drop 2 s \<and> DecodeRune (c # s) = (0x2020 + byte (s ! 1) mod 16, 3) \<and> byte (s ! 1) mod 16 < 16 \<and> 0x2020 + byte (s ! 1) mod 16 \<in> {0x2028, 0x2029}"
proof -
  obtain x y z where s: "s = x # y # z" using assms by (cases s; cases "tl s") (auto simp: line_sep_def)
  with assms have b: "byte c = 0xE2" "byte x = 0x80" "byte y = 0xA8 \<or> byte y = 0xA9" by (auto simp: line_sep_def)
  then show ?thesis using s by (auto simp: DecodeRune_def lead3_def byte_in_def)
qed

lemma scan_unit_rune_html:
  assumes u: "scan_unit (c # t) = Some (e, b @ r)" and q: "quote \<in> set b" and c: "c \<noteq> backslash"
  shows "unit_html (c # t) e b r"
proof -
  obtain rn n where d: "DecodeRune (c # t) = (rn, n)" by fastforce
  have lo: "0x20 \<le> byte c" and e: "e = EncodeRune rn" and br: "b @ r = drop n (c # t)"
    using u c d by (auto simp: scan_unit_def split: if_split_asm)
  consider (special) "special c" | (ascii) "byte c < 0x80" "\<not> special c" | (sep) "line_sep (c # t)"
    | (ill) "0x80 \<le> byte c" "\<not> line_sep (c # t)" "DecodeRune (c # t) = (RuneError, 1)"
    | (multi) "0x80 \<le> byte c" "\<not> line_sep (c # t)" "DecodeRune (c # t) \<noteq> (RuneError, 1)" by linarith
  then show ?thesis
  proof cases
    case special
    then have lt: "byte c < 0x80" by (auto simp: special_def)
    with d have "rn = byte c" "n = 1" by (auto simp: DecodeRune_def)
    with br e have t: "t = b @ r" "e = EncodeRune (byte c)" by auto
    let ?a = "[backslash, CHR ''u'', CHR ''0'', CHR ''0'', hex_digit (byte c div 16), hex_digit (byte c mod 16)]"
    have "scan_unit (?a @ w) = Some (e, w)" for w
      using t lt by (simp add: scan_unit_def scan_u_escape_def getu4_low)
    with special t show ?thesis unfolding unit_html_def
      by (intro exI[of _ "[c]"] exI[of _ ?a]) (auto simp: html_raw_special)
  next
    case ascii
    with d have "rn = byte c" "n = 1" by (auto simp: DecodeRune_def)
    with br e have t: "t = b @ r" "e = EncodeRune (byte c)" by auto
    show ?thesis
      by (rule unit_html_plain[where a = "[c]"]) (use ascii t c lo in \<open>auto simp: scan_unit_def DecodeRune_def\<close>)
  next
    case sep
    from line_sep_EncodeRune[OF sep] obtain x y where x: "t = x # y # drop 2 t" "DecodeRune (c # t) = (0x2020 + byte (t ! 1) mod 16, 3)"
      "0x2020 + byte (t ! 1) mod 16 \<in> {0x2028, 0x2029}" by blast
    with d br have "b @ r = drop 2 t" "rn = 0x2020 + byte (t ! 1) mod 16" by auto
    then have t: "t = x # y # b @ r" "rn = 0x2020 + byte y mod 16" using x(1) by (simp, metis nth_Cons_0 nth_Cons_Suc One_nat_def)
    let ?a = "[backslash, CHR ''u'', CHR ''2'', CHR ''0'', CHR ''2'', hex_digit (byte y mod 16)]"
    have "line_sep (c # x # y # b)" using sep by (simp add: t line_sep_def)
    then have h: "html_raw (c # x # y # b) = ?a @ html_raw b" by (simp add: html_raw_sep)
    have "scan_unit (?a @ w) = Some (e, w)" for w
      using e t x(3) by (auto simp: scan_unit_def scan_u_escape_def getu4_sep)
    with h t show ?thesis unfolding unit_html_def by (intro exI[of _ "[c, x, y]"] exI[of _ ?a]) auto
  next
    case ill
    with d br e have t: "t = b @ r" "e = EncodeRune RuneError" by auto
    have "\<not> line_sep (c # b)"
      using ill(2) t q by (auto simp: line_sep_def nth_append split: if_split_asm)
    moreover have "\<not> special c" using byte_not[OF ill(1)] by simp
    moreover have "scan_unit (c # html_raw b @ r') = Some (e, html_raw b @ r')" for r'
      using DecodeRune_ill_formed_html[of c b r r'] ill t q c lo by (simp add: scan_unit_def)
    ultimately show ?thesis unfolding unit_html_def using t by (intro exI[of _ "[c]"]) (auto simp: html_raw_copy)
  next
    case multi
    from DecodeRune_local[OF multi(3,1)] obtain p z where p: "t = p @ z" "\<forall>x \<in> set p. 0x80 \<le> byte x \<and> byte x \<le> 0xBF"
      "\<And>z'. DecodeRune (c # p @ z') = DecodeRune (c # t)" "n = Suc (length p)" using d by auto
    with br have z: "z = b @ r" by simp
    have "html_raw (p @ b) = p @ html_raw b" using p(2) byte_not by (intro html_raw_plain) force
    moreover have "\<not> line_sep (c # p @ b)" using multi(2) line_sep_append[of "c # p @ b" r] by (auto simp: p(1) z)
    ultimately have "html_raw (c # p @ b) = c # p @ html_raw b" using byte_not[OF multi(1)] by (simp add: html_raw_copy)
    moreover have "scan_unit (c # p @ html_raw b @ r') = Some (e, html_raw b @ r')" for r'
      using p(3)[of "html_raw b @ r'"] d p(4) c lo e by (simp add: scan_unit_def)
    ultimately show ?thesis unfolding unit_html_def using p(1) z by (intro exI[of _ "c # p"]) auto
  qed
qed

lemma scan_unit_html: "scan_unit s = Some (e, b @ r) \<Longrightarrow> quote \<in> set b \<Longrightarrow> unit_html s e b r"
  by (cases s; cases "hd s = backslash") (auto simp: scan_unit_def[of "[]"] intro: scan_unit_escape_html scan_unit_rune_html)

text \<open>The escaped text of a string literal is read as the same string.\<close>

lemma scan_string_html:
  "scan_string s = Some (x, r) \<Longrightarrow> \<exists>b. s = b @ r \<and> quote \<in> set b \<and> (\<forall>r'. scan_string (html_raw b @ r') = Some (x, r'))"
proof (induction s arbitrary: x r rule: scan_string.induct)
  case (1 s)
  show ?case
  proof (cases s)
    case (Cons c t)
    show ?thesis
    proof (cases "c = quote")
      case True
      have "html_raw [quote] = [quote]" using html_raw_plain[of "[quote]" "[]"] by (simp add: special_def byte_code)
      with 1(2) Cons True show ?thesis by (intro exI[of _ "[quote]"]) (auto simp: scan_string.simps)
    next
      case False
      with 1(2) Cons obtain e u y where u: "scan_unit s = Some (e, u)" "scan_string u = Some (y, r)" "x = e @ y"
        by (subst (asm) scan_string.simps) (auto split: option.split_asm)
      from 1(1)[OF Cons False u(1) refl u(2)] obtain b where b: "u = b @ r" "quote \<in> set b"
        "\<And>r'. scan_string (html_raw b @ r') = Some (y, r')" by blast
      from scan_unit_html[of s e b r] u b obtain a a' where a: "s = a @ b @ r" "html_raw (a @ b) = a' @ html_raw b" "a' \<noteq> []" "hd a' \<noteq> quote"
        "\<And>r'. scan_unit (a' @ html_raw b @ r') = Some (e, html_raw b @ r')" using False Cons unfolding unit_html_def by auto
      then obtain h v where h: "a' = h # v" "h \<noteq> quote" by (cases a') auto
      have "scan_string (a' @ html_raw b @ r') = Some (x, r')" for r'
        using a(5)[of r'] b(3)[of r'] h u(3) by (subst scan_string.simps) simp
      with a b(2) show ?thesis by (intro exI[of _ "a @ b"]) auto
    qed
  qed (use 1(2) in \<open>simp add: scan_string.simps\<close>)
qed
section \<open>Numbers and other literals\<close>

text \<open>What may follow a literal: nothing, white space, a separator or a closing bracket.\<close>

definition ends :: "bytes \<Rightarrow> bool" where
  "ends w = (case w of [] \<Rightarrow> True | c # _ \<Rightarrow> is_space c \<or> c \<in> {CHR '','', CHR '']'', CHR ''}''})"

lemma ends_scan: "ends w \<Longrightarrow> scan_exp w = Some ([], w)"
  by (auto simp: ends_def scan_exp_def is_space_def split: list.splits)

definition nondigit :: "bytes \<Rightarrow> bool" where
  "nondigit s = (case s of [] \<Rightarrow> True | c # _ \<Rightarrow> \<not> is_digit c)"

lemma nondigit_takeWhile: "\<forall>c \<in> set p. is_digit c \<Longrightarrow> nondigit w \<Longrightarrow> takeWhile is_digit (p @ w) = p \<and> dropWhile is_digit (p @ w) = w"
  by (induction p) (auto simp: nondigit_def split: list.split_asm)

lemma scan_int_text:
  assumes "scan_int s = Some (x, r)"
  shows "s = x @ r \<and> x \<noteq> [] \<and> is_digit (hd x) \<and> (\<forall>c \<in> set x. is_digit c) \<and> (\<forall>w. nondigit w \<longrightarrow> scan_int (x @ w) = Some (x, w))"
proof -
  obtain c t where s: "s = c # t" using assms by (auto simp: scan_int_def split: list.split_asm)
  show ?thesis
  proof (cases "c = CHR ''0''")
    case True
    with assms s show ?thesis by (auto simp: scan_int_def is_digit_def)
  next
    case False
    with assms s have x: "is_digit c" "x = takeWhile is_digit s" "r = dropWhile is_digit s"
      by (auto simp: scan_int_def simp del: takeWhile.simps dropWhile.simps split: if_split_asm)
    then obtain x1 where x1: "x = c # x1" using s by simp
    have d: "\<forall>c \<in> set x. is_digit c" using x(2) by (auto dest: set_takeWhileD)
    have "scan_int (x @ w) = Some (x, w)" if "nondigit w" for w
      using nondigit_takeWhile[OF d that] False x(1) x1 by (simp add: scan_int_def del: takeWhile.simps dropWhile.simps)
    moreover have "s = x @ r" using x by simp
    moreover have "is_digit (hd x)" using x(1) x1 by simp
    ultimately show ?thesis using d x1 by simp
  qed
qed

lemma scan_frac_text:
  assumes "scan_frac s = Some (x, r)"
  shows "s = x @ r \<and> (\<forall>c \<in> set x. is_digit c \<or> c = CHR ''.'') \<and> (x = [] \<or> nondigit x) \<and>
    (\<forall>w. nondigit w \<and> (x = [] \<longrightarrow> w = [] \<or> hd w \<noteq> CHR ''.'') \<longrightarrow> scan_frac (x @ w) = Some (x, w))"
proof (cases "s \<noteq> [] \<and> hd s = CHR ''.''")
  case True
  then obtain t where s: "s = CHR ''.'' # t" by (cases s) auto
  with assms have x: "takeWhile is_digit t \<noteq> []" "x = CHR ''.'' # takeWhile is_digit t" "r = dropWhile is_digit t"
    by (auto simp: scan_frac_def split: if_split_asm)
  have d: "\<forall>c \<in> set (takeWhile is_digit t). is_digit c" by (auto dest: set_takeWhileD)
  have "scan_frac (x @ w) = Some (x, w)" if "nondigit w" for w
    using nondigit_takeWhile[OF d that] x by (simp add: scan_frac_def)
  with x s d show ?thesis by (auto simp: nondigit_def is_digit_def takeWhile_dropWhile_id)
next
  case False
  with assms show ?thesis by (auto simp: scan_frac_def split: list.split_asm if_split_asm list.split)
qed

lemma scan_exp_text:
  assumes "scan_exp s = Some (x, r)"
  shows "s = x @ r \<and> (\<forall>c \<in> set x. is_digit c \<or> c \<in> {CHR ''e'', CHR ''E'', CHR ''+'', CHR ''-''}) \<and>
    (x = [] \<or> nondigit x \<and> hd x \<noteq> CHR ''.'') \<and> (\<forall>w. ends w \<longrightarrow> scan_exp (x @ w) = Some (x, w))"
proof (cases "s \<noteq> [] \<and> (hd s = CHR ''e'' \<or> hd s = CHR ''E'')")
  case True
  then obtain c t where s: "s = c # t" "c = CHR ''e'' \<or> c = CHR ''E''" by (cases s) auto
  define sg where "sg = (case t of d # _ \<Rightarrow> if d = CHR ''+'' \<or> d = CHR ''-'' then [d] else [] | [] \<Rightarrow> [])"
  define u where "u = drop (length sg) t"
  have x: "takeWhile is_digit u \<noteq> []" "x = c # sg @ takeWhile is_digit u" "r = dropWhile is_digit u"
    using assms s by (auto simp: scan_exp_def Let_def sg_def[symmetric] u_def[symmetric] split: if_split_asm)
  have t: "t = sg @ u" "set sg \<subseteq> {CHR ''+'', CHR ''-''}" by (auto simp: sg_def u_def split: list.split)
  have d: "\<forall>c \<in> set (takeWhile is_digit u). is_digit c" by (auto dest: set_takeWhileD)
  have "scan_exp (x @ w) = Some (x, w)" if w: "ends w" for w
  proof -
    have n: "nondigit w" using w by (auto simp: ends_def nondigit_def is_digit_def is_space_def split: list.split_asm)
    obtain y ys where y: "takeWhile is_digit u = y # ys" using x(1) by (cases "takeWhile is_digit u") auto
    then have "is_digit y" using d by auto
    then have "y \<noteq> CHR ''+''" "y \<noteq> CHR ''-''" by (auto simp: is_digit_def)
    then have "(case sg @ takeWhile is_digit u @ w of d # _ \<Rightarrow> if d = CHR ''+'' \<or> d = CHR ''-'' then [d] else [] | [] \<Rightarrow> []) = sg"
      by (auto simp: sg_def y split: list.split)
    then show ?thesis using nondigit_takeWhile[OF d n] x s by (auto simp: scan_exp_def Let_def)
  qed
  with x s t d show ?thesis by (auto simp: nondigit_def is_digit_def)
next
  case False
  with assms have "x = []" "r = s" by (auto simp: scan_exp_def split: list.split_asm if_split_asm)
  with ends_scan show ?thesis by simp
qed

lemma scan_number_text:
  assumes "scan_number s = Some (x, r)"
  shows "s = x @ r \<and> x \<noteq> [] \<and> (\<forall>c \<in> set x. is_digit c \<or> c \<in> {CHR ''.'', CHR ''e'', CHR ''E'', CHR ''+'', CHR ''-''}) \<and>
    (\<forall>w. ends w \<longrightarrow> scan_number (x @ w) = Some (x, w)) \<and> (hd x = CHR ''-'' \<or> is_digit (hd x))"
proof -
  define neg where "neg = (case s of c # _ \<Rightarrow> if c = CHR ''-'' then [c] else [] | [] \<Rightarrow> [])"
  obtain ip s1 fp s2 ep where p: "scan_int (drop (length neg) s) = Some (ip, s1)" "scan_frac s1 = Some (fp, s2)"
    "scan_exp s2 = Some (ep, r)" "x = neg @ ip @ fp @ ep"
    using assms by (auto simp: scan_number_def Let_def neg_def[symmetric] split: option.split_asm)
  note i = scan_int_text[OF p(1)] and f = scan_frac_text[OF p(2)] and e = scan_exp_text[OF p(3)]
  have sn: "s = neg @ drop (length neg) s" "set neg \<subseteq> {CHR ''-''}" "length neg \<le> 1" by (auto simp: neg_def split: list.split)
  have sc: "scan_number (x @ w) = Some (x, w)" if w: "ends w" for w
  proof -
    have n: "nondigit w" "w = [] \<or> hd w \<noteq> CHR ''.''"
      using w by (auto simp: ends_def nondigit_def is_digit_def is_space_def split: list.split_asm)
    have n1: "nondigit (ep @ w)" "ep @ w = [] \<or> hd (ep @ w) \<noteq> CHR ''.''" using e n by (cases ep; auto simp: nondigit_def)+
    have n2: "nondigit (fp @ ep @ w)" using f n1 by (cases fp) (auto simp: nondigit_def)
    have ng: "(case x @ w of c # _ \<Rightarrow> if c = CHR ''-'' then [c] else [] | [] \<Rightarrow> []) = neg"
    proof (cases neg)
      case Nil
      obtain y ys where "ip = y # ys" "is_digit y" using i by (cases ip) auto
      with Nil show ?thesis by (auto simp: p(4) is_digit_def)
    next
      case (Cons a as)
      with sn(2,3) show ?thesis by (auto simp: p(4))
    qed
    have "drop (length neg) (x @ w) = ip @ fp @ ep @ w" by (simp add: p(4))
    with i f e n1 n2 w ng show ?thesis by (simp add: scan_number_def Let_def p(4))
  qed
  have h: "hd x = CHR ''-'' \<or> is_digit (hd x)" using sn(2) i by (cases neg) (auto simp: p(4))
  have c: "\<forall>c \<in> set x. is_digit c \<or> c \<in> {CHR ''.'', CHR ''e'', CHR ''E'', CHR ''+'', CHR ''-''}"
    using i f e sn(2) by (auto simp: p(4))
  have "s = x @ r" using sn(1) i f e by (simp add: p(4))
  with sc h c i show ?thesis by (auto simp: p(4))
qed

text \<open>A scalar that was read: its escaped text is read as the same token before any delimiter.\<close>

definition lit_text :: "jtoken \<Rightarrow> bytes \<Rightarrow> bool" where
  "lit_text tok tx = (tx \<noteq> [] \<and> \<not> is_space (hd tx) \<and> hd tx \<notin> {CHR ''['', CHR ''{'', CHR '']'', CHR ''}''} \<and>
     (\<forall>w. ends w \<longrightarrow> scan_scalar (tx @ w) = Some (tok, w)))"

lemma html_raw_ascii: "\<forall>c \<in> set x. byte c < 0x80 \<and> \<not> special c \<Longrightarrow> html_raw x = x"
  using html_raw_plain[of x "[]"] by force

lemma consumed_append [simp]: "consumed (x @ r) r = x" "consumed (c # x @ r) r = c # x"
  using diff_add_inverse2[of "Suc (length x)" "length r"] by (auto simp: consumed_def simp del: diff_add_inverse2)

lemma scan_scalar_string_text:
  assumes "scan_string t = Some (x, r)"
  shows "lit_text (TStr x) (html_raw (consumed (quote # t) r))" "\<exists>b. consumed (quote # t) r = quote # b"
proof -
  from scan_string_html[OF assms] obtain b where b: "t = b @ r" "\<And>w. scan_string (html_raw b @ w) = Some (x, w)" by blast
  have "html_raw (quote # b) = quote # html_raw b"
    using html_raw_plain[of "[quote]" b] by (simp add: special_def byte_code)
  with b show "lit_text (TStr x) (html_raw (consumed (quote # t) r))" by (simp add: lit_text_def scan_scalar_def is_space_def)
  show "\<exists>b. consumed (quote # t) r = quote # b" using b by simp
qed

lemma keyword_text:
  assumes "strip_prefix p s = Some r" "p \<noteq> []" "\<forall>c \<in> set p. byte c < 0x80 \<and> \<not> special c"
  shows "s = p @ r \<and> html_raw (consumed s r) = p \<and> strip_prefix p (p @ w) = Some w"
proof -
  have s: "s = p @ r" using assms(1) by (auto simp: strip_prefix_def split: if_split_asm) (metis append_take_drop_id)
  with html_raw_ascii[OF assms(3)] show ?thesis by (simp add: strip_prefix_def)
qed

lemma keyword_ascii: "\<forall>c \<in> set ''true''. byte c < 0x80 \<and> \<not> special c" "\<forall>c \<in> set ''false''. byte c < 0x80 \<and> \<not> special c"
  "\<forall>c \<in> set ''null''. byte c < 0x80 \<and> \<not> special c"
  by (simp_all add: byte_def special_def)

lemma scan_scalar_text:
  assumes "scan_scalar s = Some (tok, r)"
  shows "lit_text tok (html_raw (consumed s r))"
proof -
  obtain c t where s: "s = c # t" using assms by (auto simp: scan_scalar_def split: list.split_asm)
  consider (str) "c = quote" | (num) "c = CHR ''-'' \<or> is_digit c" "c \<noteq> quote" | (true) "c = CHR ''t''" | (false) "c = CHR ''f''" | (null) "c = CHR ''n''"
    using assms by (auto simp: scan_scalar_def s split: if_split_asm)
  then show ?thesis
  proof cases
    case str
    with assms s obtain x where "scan_string t = Some (x, r)" "tok = TStr x" by (auto simp: scan_scalar_def)
    with scan_scalar_string_text(1)[of t x r] str s show ?thesis by simp
  next
    case num
    with assms s obtain x where x: "scan_number s = Some (x, r)" "tok = TNum x" by (auto simp: scan_scalar_def)
    note n = scan_number_text[OF x(1)]
    have asc: "\<forall>c \<in> set x. byte c < 0x80 \<and> \<not> special c" using n by (fastforce simp: is_digit_def byte_def special_def)
    have h: "hd x = c" using n s by (cases x) auto
    then have "scan_scalar (x @ w) = Some (tok, w)" if "ends w" for w
      using n num that x(2) by (cases x) (auto simp: scan_scalar_def)
    moreover have "\<not> is_space c \<and> c \<notin> {CHR ''['', CHR ''{'', CHR '']'', CHR ''}''}" using num by (auto simp: is_space_def is_digit_def)
    ultimately show ?thesis using n h html_raw_ascii[OF asc] consumed_append(1)[of x r] by (simp add: lit_text_def)
  next
    case true
    with assms s have x: "strip_prefix ''true'' s = Some r" "tok = TBool True" by (auto simp: scan_scalar_def is_digit_def)
    have h: "html_raw (consumed s r) = ''true''" using keyword_text[OF x(1) _ keyword_ascii(1), of "[]"] by blast
    show ?thesis unfolding h x(2) by (simp add: lit_text_def scan_scalar_def is_space_def is_digit_def strip_prefix_def)
  next
    case false
    with assms s have x: "strip_prefix ''false'' s = Some r" "tok = TBool False" by (auto simp: scan_scalar_def is_digit_def)
    have h: "html_raw (consumed s r) = ''false''" using keyword_text[OF x(1) _ keyword_ascii(2), of "[]"] by blast
    show ?thesis unfolding h x(2) by (simp add: lit_text_def scan_scalar_def is_space_def is_digit_def strip_prefix_def)
  next
    case null
    with assms s have x: "strip_prefix ''null'' s = Some r" "tok = TNull" by (auto simp: scan_scalar_def is_digit_def)
    have h: "html_raw (consumed s r) = ''null''" using keyword_text[OF x(1) _ keyword_ascii(3), of "[]"] by blast
    show ?thesis unfolding h x(2) by (simp add: lit_text_def scan_scalar_def is_space_def is_digit_def strip_prefix_def)
  qed
qed

section \<open>Names written by the encoder\<close>

lemma scan_unit_go_esc:
  assumes "scalar r"
  shows "scan_unit (go_esc r @ rest) = Some (EncodeRune r, rest) \<and> hd (go_esc r) \<noteq> quote \<and> go_esc r \<noteq> []"
proof -
  consider (html) "r \<in> {0x3C, 0x3E, 0x26}" | (sep) "r \<in> {0x2028, 0x2029}" | (other) "r \<notin> {0x3C, 0x3E, 0x26, 0x2028, 0x2029}" by blast
  then show ?thesis
  proof cases
    case html
    then have g: "go_esc r = [backslash, CHR ''u'', CHR ''0'', CHR ''0'', hex_digit (r div 16), hex_digit (r mod 16)]" "r < 256"
      by (auto simp: go_esc_def)
    with html getu4_low[of r rest] show ?thesis by (auto simp: scan_unit_def scan_u_escape_def)
  next
    case sep
    then have g: "go_esc r = [backslash, CHR ''u'', CHR ''2'', CHR ''0'', CHR ''2'', hex_digit (r mod 16)]" "0x2020 + r mod 16 = r"
      by (auto simp: go_esc_def)
    with sep getu4_sep[of "r mod 16" rest] show ?thesis by (auto simp: scan_unit_def scan_u_escape_def)
  next
    case other
    then have "go_esc r = esc_rune r" by (simp add: go_esc_def esc_rune_def)
    with scan_unit_esc[OF assms] show ?thesis by simp
  qed
qed

lemma go_body_utf8: "list_all scalar rs \<Longrightarrow> go_body (utf8 rs) = concat (map go_esc rs)"
proof (induction rs)
  case Nil
  show ?case by (simp add: go_body.simps go_unit_def)
next
  case (Cons r rs)
  then have r: "DecodeRune (EncodeRune r @ utf8 rs) = (r, length (EncodeRune r))" by (simp add: DecodeRune_EncodeRune)
  have "length (EncodeRune r) \<noteq> 1" if "r = RuneError" using that length_EncodeRune_error by simp
  then have "go_unit (utf8 (r # rs)) = Some (go_esc r, utf8 rs)"
    using r by (cases "EncodeRune r") (auto simp: go_unit_def)
  with Cons show ?case by (simp add: go_body.simps[of "utf8 (r # rs)"] del: utf8_simps)
qed

lemma scan_string_go_body:
  assumes "ValidString k"
  shows "scan_string (go_body k @ quote # rest) = Some (k, rest)"
proof -
  obtain rs where rs: "list_all scalar rs" "k = utf8 rs" using assms ValidString_iff by blast
  have "scan_string (concat (map go_esc rs) @ quote # rest) = Some (utf8 rs, rest)"
    using rs(1)
  proof (induction rs)
    case Nil
    show ?case by (simp add: scan_string.simps)
  next
    case (Cons r rs)
    let ?t = "concat (map go_esc rs) @ quote # rest"
    from Cons scan_unit_go_esc[of r ?t] obtain c u where e: "go_esc r = c # u" "c \<noteq> quote" by (cases "go_esc r") auto
    have "scan_string (go_esc r @ ?t) = Some (EncodeRune r @ utf8 rs, rest)"
      using scan_unit_go_esc[of r ?t] e Cons by (subst scan_string.simps) (simp add: e)
    then show ?case by simp
  qed
  with rs go_body_utf8 show ?thesis by simp
qed

lemma ValidString_append: "ValidString a \<Longrightarrow> ValidString b \<Longrightarrow> ValidString (a @ b)"
  by (metis ValidString_iff concat_append list_all_append map_append utf8_def)

lemma ValidString_Encode: "ValidString (EncodeRune r)"
proof -
  have "\<exists>q. scalar q \<and> EncodeRune r = EncodeRune q"
  proof (cases "scalar r")
    case False
    have s: "scalar RuneError" by (simp add: RuneError_def scalar_def)
    with False have "EncodeRune r = EncodeRune RuneError" by (simp add: EncodeRune_def)
    with s show ?thesis by blast
  qed blast
  then obtain q where "scalar q" "EncodeRune r = EncodeRune q" by blast
  then show ?thesis using ValidString_EncodeRune[of q "[]"] by simp
qed

lemma scan_unit_valid:
  assumes "scan_unit s = Some (e, u)"
  shows "ValidString e"
proof (cases s)
  case (Cons c t)
  show ?thesis
  proof (cases "c = backslash")
    case True
    with assms Cons obtain x v where t: "t = x # v" by (auto simp: scan_unit_def split: list.split_asm)
    show ?thesis
    proof (cases "x = CHR ''u''")
      case True
      with assms Cons \<open>c = backslash\<close> t have "scan_u_escape v = Some (e, u)" by (simp add: scan_unit_def)
      then show ?thesis by (auto simp: scan_u_escape_def ValidString_Encode split: option.split_asm if_split_asm)
    next
      case False
      with assms Cons \<open>c = backslash\<close> t obtain y where "esc_char x = Some y" "e = [y]" by (auto simp: scan_unit_def split: option.split_asm)
      moreover from this have "byte y < 0x80" by (auto simp: esc_char_def byte_def split: if_split_asm)
      ultimately show ?thesis using ValidString_Encode[of "byte y"] by (simp add: EncodeRune_ascii)
    qed
  qed (use assms Cons in \<open>auto simp: scan_unit_def ValidString_Encode split: if_split_asm\<close>)
qed (use assms in \<open>simp add: scan_unit_def\<close>)

lemma scan_string_valid: "scan_string s = Some (x, r) \<Longrightarrow> ValidString x"
proof (induction s arbitrary: x r rule: scan_string.induct)
  case (1 s)
  show ?case
  proof (cases s)
    case (Cons c t)
    show ?thesis
    proof (cases "c = quote")
      case True
      with 1(2) Cons show ?thesis by (simp add: scan_string.simps)
    next
      case False
      with 1(2) Cons obtain e u y where u: "scan_unit s = Some (e, u)" "scan_string u = Some (y, r)" "x = e @ y"
        by (subst (asm) scan_string.simps) (auto split: option.split_asm)
      with 1(1)[OF Cons False u(1) refl u(2)] scan_unit_valid[OF u(1)] show ?thesis by (simp add: ValidString_append)
    qed
  qed (use 1(2) in \<open>simp add: scan_string.simps\<close>)
qed

end
