(* ===== verification/JsonText.thy ===== *)
theory JsonText
  imports JsonLiteral
begin

text \<open>
  Writing and reading again: the text \<open>json.Marshal\<close> gives for a document that was read is read back as
  the same document, member by member, and the text of a member reads on its own as it read in place.
\<close>

section \<open>Documents\<close>

fun plain :: "jtree \<Rightarrow> jtree" where
  "plain (JTok tok raw) = JTok tok []"
| "plain (JArr raw ts) = JArr [] (map plain ts)"
| "plain (JObj raw ms) = JObj [] (map (\<lambda>(rk, k, v). ([], k, plain v)) ms)"

definition key_text :: "bytes \<Rightarrow> bytes \<Rightarrow> bool" where
  "key_text kt k = (\<exists>b. kt = quote # b \<and> (\<forall>w. scan_string (b @ w) = Some (k, w)))"

lemma key_text_Marshal: "ValidString k \<Longrightarrow> key_text (Marshal_string k) k"
  by (simp add: key_text_def Marshal_string_def scan_string_go_body)

lemma key_text_html:
  assumes "scan_string t = Some (k, r)"
  shows "key_text (html_raw (consumed (quote # t) r)) k"
proof -
  from scan_string_html[OF assms] obtain b where b: "t = b @ r" "\<And>w. scan_string (html_raw b @ w) = Some (k, w)" by blast
  have "html_raw (quote # b) = quote # html_raw b"
    using html_raw_plain[of "[quote]" b] by (simp add: special_def byte_code)
  with b show ?thesis by (simp add: key_text_def)
qed

definition member_of :: "bytes \<times> bytes \<Rightarrow> bytes" where
  "member_of p = fst p @ CHR '':'' # snd p"

text \<open>A text of a document nested at a depth: every literal and name reads as itself.\<close>

inductive text_of :: "nat \<Rightarrow> jtree \<Rightarrow> bytes \<Rightarrow> bool" where
  text_tok: "lit_text tok tx \<Longrightarrow> text_of d (JTok tok raw) tx"
| text_arr: "d < maxNestingDepth \<Longrightarrow> list_all2 (text_of (Suc d)) ts txs \<Longrightarrow>
    text_of d (JArr raw ts) (CHR ''['' # comma_join txs @ '']'')"
| text_obj: "d < maxNestingDepth \<Longrightarrow> list_all2 (\<lambda>m p. key_text (fst p) (fst (snd m)) \<and> text_of (Suc d) (snd (snd m)) (snd p)) ms ps \<Longrightarrow>
    text_of d (JObj raw ms) (CHR ''{'' # comma_join (map member_of ps) @ ''}'')"

lemma text_of_shallower: "text_of d t tx \<Longrightarrow> d' \<le> d \<Longrightarrow> text_of d' t tx"
proof (induction arbitrary: d' rule: text_of.induct)
  case (text_arr d ts txs raw)
  have "list_all2 (text_of (Suc d')) ts txs"
    using text_arr(2) by (rule list_all2_mono) (use text_arr(3) in auto)
  with text_arr(1,3) show ?case by (intro text_of.intros) auto
next
  case (text_obj d ms ps raw)
  have "list_all2 (\<lambda>m p. key_text (fst p) (fst (snd m)) \<and> text_of (Suc d') (snd (snd m)) (snd p)) ms ps"
    using text_obj(2) by (rule list_all2_mono) (use text_obj(3) in auto)
  with text_obj(1,3) show ?case by (intro text_of.intros) auto
qed (auto intro: text_of.intros)

lemma text_of_hd: "text_of d t tx \<Longrightarrow> tx \<noteq> [] \<and> \<not> is_space (hd tx) \<and> hd tx \<notin> {CHR '']'', CHR ''}''}"
  by (induction rule: text_of.induct) (auto simp: lit_text_def is_space_def)

text \<open>The text is read back, with the text as the raw text of the value.\<close>

definition reads :: "nat \<Rightarrow> jtree \<Rightarrow> bytes \<Rightarrow> bool" where
  "reads d t tx = (\<forall>f w. ends w \<longrightarrow> 2 * length (tx @ w) + 1 \<le> f \<longrightarrow>
     (\<exists>t'. parse_tree f d (tx @ w) = Some (t', w) \<and> plain t' = plain t \<and> tree_raw t' = tx))"

lemma readsD:
  "reads d t tx \<Longrightarrow> ends w \<Longrightarrow> 2 * length (tx @ w) + 1 \<le> f \<Longrightarrow>
   \<exists>t'. parse_tree f d (tx @ w) = Some (t', w) \<and> plain t' = plain t \<and> tree_raw t' = tx"
  unfolding reads_def by blast

lemma skip_ws_id: "s \<noteq> [] \<Longrightarrow> \<not> is_space (hd s) \<Longrightarrow> skip_ws s = s"
  by (cases s) (auto simp: skip_ws_def)

lemma next_is_Cons [simp]: "\<not> is_space c \<Longrightarrow> next_is x (c # s) = (if c = x then Some s else None)"
  by (simp add: next_is_def skip_ws_id)

lemma not_space_delims [simp]: "\<not> is_space (CHR '','')" "\<not> is_space (CHR '']'')" "\<not> is_space (CHR ''}'')" "\<not> is_space (CHR '':'')"
   "\<not> is_space (CHR ''['')" "\<not> is_space (CHR ''{'')" "\<not> is_space quote"
  by (simp_all add: is_space_def)

lemma ends_close [simp]: "ends []" "ends (CHR '','' # s)" "ends (CHR '']'' # s)" "ends (CHR ''}'' # s)"
  by (simp_all add: ends_def)

lemma reads_tok:
  assumes "lit_text tok tx"
  shows "reads d (JTok tok raw) tx"
proof -
  obtain c t where t: "tx = c # t" using assms by (cases tx) (auto simp: lit_text_def)
  have "parse_tree f d (tx @ w) = Some (JTok tok tx, w)" if w: "ends w" and f: "2 * length (tx @ w) + 1 \<le> f" for f w
  proof -
    obtain g where g: "f = Suc g" using f by (cases f) auto
    have s: "skip_ws (tx @ w) = tx @ w" using assms by (intro skip_ws_id) (auto simp: lit_text_def)
    have "scan_scalar (tx @ w) = Some (tok, w)" "c \<noteq> CHR ''[''" "c \<noteq> CHR ''{''" using assms w t by (auto simp: lit_text_def)
    then show ?thesis unfolding g parse_tree.simps Let_def s by (simp add: t)
  qed
  then show ?thesis by (auto simp: reads_def)
qed

lemma comma_join_ne: "bs \<noteq> [] \<Longrightarrow> comma_join (b # bs) = b @ CHR '','' # comma_join bs"
  by (cases bs) auto

lemma items_read:
  assumes "list_all2 (reads d) ts txs" "ts \<noteq> []" "2 * length (comma_join txs @ CHR '']'' # w) + 2 \<le> f"
  shows "\<exists>ts'. parse_items f d (comma_join txs @ CHR '']'' # w) = Some (ts', w) \<and> map plain ts' = map plain ts"
  using assms
proof (induction arbitrary: f rule: list_all2_induct)
  case (Cons t ts tx txs)
  obtain g where g: "f = Suc g" using Cons.prems(2) by (cases f) auto
  show ?case
  proof (cases "txs = []")
    case True
    with Cons.hyps have "ts = []" by simp
    have "2 * length (tx @ CHR '']'' # w) + 1 \<le> g" using Cons.prems(2) True g by simp
    from readsD[OF Cons.hyps(1) _ this] obtain t' where "parse_tree g d (tx @ CHR '']'' # w) = Some (t', CHR '']'' # w)" "plain t' = plain t"
      by auto
    with True g \<open>ts = []\<close> show ?thesis by simp
  next
    case False
    with Cons.hyps have "ts \<noteq> []" by auto
    let ?r = "comma_join txs @ CHR '']'' # w"
    have e: "comma_join (tx # txs) @ CHR '']'' # w = tx @ CHR '','' # ?r" using False by (simp add: comma_join_ne)
    have f: "2 * length (tx @ CHR '','' # ?r) + 1 \<le> g" "2 * length ?r + 2 \<le> g" using Cons.prems(2) g unfolding e by auto
    from readsD[OF Cons.hyps(1) _ f(1)] obtain t' where "parse_tree g d (tx @ CHR '','' # ?r) = Some (t', CHR '','' # ?r)" "plain t' = plain t"
      by auto
    moreover obtain ts' where "parse_items g d ?r = Some (ts', w)" "map plain ts' = map plain ts"
      using Cons.IH[OF \<open>ts \<noteq> []\<close> f(2)] by blast
    ultimately show ?thesis unfolding e g by simp
  qed
qed simp

definition reads_member :: "nat \<Rightarrow> bytes \<times> bytes \<times> jtree \<Rightarrow> bytes \<times> bytes \<Rightarrow> bool" where
  "reads_member d m p = (key_text (fst p) (fst (snd m)) \<and> reads d (snd (snd m)) (snd p))"

definition plain_member :: "bytes \<times> bytes \<times> jtree \<Rightarrow> bytes \<times> bytes \<times> jtree" where
  "plain_member m = ([], fst (snd m), plain (snd (snd m)))"

lemma plain_JObj [simp]: "plain (JObj raw ms) = JObj [] (map plain_member ms)"
  by (simp add: plain_member_def case_prod_unfold)

declare plain.simps(3) [simp del]

text \<open>Members read back keep their names, and each value has its text as raw text.\<close>

definition same_members :: "(bytes \<times> bytes \<times> jtree) list \<Rightarrow> (bytes \<times> bytes \<times> jtree) list \<Rightarrow> (bytes \<times> bytes) list \<Rightarrow> bool" where
  "same_members ms' ms ps = (map plain_member ms' = map plain_member ms \<and> map (\<lambda>m. tree_raw (snd (snd m))) ms' = map snd ps)"

lemma member_read:
  assumes "reads_member d m p" "ends w" "2 * length (member_of p @ w) + 2 \<le> Suc g"
  shows "\<exists>rk v. parse_fields (Suc g) d (member_of p @ w) =
      (case next_is (CHR '','') w of
         Some r2 \<Rightarrow> map_option (\<lambda>(ms, r3). ((rk, fst (snd m), v) # ms, r3)) (parse_fields g d r2)
       | None \<Rightarrow> map_option (\<lambda>r2. ([(rk, fst (snd m), v)], r2)) (next_is (CHR ''}'') w)) \<and>
      plain v = plain (snd (snd m)) \<and> tree_raw v = snd p"
proof -
  from assms(1) obtain b where b: "fst p = quote # b" "\<And>u. scan_string (b @ u) = Some (fst (snd m), u)"
    by (auto simp: reads_member_def key_text_def)
  have s: "skip_ws (member_of p @ w) = quote # b @ CHR '':'' # snd p @ w" by (simp add: member_of_def b(1) skip_ws_id)
  have "2 * length (snd p @ w) + 1 \<le> g" using assms(3) by (simp add: member_of_def)
  then obtain v where v: "parse_tree g d (snd p @ w) = Some (v, w)" "plain v = plain (snd (snd m))" "tree_raw v = snd p"
    using assms(1,2) unfolding reads_member_def reads_def by blast
  with b(2)[of "CHR '':'' # snd p @ w"] show ?thesis
    unfolding parse_fields.simps Let_def s by (auto split: option.split)
qed

lemma fields_read:
  assumes "list_all2 (reads_member d) ms ps" "ms \<noteq> []" "2 * length (comma_join (map member_of ps) @ CHR ''}'' # w) + 2 \<le> f"
  shows "\<exists>ms'. parse_fields f d (comma_join (map member_of ps) @ CHR ''}'' # w) = Some (ms', w) \<and> same_members ms' ms ps"
  using assms
proof (induction arbitrary: f rule: list_all2_induct)
  case (Cons m ms p ps)
  obtain g where g: "f = Suc g" using Cons.prems(2) by (cases f) auto
  show ?case
  proof (cases "ps = []")
    case True
    with Cons.hyps have "ms = []" by simp
    from member_read[OF Cons.hyps(1), of "CHR ''}'' # w" g] Cons.prems(2) True g obtain rk v where
      "parse_fields f d (member_of p @ CHR ''}'' # w) = Some ([(rk, fst (snd m), v)], w)" "plain v = plain (snd (snd m))" "tree_raw v = snd p" by auto
    with True \<open>ms = []\<close> show ?thesis by (auto simp: same_members_def plain_member_def)
  next
    case False
    with Cons.hyps have ne: "ms \<noteq> []" by auto
    let ?r = "comma_join (map member_of ps) @ CHR ''}'' # w"
    have e: "comma_join (map member_of (p # ps)) @ CHR ''}'' # w = member_of p @ CHR '','' # ?r" using False by (simp add: comma_join_ne)
    have f: "2 * length (member_of p @ CHR '','' # ?r) + 2 \<le> Suc g" "2 * length ?r + 2 \<le> g" using Cons.prems(2) g unfolding e by auto
    obtain ms' where ms': "parse_fields g d ?r = Some (ms', w)" "same_members ms' ms ps" using Cons.IH[OF ne f(2)] by blast
    from member_read[OF Cons.hyps(1) _ f(1)] ms'(1) obtain rk v where
      "parse_fields f d (member_of p @ CHR '','' # ?r) = Some ((rk, fst (snd m), v) # ms', w)" "plain v = plain (snd (snd m))" "tree_raw v = snd p"
      unfolding g by auto
    with ms'(2) show ?thesis unfolding e by (auto simp: same_members_def plain_member_def)
  qed
qed simp

lemma parse_tree_open:
  "parse_tree (Suc g) d (CHR ''['' # t) =
     (if d \<ge> maxNestingDepth then None
      else case next_is (CHR '']'') t of
          Some r \<Rightarrow> Some (JArr (consumed (CHR ''['' # t) r) [], r)
        | None \<Rightarrow> map_option (\<lambda>(ts, r). (JArr (consumed (CHR ''['' # t) r) ts, r)) (parse_items g (Suc d) t))"
  "parse_tree (Suc g) d (CHR ''{'' # t) =
     (if d \<ge> maxNestingDepth then None
      else case next_is (CHR ''}'') t of
          Some r \<Rightarrow> Some (JObj (consumed (CHR ''{'' # t) r) [], r)
        | None \<Rightarrow> map_option (\<lambda>(ms, r). (JObj (consumed (CHR ''{'' # t) r) ms, r)) (parse_fields g (Suc d) t))"
  by (simp_all add: skip_ws_id Let_def)

lemma consumed_bracket: "consumed (c # x @ e # r) r = c # x @ [e]"
  using consumed_append(1)[of "c # x @ [e]" r] by simp

lemma next_is_items:
  assumes "list_all2 R ts txs" "ts \<noteq> []" "\<And>t tx. R t tx \<Longrightarrow> tx \<noteq> [] \<and> \<not> is_space (hd tx) \<and> hd tx \<noteq> c"
  shows "next_is c (comma_join txs @ w) = None"
proof -
  obtain t ts' tx txs' where l: "ts = t # ts'" "txs = tx # txs'" "R t tx" using assms(1,2) by (cases ts; cases txs) auto
  from assms(3)[OF l(3)] obtain x u where "tx = x # u" "\<not> is_space x" "x \<noteq> c" by (cases tx) auto
  then show ?thesis by (cases txs') (auto simp: l)
qed

lemma text_reads: "text_of d t tx \<Longrightarrow> reads d t tx"
proof (induction rule: text_of.induct)
  case (text_tok tok tx d raw)
  then show ?case by (rule reads_tok)
next
  case (text_arr d ts txs raw)
  have l: "list_all2 (reads (Suc d)) ts txs" using text_arr(2) by (rule list_all2_mono) auto
  show ?case unfolding reads_def
  proof (intro allI impI)
    fix f w assume w: "ends w" and f: "2 * length ((CHR ''['' # comma_join txs @ '']'') @ w) + 1 \<le> f"
    obtain g where g: "f = Suc g" using f by (cases f) auto
    show "\<exists>t'. parse_tree f d ((CHR ''['' # comma_join txs @ '']'') @ w) = Some (t', w) \<and> plain t' = plain (JArr raw ts) \<and>
        tree_raw t' = CHR ''['' # comma_join txs @ '']''"
    proof (cases "ts = []")
      case True
      with l have "txs = []" by simp
      with True text_arr(1) g show ?thesis using consumed_append(1)[of "''[]''" w] by (simp add: parse_tree_open skip_ws_id Let_def)
    next
      case False
      have n: "next_is (CHR '']'') (comma_join txs @ CHR '']'' # w) = None"
        using next_is_items[OF text_arr(2) False, of "CHR '']''"] text_of_hd by fastforce
      from items_read[OF l False, of w g] f g obtain ts' where
        "parse_items g (Suc d) (comma_join txs @ CHR '']'' # w) = Some (ts', w)" "map plain ts' = map plain ts" by auto
      with n text_arr(1) g show ?thesis
        using parse_tree_open(1)[of g d "comma_join txs @ CHR '']'' # w"] by (simp add: consumed_bracket)
    qed
  qed
next
  case (text_obj d ms ps raw)
  have l: "list_all2 (reads_member (Suc d)) ms ps" using text_obj(2) by (rule list_all2_mono) (auto simp: reads_member_def)
  show ?case unfolding reads_def
  proof (intro allI impI)
    fix f w assume w: "ends w" and f: "2 * length ((CHR ''{'' # comma_join (map member_of ps) @ ''}'') @ w) + 1 \<le> f"
    obtain g where g: "f = Suc g" using f by (cases f) auto
    show "\<exists>t'. parse_tree f d ((CHR ''{'' # comma_join (map member_of ps) @ ''}'') @ w) = Some (t', w) \<and> plain t' = plain (JObj raw ms) \<and>
        tree_raw t' = CHR ''{'' # comma_join (map member_of ps) @ ''}''"
    proof (cases "ms = []")
      case True
      with l have "ps = []" by simp
      with True text_obj(1) g show ?thesis using consumed_append(1)[of "''{}''" w] by (simp add: parse_tree_open skip_ws_id Let_def)
    next
      case False
      have "list_all2 (\<lambda>m x. \<exists>u. x = quote # u) ms (map member_of ps)"
        unfolding list_all2_map2 using l by (rule list_all2_mono) (auto simp: reads_member_def key_text_def member_of_def)
      then have n: "next_is (CHR ''}'') (comma_join (map member_of ps) @ CHR ''}'' # w) = None"
        by (rule next_is_items) (use False in auto)
      from fields_read[OF l False, of w g] f g obtain ms' where
        "parse_fields g (Suc d) (comma_join (map member_of ps) @ CHR ''}'' # w) = Some (ms', w)" "same_members ms' ms ps" by auto
      with n text_obj(1) g show ?thesis
        using parse_tree_open(2)[of g d "comma_join (map member_of ps) @ CHR ''}'' # w"] by (simp add: consumed_bracket same_members_def)
    qed
  qed
qed

text \<open>A document that was read is written as a text of itself.\<close>

definition member_compact :: "bytes \<times> bytes \<times> jtree \<Rightarrow> bytes \<times> bytes" where
  "member_compact m = (html_raw (fst m), compact (snd (snd m)))"

lemma compact_JObj [simp]: "compact (JObj raw ms) = CHR ''{'' # comma_join (map member_of (map member_compact ms)) @ ''}''"
  by (simp add: member_compact_def member_of_def case_prod_unfold o_def)

declare compact.simps(3) [simp del]

definition text_member :: "nat \<Rightarrow> bytes \<times> bytes \<times> jtree \<Rightarrow> bytes \<times> bytes \<Rightarrow> bool" where
  "text_member d m p = (key_text (fst p) (fst (snd m)) \<and> text_of d (snd (snd m)) (snd p))"

lemma text_obj': "d < maxNestingDepth \<Longrightarrow> list_all2 (text_member (Suc d)) ms ps \<Longrightarrow> text_of d (JObj raw ms) (CHR ''{'' # comma_join (map member_of ps) @ ''}'')"
  by (rule text_obj) (auto simp: text_member_def elim!: list_all2_mono)

lemma parse_text:
  "parse_tree f d s = Some (t, r) \<Longrightarrow> text_of d t (compact t)"
  "parse_items f d s = Some (ts, r) \<Longrightarrow> list_all2 (text_of d) ts (map compact ts)"
  "parse_fields f d s = Some (ms, r) \<Longrightarrow> list_all2 (text_member d) ms (map member_compact ms)"
proof (induction f d s and f d s and f d s arbitrary: t r and ts r and ms r rule: parse_tree_parse_items_parse_fields.induct)
  case (2 f d s)
  show ?case
  proof (cases "skip_ws s")
    case (Cons c u)
    consider (arr) "c = CHR ''[''" | (obj) "c = CHR ''{''" | (tok) "c \<noteq> CHR ''[''" "c \<noteq> CHR ''{''" by blast
    then show ?thesis
    proof cases
      case arr
      with 2(3) Cons have d: "\<not> maxNestingDepth \<le> d" by (auto split: if_split_asm simp: Let_def)
      show ?thesis
      proof (cases "next_is (CHR '']'') u")
        case (Some x)
        with 2(3) Cons arr d show ?thesis using text_arr[of d "[]" "[]"] by (auto simp: Let_def)
      next
        case None
        with 2(3) Cons arr d obtain ts where ts: "parse_items f (Suc d) u = Some (ts, r)" "t = JArr (consumed (c # u) r) ts"
          by (auto simp: Let_def)
        from 2(1)[OF refl Cons arr d None ts(1)] d ts(2) show ?thesis by (auto intro: text_arr)
      qed
    next
      case obj
      with 2(3) Cons have d: "\<not> maxNestingDepth \<le> d" by (auto split: if_split_asm simp: Let_def)
      show ?thesis
      proof (cases "next_is (CHR ''}'') u")
        case (Some x)
        with 2(3) Cons obj d show ?thesis using text_obj'[of d "[]" "[]"] by (auto simp: Let_def)
      next
        case None
        with 2(3) Cons obj d obtain ms where ms: "parse_fields f (Suc d) u = Some (ms, r)" "t = JObj (consumed (c # u) r) ms"
          by (auto simp: Let_def)
        have "c \<noteq> CHR ''[''" using obj by simp
        from text_obj'[OF _ 2(2)[OF refl Cons this obj d None ms(1)]] d ms(2) show ?thesis by simp
      qed
    next
      case tok
      with 2(3) Cons obtain k where k: "scan_scalar (skip_ws s) = Some (k, r)" "t = JTok k (consumed (skip_ws s) r)" by (auto simp: Let_def)
      then show ?thesis using scan_scalar_text[OF k(1)] by (auto intro: text_tok)
    qed
  qed (use 2(3) in \<open>simp add: Let_def\<close>)
next
  case (4 f d s)
  from 4(3) obtain v r0 where v: "parse_tree f d s = Some (v, r0)" by (auto split: option.split_asm)
  note h = 4(1)[OF v]
  show ?case
  proof (cases "next_is (CHR '','') r0")
    case (Some r1)
    with 4(3) v obtain vs where vs: "parse_items f d r1 = Some (vs, r)" "ts = v # vs" by auto
    from 4(2)[OF v refl Some vs(1)] h vs(2) show ?thesis by simp
  qed (use 4(3) v h in auto)
next
  case (6 f d s)
  from 6(3) obtain k r0 where k: "\<not> (skip_ws s = [] \<or> hd (skip_ws s) \<noteq> quote)" "scan_string (tl (skip_ws s)) = Some (k, r0)"
    by (auto simp: Let_def split: if_split_asm option.split_asm)
  from 6(3) k obtain r1 v r2 where v: "next_is (CHR '':'') r0 = Some r1" "parse_tree f d r1 = Some (v, r2)"
    by (auto simp: Let_def split: option.split_asm)
  have q: "skip_ws s = quote # tl (skip_ws s)" using k(1) by (cases "skip_ws s") auto
  let ?m = "(consumed (skip_ws s) r0, k, v)"
  have h: "text_member d ?m (member_compact ?m)"
    using 6(1)[OF refl k(1,2) refl v] key_text_html[OF k(2)] q by (simp add: text_member_def member_compact_def)
  show ?case
  proof (cases "next_is (CHR '','') r2")
    case (Some r3)
    with 6(3) k v obtain ms1 where ms: "parse_fields f d r3 = Some (ms1, r)" "ms = ?m # ms1" by (auto simp: Let_def)
    from 6(2)[OF refl k(1,2) refl v refl Some ms(1)] h ms(2) show ?thesis by simp
  qed (use 6(3) k v h in \<open>auto simp: Let_def\<close>)
qed simp_all

lemma parse_json_tree: "parse_json raw = Some t \<Longrightarrow> \<exists>r. parse_tree (2 * length raw + 2) 0 raw = Some (t, r) \<and> skip_ws r = []"
  by (auto simp: parse_json_def split: option.split_asm if_split_asm)

lemma parse_json_text: "parse_json raw = Some t \<Longrightarrow> text_of 0 t (compact t)"
  using parse_json_tree parse_text(1) by blast

section \<open>The text of a literal on its own\<close>

lemma append_prefix: "b @ w = p @ z \<Longrightarrow> q \<in> set b \<Longrightarrow> q \<notin> set p \<Longrightarrow> \<exists>b'. b = p @ b' \<and> z = b' @ w"
  by (auto simp: append_eq_append_conv2)

lemma getu4_local:
  assumes "getu4 (b @ w) = Some (v, t)" "quote \<in> set b"
  shows "\<exists>t'. getu4 (b @ r) = Some (v, t')"
proof -
  from getu4_split[OF assms(1)] obtain h where h: "b @ w = h @ t" "\<forall>w. getu4 (h @ w) = Some (v, w)" "\<forall>x \<in> set h. hex_val x \<noteq> None" by blast
  then have "quote \<notin> set h" using hex_val_not by auto
  from append_prefix[OF h(1) assms(2) this] h(2) show ?thesis by auto
qed

lemma low_surrogate_local:
  assumes "low_surrogate (b @ r) = None" "quote \<in> set b"
  shows "low_surrogate (b @ w) = None"
proof (rule ccontr)
  assume "low_surrogate (b @ w) \<noteq> None"
  then obtain t v t1 where l: "b @ w = [backslash, CHR ''u''] @ t" "getu4 t = Some (v, t1)" "0xDC00 \<le> v" "v < 0xE000"
    by (auto simp: low_surrogate_def split: list.split_asm if_split_asm option.split_asm)
  from append_prefix[OF l(1) assms(2)] obtain b' where b: "b = [backslash, CHR ''u''] @ b'" "t = b' @ w" by auto
  with assms(2) have "quote \<in> set b'" by simp
  from getu4_local[OF _ this, of w v t1 r] l(2) b obtain t' where "getu4 (b' @ r) = Some (v, t')" by auto
  with assms(1) l(3,4) b show False by (simp add: low_surrogate_def)
qed

lemma scan_u_escape_local:
  assumes "scan_u_escape s = Some (e, b @ r)" "quote \<in> set b"
  shows "\<exists>a. s = a @ b @ r \<and> (\<forall>w. scan_u_escape (a @ b @ w) = Some (e, b @ w))"
proof -
  from assms(1) obtain v t where g: "getu4 s = Some (v, t)" by (auto simp: scan_u_escape_def split: option.split_asm)
  from getu4_split[OF g] obtain h where h: "s = h @ t" "\<forall>w. getu4 (h @ w) = Some (v, w)" by blast
  show ?thesis
  proof (cases "0xD800 \<le> v \<and> v < 0xDC00 \<and> low_surrogate t \<noteq> None")
    case True
    then obtain v1 t1 where l: "low_surrogate t = Some (v1, t1)" by auto
    then obtain t0 where t0: "t = [backslash, CHR ''u''] @ t0" "getu4 t0 = Some (v1, t1)" "0xDC00 \<le> v1" "v1 < 0xE000"
      by (auto simp: low_surrogate_def split: list.split_asm if_split_asm option.split_asm)
    from getu4_split[OF t0(2)] obtain h1 where h1: "t0 = h1 @ t1" "\<forall>w. getu4 (h1 @ w) = Some (v1, w)" by blast
    from assms(1) g l True have e: "t1 = b @ r" "e = EncodeRune ((v - 0xD800) * 0x400 + (v1 - 0xDC00) + 0x10000)"
      by (auto simp: scan_u_escape_def)
    let ?a = "h @ [backslash, CHR ''u''] @ h1"
    have "low_surrogate ([backslash, CHR ''u''] @ h1 @ w) = Some (v1, w)" for w
      using h1(2) t0(3,4) by (simp add: low_surrogate_def)
    then have "scan_u_escape (?a @ w) = Some (e, w)" for w using h(2) e(2) True by (simp add: scan_u_escape_def)
    then show ?thesis using h h1 t0(1) e(1) by (intro exI[of _ ?a]) auto
  next
    case False
    then have t: "t = b @ r" using assms(1) g by (auto simp: scan_u_escape_def split: if_split_asm option.split_asm)
    have "scan_u_escape (h @ b @ w) = Some (e, b @ w)" for w
      using assms g h(2) False low_surrogate_local[of b r w] t by (auto simp: scan_u_escape_def split: if_split_asm option.split_asm)
    then show ?thesis using h t by blast
  qed
qed

lemma DecodeRune_ill_formed_local:
  assumes "DecodeRune (c # b @ r) = (RuneError, 1)" "0x80 \<le> byte c" "quote \<in> set b"
  shows "DecodeRune (c # b @ w) = (RuneError, 1)"
proof (rule ccontr)
  assume n: "DecodeRune (c # b @ w) \<noteq> (RuneError, 1)"
  from DecodeRune_local[OF this assms(2)] obtain p z where p: "b @ w = p @ z" "\<forall>x \<in> set p. 0x80 \<le> byte x \<and> byte x \<le> 0xBF"
    "\<forall>z'. DecodeRune (c # p @ z') = DecodeRune (c # b @ w)" by blast
  have "quote \<notin> set p" using p(2) byte_not by blast
  from append_prefix[OF p(1) assms(3) this] obtain b' where "b = p @ b'" by blast
  with p(3)[rule_format, of "b' @ r"] assms(1) n show False by simp
qed

lemma scan_unit_local:
  assumes "scan_unit s = Some (e, b @ r)" "quote \<in> set b"
  shows "\<exists>a. s = a @ b @ r \<and> a \<noteq> [] \<and> (\<forall>w. scan_unit (a @ b @ w) = Some (e, b @ w))"
proof -
  obtain c t where s: "s = c # t" using assms(1) by (cases s) (auto simp: scan_unit_def)
  show ?thesis
  proof (cases "c = backslash")
    case True
    with assms(1) s obtain x u where t: "t = x # u" by (auto simp: scan_unit_def split: list.split_asm)
    show ?thesis
    proof (cases "x = CHR ''u''")
      case True
      with assms(1) s t \<open>c = backslash\<close> have "scan_u_escape u = Some (e, b @ r)" by (simp add: scan_unit_def)
      from scan_u_escape_local[OF this assms(2)] obtain a where "u = a @ b @ r" "\<forall>w. scan_u_escape (a @ b @ w) = Some (e, b @ w)" by blast
      with s t True \<open>c = backslash\<close> show ?thesis by (intro exI[of _ "[backslash, CHR ''u''] @ a"]) (auto simp: scan_unit_def)
    next
      case False
      with assms(1) s t \<open>c = backslash\<close> have "u = b @ r" by (auto simp: scan_unit_def split: option.split_asm)
      with assms(1) s t \<open>c = backslash\<close> False show ?thesis
        by (intro exI[of _ "[backslash, x]"]) (auto simp: scan_unit_def split: option.split_asm)
    qed
  next
    case False
    obtain rn n where d: "DecodeRune (c # t) = (rn, n)" by fastforce
    have lo: "0x20 \<le> byte c" and e: "e = EncodeRune rn" and br: "b @ r = drop n (c # t)"
      using assms(1) s False d by (auto simp: scan_unit_def split: if_split_asm)
    consider (ascii) "byte c < 0x80" | (ill) "0x80 \<le> byte c" "DecodeRune (c # t) = (RuneError, 1)"
      | (multi) "0x80 \<le> byte c" "DecodeRune (c # t) \<noteq> (RuneError, 1)" by linarith
    then show ?thesis
    proof cases
      case ascii
      with d have "rn = byte c" "n = 1" by (auto simp: DecodeRune_def)
      with s br e ascii lo False show ?thesis by (intro exI[of _ "[c]"]) (auto simp: scan_unit_def DecodeRune_def)
    next
      case ill
      with d br e have t: "t = b @ r" "e = EncodeRune RuneError" by auto
      with DecodeRune_ill_formed_local[of c b r] ill assms(2) s lo False show ?thesis by (intro exI[of _ "[c]"]) (auto simp: scan_unit_def)
    next
      case multi
      from DecodeRune_local[OF multi(2,1)] obtain p z where p: "t = p @ z"
        "\<And>z'. DecodeRune (c # p @ z') = DecodeRune (c # t)" "n = Suc (length p)" using d by auto
      with br have z: "z = b @ r" by simp
      have "scan_unit (c # p @ b @ w) = Some (e, b @ w)" for w
        using p(2)[of "b @ w"] d p(3) False lo e by (simp add: scan_unit_def)
      then show ?thesis using s p(1) z by (intro exI[of _ "c # p"]) auto
    qed
  qed
qed

lemma scan_string_local:
  "scan_string s = Some (x, r) \<Longrightarrow> \<exists>b. s = b @ r \<and> quote \<in> set b \<and> (\<forall>w. scan_string (b @ w) = Some (x, w))"
proof (induction s arbitrary: x r rule: scan_string.induct)
  case (1 s)
  show ?case
  proof (cases s)
    case (Cons c t)
    show ?thesis
    proof (cases "c = quote")
      case True
      with 1(2) Cons show ?thesis by (intro exI[of _ "[quote]"]) (auto simp: scan_string.simps)
    next
      case False
      with 1(2) Cons obtain e u y where u: "scan_unit s = Some (e, u)" "scan_string u = Some (y, r)" "x = e @ y"
        by (subst (asm) scan_string.simps) (auto split: option.split_asm)
      from 1(1)[OF Cons False u(1) refl u(2)] obtain b where b: "u = b @ r" "quote \<in> set b"
        "\<And>w. scan_string (b @ w) = Some (y, w)" by blast
      from scan_unit_local[of s e b r] u b obtain a where a: "s = a @ b @ r" "a \<noteq> []"
        "\<And>w. scan_unit (a @ b @ w) = Some (e, b @ w)" by auto
      then obtain h v where h: "a = h # v" "h \<noteq> quote" using Cons False by (cases a) auto
      have "scan_string (a @ b @ w) = Some (x, w)" for w
        using a(3)[of w] b(3)[of w] h u(3) by (subst scan_string.simps) simp
      with a b(2) show ?thesis by (intro exI[of _ "a @ b"]) auto
    qed
  qed (use 1(2) in \<open>simp add: scan_string.simps\<close>)
qed

lemma scan_scalar_local:
  assumes "scan_scalar s = Some (tok, r)"
  shows "lit_text tok (consumed s r)"
proof -
  obtain c t where s: "s = c # t" using assms by (auto simp: scan_scalar_def split: list.split_asm)
  show ?thesis
  proof (cases "c = quote")
    case True
    with assms s obtain x where x: "scan_string t = Some (x, r)" "tok = TStr x" by (auto simp: scan_scalar_def)
    from scan_string_local[OF x(1)] obtain b where "t = b @ r" "\<And>w. scan_string (b @ w) = Some (x, w)" by blast
    with x(2) True s show ?thesis by (simp add: lit_text_def scan_scalar_def)
  next
    case False
    have "html_raw (consumed s r) = consumed s r"
    proof (cases "c = CHR ''-'' \<or> is_digit c")
      case True
      with assms s False obtain x where x: "scan_number s = Some (x, r)" by (auto simp: scan_scalar_def)
      note n = scan_number_text[OF x]
      then have "\<forall>c \<in> set x. byte c < 0x80 \<and> \<not> special c" by (fastforce simp: is_digit_def byte_def special_def)
      with n html_raw_ascii[of x] consumed_append(1)[of x r] show ?thesis by simp
    next
      case num: False
      from assms s False num obtain p where p: "p \<in> {''true'', ''false'', ''null''}" "strip_prefix p s = Some r"
        by (auto simp: scan_scalar_def split: if_split_asm)
      then have "\<forall>c \<in> set p. byte c < 0x80 \<and> \<not> special c" "p \<noteq> []" using keyword_ascii by auto
      with keyword_text[OF p(2), of "[]"] consumed_append(1)[of p r] show ?thesis by auto
    qed
    with scan_scalar_text[OF assms] show ?thesis by simp
  qed
qed

lemma scan_scalar_split:
  assumes "scan_scalar s = Some (tok, r)"
  shows "\<exists>x. s = x @ r"
proof -
  obtain c t where s: "s = c # t" using assms by (auto simp: scan_scalar_def split: list.split_asm)
  consider (str) x where "c = quote" "scan_string t = Some (x, r)" | (num) x where "scan_number s = Some (x, r)"
    | (kw) p where "p \<in> {''true'', ''false'', ''null''}" "strip_prefix p s = Some r"
    using assms by (auto simp: scan_scalar_def s split: if_split_asm)
  then show ?thesis
  proof cases
    case (str x)
    with scan_string_local[OF str(2)] s show ?thesis by (metis append_Cons)
  next
    case (num x)
    with scan_number_text[OF num] show ?thesis by blast
  next
    case (kw p)
    then show ?thesis using keyword_text[OF kw(2), of "[]"] keyword_ascii by auto
  qed
qed

section \<open>The text of a value on its own\<close>

definition read_at :: "nat \<Rightarrow> jtree \<Rightarrow> bool" where
  "read_at d t = (\<exists>f s r. parse_tree f d s = Some (t, r))"

lemma read_atI: "parse_tree f d s = Some (t, r) \<Longrightarrow> read_at d t"
  by (auto simp: read_at_def)

lemma read_at_text: "read_at d t \<Longrightarrow> text_of d t (compact t)"
  using parse_text(1) by (auto simp: read_at_def)

lemma skip_ws_split: "\<exists>ws. s = ws @ skip_ws s \<and> (\<forall>c \<in> set ws. is_space c)"
  by (intro exI[of _ "takeWhile is_space s"]) (auto simp: skip_ws_def dest: set_takeWhileD)

lemma skip_ws_append: "\<forall>c \<in> set ws. is_space c \<Longrightarrow> skip_ws (ws @ s) = skip_ws s"
  by (simp add: skip_ws_def dropWhile_append2)

lemma skip_ws_lead: "skip_ws p = c # q \<Longrightarrow> skip_ws (p @ w) = c # q @ w"
proof -
  assume a: "skip_ws p = c # q"
  then have "\<not> is_space c" unfolding skip_ws_def by (metis hd_dropWhile list.distinct(1) list.sel(1))
  moreover obtain ws where "p = ws @ c # q" "\<forall>x \<in> set ws. is_space x" using skip_ws_split[of p] a by auto
  ultimately show ?thesis by (simp add: skip_ws_append skip_ws_id)
qed

text \<open>The white space and the character that \<open>next_is\<close> passes.\<close>

lemma next_is_split:
  assumes "next_is c s = Some t"
  shows "\<exists>ws. s = ws @ c # t \<and> (\<forall>x \<in> set ws. is_space x) \<and> \<not> is_space c \<and> (\<forall>w x. next_is x (ws @ c # w) = (if c = x then Some w else None)) \<and>
    (c \<in> {CHR '','', CHR '']'', CHR ''}''} \<longrightarrow> (\<forall>w. ends (ws @ c # w)))"
proof -
  have h: "skip_ws s = c # t" using assms by (auto simp: next_is_def split: list.split_asm if_split_asm)
  then have n: "\<not> is_space c" unfolding skip_ws_def by (metis hd_dropWhile list.distinct(1) list.sel(1))
  obtain ws where ws: "s = ws @ c # t" "\<forall>x \<in> set ws. is_space x" using skip_ws_split[of s] h by auto
  have "next_is x (ws @ c # w) = (if c = x then Some w else None)" for w x
    using ws(2) n by (simp add: next_is_def skip_ws_append skip_ws_id)
  moreover have "ends (ws @ c # w)" if "c \<in> {CHR '','', CHR '']'', CHR ''}''}" for w
    using that ws(2) by (cases ws) (auto simp: ends_def)
  ultimately show ?thesis using ws n by blast
qed

definition alone :: "nat \<Rightarrow> bytes \<Rightarrow> jtree \<Rightarrow> bytes \<Rightarrow> bool" where
  "alone d s t r = (\<exists>p. skip_ws s = p @ r \<and> tree_raw t = p \<and> p \<noteq> [] \<and> \<not> is_space (hd p) \<and>
     (\<forall>w d' g. ends w \<longrightarrow> d' \<le> d \<longrightarrow> 2 * length (p @ w) + 1 \<le> g \<longrightarrow> parse_tree g d' (p @ w) = Some (t, w)))"

lemma alone_tok:
  assumes "skip_ws s = c # u" "scan_scalar (c # u) = Some (tok, r)"
  shows "alone d s (JTok tok (consumed (c # u) r)) r"
proof -
  let ?p = "consumed (c # u) r"
  note l = scan_scalar_local[OF assms(2)]
  obtain y ys where p: "?p = y # ys" using l by (cases ?p) (auto simp: lit_text_def)
  have "c # u = ?p @ r"
  proof -
    have "length r \<le> length (c # u)" using scan_scalar_length[OF assms(2)] by simp
    moreover have "\<exists>x. c # u = x @ r" using scan_scalar_split[OF assms(2)] by blast
    ultimately show ?thesis using consumed_append(1) by metis
  qed
  moreover have "parse_tree g d' (?p @ w) = Some (JTok tok ?p, w)" if w: "ends w" and g: "2 * length (?p @ w) + 1 \<le> g" for w d' g
  proof -
    obtain h where h: "g = Suc h" using g by (cases g) auto
    have "skip_ws (?p @ w) = ?p @ w" using l by (intro skip_ws_id) (auto simp: lit_text_def)
    moreover have "scan_scalar (?p @ w) = Some (tok, w)" "y \<noteq> CHR ''[''" "y \<noteq> CHR ''{''" using l w p by (auto simp: lit_text_def)
    ultimately show ?thesis unfolding h parse_tree.simps Let_def by (simp add: p)
  qed
  ultimately show ?thesis using assms(1) l unfolding alone_def by (intro exI[of _ ?p]) (auto simp: lit_text_def)
qed

lemma alone_bracket:
  assumes "skip_ws s = c # p @ r" "c = CHR ''['' \<or> c = CHR ''{''" "tree_raw t = c # p"
    and "\<And>w d' h. d' \<le> d \<Longrightarrow> 2 * length (p @ w) + 2 \<le> h \<Longrightarrow> parse_tree (Suc h) d' (c # p @ w) = Some (t, w)"
  shows "alone d s t r"
  unfolding alone_def
proof (intro exI[of _ "c # p"] conjI allI impI)
  fix w d' g assume "ends w" "d' \<le> d" and g: "2 * length ((c # p) @ w) + 1 \<le> g"
  then obtain h where "g = Suc h" "2 * length (p @ w) + 2 \<le> h" by (cases g) auto
  with assms(4)[OF \<open>d' \<le> d\<close>, of w h] show "parse_tree g d' ((c # p) @ w) = Some (t, w)" by simp
qed (use assms(1-3) in auto)

lemma parse_tree_ws: "skip_ws s = skip_ws s' \<Longrightarrow> parse_tree f d s = parse_tree f d s'"
  by (cases f) (simp_all add: Let_def)

lemma parse_alone:
  "parse_tree f d s = Some (t, r) \<Longrightarrow> alone d s t r"
  "parse_items f d s = Some (ts, r) \<Longrightarrow> \<exists>p. s = p @ r \<and> skip_ws p \<noteq> [] \<and>
     (\<forall>w d' g. d' \<le> d \<longrightarrow> 2 * length (p @ w) + 2 \<le> g \<longrightarrow> parse_items g d' (p @ w) = Some (ts, w))"
  "parse_fields f d s = Some (ms, r) \<Longrightarrow> \<exists>p. s = p @ r \<and> skip_ws p \<noteq> [] \<and>
     (\<forall>w d' g. d' \<le> d \<longrightarrow> 2 * length (p @ w) + 2 \<le> g \<longrightarrow> parse_fields g d' (p @ w) = Some (ms, w))"
proof (induction f d s and f d s and f d s arbitrary: t r and ts r and ms r rule: parse_tree_parse_items_parse_fields.induct)
  case (2 f d s)
  show ?case
  proof (cases "skip_ws s")
    case (Cons c u)
    consider (arr) "c = CHR ''[''" | (obj) "c = CHR ''{''" | (tok) "c \<noteq> CHR ''[''" "c \<noteq> CHR ''{''" by blast
    then show ?thesis
    proof cases
      case arr
      with 2(3) Cons have d: "\<not> maxNestingDepth \<le> d" by (auto split: if_split_asm simp: Let_def)
      show ?thesis
      proof (cases "next_is (CHR '']'') u")
        case (Some x)
        with 2(3) Cons arr d have r: "r = x" "t = JArr (consumed (c # u) x) []" by (auto simp: Let_def)
        from next_is_split[OF Some] obtain ws where ws: "u = ws @ CHR '']'' # x" "\<forall>w y. next_is y (ws @ CHR '']'' # w) = (if CHR '']'' = y then Some w else None)" by auto
        have c: "consumed (c # ws @ CHR '']'' # w) w = c # ws @ '']''" for w using consumed_bracket by simp
        show ?thesis by (rule alone_bracket[of s c "ws @ '']''"])
           (use Cons ws arr r d c in \<open>auto simp: parse_tree_open skip_ws_id Let_def simp del: parse_tree.simps\<close>)
      next
        case None
        with 2(3) Cons arr d obtain ts where ts: "parse_items f (Suc d) u = Some (ts, r)" "t = JArr (consumed (c # u) r) ts"
          by (auto simp: Let_def)
        from 2(1)[OF refl Cons arr d None ts(1)] obtain p where p: "u = p @ r" "skip_ws p \<noteq> []"
          "\<And>w d' g. d' \<le> Suc d \<Longrightarrow> 2 * length (p @ w) + 2 \<le> g \<Longrightarrow> parse_items g d' (p @ w) = Some (ts, w)" by blast
        obtain y q where y: "skip_ws p = y # q" using p(2) by (cases "skip_ws p") auto
        have n: "next_is (CHR '']'') (p @ w) = None" for w
          using None skip_ws_lead[OF y] by (simp add: next_is_def p(1) split: if_split_asm)
        show ?thesis by (rule alone_bracket[of s c p])
           (use Cons p(1) arr ts(2) d n p(3)[of "Suc _"] in \<open>auto simp: parse_tree_open simp del: parse_tree.simps\<close>)
      qed
    next
      case obj
      with 2(3) Cons have d: "\<not> maxNestingDepth \<le> d" by (auto split: if_split_asm simp: Let_def)
      show ?thesis
      proof (cases "next_is (CHR ''}'') u")
        case (Some x)
        with 2(3) Cons obj d have r: "r = x" "t = JObj (consumed (c # u) x) []" by (auto simp: Let_def)
        from next_is_split[OF Some] obtain ws where ws: "u = ws @ CHR ''}'' # x" "\<forall>w y. next_is y (ws @ CHR ''}'' # w) = (if CHR ''}'' = y then Some w else None)" by auto
        have c: "consumed (c # ws @ CHR ''}'' # w) w = c # ws @ ''}''" for w using consumed_bracket by simp
        show ?thesis by (rule alone_bracket[of s c "ws @ ''}''"])
           (use Cons ws obj r d c in \<open>auto simp: parse_tree_open skip_ws_id Let_def simp del: parse_tree.simps\<close>)
      next
        case None
        with 2(3) Cons obj d obtain ms where ms: "parse_fields f (Suc d) u = Some (ms, r)" "t = JObj (consumed (c # u) r) ms"
          by (auto simp: Let_def)
        have "c \<noteq> CHR ''[''" using obj by simp
        from 2(2)[OF refl Cons this obj d None ms(1)] obtain p where p: "u = p @ r" "skip_ws p \<noteq> []"
          "\<And>w d' g. d' \<le> Suc d \<Longrightarrow> 2 * length (p @ w) + 2 \<le> g \<Longrightarrow> parse_fields g d' (p @ w) = Some (ms, w)" by blast
        obtain y q where y: "skip_ws p = y # q" using p(2) by (cases "skip_ws p") auto
        have n: "next_is (CHR ''}'') (p @ w) = None" for w
          using None skip_ws_lead[OF y] by (simp add: next_is_def p(1) split: if_split_asm)
        show ?thesis by (rule alone_bracket[of s c p])
           (use Cons p(1) obj ms(2) d n p(3)[of "Suc _"] in \<open>auto simp: parse_tree_open simp del: parse_tree.simps\<close>)
      qed
    next
      case tok
      with 2(3) Cons obtain k where k: "scan_scalar (c # u) = Some (k, r)" "t = JTok k (consumed (c # u) r)" by (auto simp: Let_def)
      with alone_tok[OF Cons k(1)] show ?thesis by simp
    qed
  qed (use 2(3) in \<open>simp add: Let_def\<close>)
next
  case (4 f d s)
  from 4(3) obtain v r0 where v: "parse_tree f d s = Some (v, r0)" by (auto split: option.split_asm)
  from 4(1)[OF v] obtain pv ws where pv: "s = ws @ pv @ r0" "\<forall>c \<in> set ws. is_space c" "pv \<noteq> []" "\<not> is_space (hd pv)"
    "\<And>w d' g. ends w \<Longrightarrow> d' \<le> d \<Longrightarrow> 2 * length (pv @ w) + 1 \<le> g \<Longrightarrow> parse_tree g d' (pv @ w) = Some (v, w)"
    using skip_ws_split[of s] unfolding alone_def by metis
  have tr: "parse_tree h d' (ws @ pv @ w) = Some (v, w)" if "ends w" "d' \<le> d" "2 * length (pv @ w) + 1 \<le> h" for w d' h
    using pv(5)[OF that] parse_tree_ws[of "ws @ pv @ w" "pv @ w" h d'] pv(2) by (simp add: skip_ws_append)
  have ne: "skip_ws (ws @ pv @ x) \<noteq> []" for x using pv(2-4) by (simp add: skip_ws_append skip_ws_id)
  show ?case
  proof (cases "next_is (CHR '','') r0")
    case (Some r1)
    with 4(3) v obtain vs where vs: "parse_items f d r1 = Some (vs, r)" "ts = v # vs" by auto
    from next_is_split[OF Some] obtain ws2 where w2: "r0 = ws2 @ CHR '','' # r1"
      "\<And>w. next_is (CHR '','') (ws2 @ CHR '','' # w) = Some w" "\<And>w. ends (ws2 @ CHR '','' # w)" by auto
    from 4(2)[OF v refl Some vs(1)] obtain p where p: "r1 = p @ r"
      "\<And>w d' g. d' \<le> d \<Longrightarrow> 2 * length (p @ w) + 2 \<le> g \<Longrightarrow> parse_items g d' (p @ w) = Some (vs, w)" by blast
    let ?p = "ws @ pv @ ws2 @ CHR '','' # p"
    have "parse_items g d' (?p @ w) = Some (ts, w)" if d: "d' \<le> d" and g: "2 * length (?p @ w) + 2 \<le> g" for w d' g
    proof -
      obtain h where h: "g = Suc h" using g by (cases g) auto
      have "parse_tree h d' (ws @ pv @ ws2 @ CHR '','' # p @ w) = Some (v, ws2 @ CHR '','' # p @ w)"
        by (rule tr[OF w2(3) d]) (use g h in simp)
      moreover have "parse_items h d' (p @ w) = Some (vs, w)" by (rule p(2)[OF d]) (use g h in simp)
      ultimately show ?thesis using w2(2)[of "p @ w"] h vs(2) by simp
    qed
    with pv(1) w2(1) p(1) ne show ?thesis by (intro exI[of _ ?p]) auto
  next
    case None
    with 4(3) v have c: "next_is (CHR '']'') r0 = Some r" "ts = [v]" by auto
    from next_is_split[OF c(1)] obtain ws2 where w2: "r0 = ws2 @ CHR '']'' # r"
      "\<And>w x. next_is x (ws2 @ CHR '']'' # w) = (if CHR '']'' = x then Some w else None)" "\<And>w. ends (ws2 @ CHR '']'' # w)" by auto
    let ?p = "ws @ pv @ ws2 @ '']''"
    have "parse_items g d' (?p @ w) = Some (ts, w)" if d: "d' \<le> d" and g: "2 * length (?p @ w) + 2 \<le> g" for w d' g
    proof -
      obtain h where h: "g = Suc h" using g by (cases g) auto
      have "parse_tree h d' (ws @ pv @ ws2 @ CHR '']'' # w) = Some (v, ws2 @ CHR '']'' # w)"
        by (rule tr[OF w2(3) d]) (use g h in simp)
      then show ?thesis using w2(2) h c(2) by simp
    qed
    with pv(1) w2(1) ne show ?thesis by (intro exI[of _ ?p]) auto
  qed
next
  case (6 f d s)
  from 6(3) obtain k q0 where k: "\<not> (skip_ws s = [] \<or> hd (skip_ws s) \<noteq> quote)" "scan_string (tl (skip_ws s)) = Some (k, q0)"
    by (auto simp: Let_def split: if_split_asm option.split_asm)
  from 6(3) k obtain q1 v r0 where v: "next_is (CHR '':'') q0 = Some q1" "parse_tree f d q1 = Some (v, r0)"
    by (auto simp: Let_def split: option.split_asm)
  have q: "skip_ws s = quote # tl (skip_ws s)" using k(1) by (cases "skip_ws s") auto
  obtain ws0 where ws0: "s = ws0 @ quote # tl (skip_ws s)" "\<forall>c \<in> set ws0. is_space c" using skip_ws_split[of s] q by metis
  from scan_string_local[OF k(2)] obtain b where b: "tl (skip_ws s) = b @ q0" "\<And>w. scan_string (b @ w) = Some (k, w)" by blast
  from next_is_split[OF v(1)] obtain ws1 where w1: "q0 = ws1 @ CHR '':'' # q1" "\<And>w. next_is (CHR '':'') (ws1 @ CHR '':'' # w) = Some w" by auto
  from 6(1)[OF refl k(1,2) refl v] obtain pv ws where pv: "q1 = ws @ pv @ r0" "\<forall>c \<in> set ws. is_space c"
    "\<And>w d' g. ends w \<Longrightarrow> d' \<le> d \<Longrightarrow> 2 * length (pv @ w) + 1 \<le> g \<Longrightarrow> parse_tree g d' (pv @ w) = Some (v, w)"
    using skip_ws_split[of q1] unfolding alone_def by metis
  have tr: "parse_tree h d' (ws @ pv @ w) = Some (v, w)" if "ends w" "d' \<le> d" "2 * length (pv @ w) + 1 \<le> h" for w d' h
    using pv(3)[OF that] parse_tree_ws[of "ws @ pv @ w" "pv @ w" h d'] pv(2) by (simp add: skip_ws_append)
  let ?lead = "ws0 @ quote # b @ ws1 @ CHR '':'' # ws @ pv"
  have lead: "s = ?lead @ r0" using ws0(1) b(1) w1(1) pv(1) by simp
  have ne: "skip_ws (?lead @ x) \<noteq> []" for x using ws0(2) by (simp add: skip_ws_append skip_ws_id)
  have rk: "consumed (skip_ws s) q0 = quote # b" using q b(1) by simp
  have step: "parse_fields (Suc h) d' (?lead @ w) =
      (case next_is (CHR '','') w of
         Some r2 \<Rightarrow> map_option (\<lambda>(ms, r3). ((quote # b, k, v) # ms, r3)) (parse_fields h d' r2)
       | None \<Rightarrow> map_option (\<lambda>r2. ([(quote # b, k, v)], r2)) (next_is (CHR ''}'') w))"
    if "ends w" "d' \<le> d" "2 * length (pv @ w) + 1 \<le> h" for w d' h
  proof -
    have "skip_ws (?lead @ w) = quote # b @ ws1 @ CHR '':'' # ws @ pv @ w" using ws0(2) by (simp add: skip_ws_append skip_ws_id)
    then show ?thesis unfolding parse_fields.simps Let_def
      using b(2)[of "ws1 @ CHR '':'' # ws @ pv @ w"] w1(2)[of "ws @ pv @ w"] tr[OF that] by (auto split: option.split)
  qed
  show ?case
  proof (cases "next_is (CHR '','') r0")
    case (Some r1)
    with 6(3) k v obtain ms1 where ms: "parse_fields f d r1 = Some (ms1, r)" "ms = (quote # b, k, v) # ms1" by (auto simp: Let_def rk)
    from next_is_split[OF Some] obtain ws2 where w2: "r0 = ws2 @ CHR '','' # r1"
      "\<And>w. next_is (CHR '','') (ws2 @ CHR '','' # w) = Some w" "\<And>w. ends (ws2 @ CHR '','' # w)" by auto
    from 6(2)[OF refl k(1,2) refl v refl Some ms(1)] obtain p where p: "r1 = p @ r"
      "\<And>w d' g. d' \<le> d \<Longrightarrow> 2 * length (p @ w) + 2 \<le> g \<Longrightarrow> parse_fields g d' (p @ w) = Some (ms1, w)" by blast
    let ?p = "?lead @ ws2 @ CHR '','' # p"
    have "parse_fields g d' (?p @ w) = Some (ms, w)" if d: "d' \<le> d" and g: "2 * length (?p @ w) + 2 \<le> g" for w d' g
    proof -
      obtain h where h: "g = Suc h" using g by (cases g) auto
      have "2 * length (pv @ ws2 @ CHR '','' # p @ w) + 1 \<le> h" using g h by simp
      from step[OF w2(3) d this] p(2)[OF d, of w h] w2(2)[of "p @ w"] g h ms(2) show ?thesis by simp
    qed
    moreover have "s = ?p @ r" using lead w2(1) p(1) by simp
    ultimately show ?thesis using ne[of "ws2 @ CHR '','' # p"] by (intro exI[of _ ?p]) auto
  next
    case None
    with 6(3) k v have c: "next_is (CHR ''}'') r0 = Some r" "ms = [(quote # b, k, v)]" by (auto simp: Let_def rk)
    from next_is_split[OF c(1)] obtain ws2 where w2: "r0 = ws2 @ CHR ''}'' # r"
      "\<And>w x. next_is x (ws2 @ CHR ''}'' # w) = (if CHR ''}'' = x then Some w else None)" "\<And>w. ends (ws2 @ CHR ''}'' # w)" by auto
    let ?p = "?lead @ ws2 @ ''}''"
    have "parse_fields g d' (?p @ w) = Some (ms, w)" if d: "d' \<le> d" and g: "2 * length (?p @ w) + 2 \<le> g" for w d' g
    proof -
      obtain h where h: "g = Suc h" using g by (cases g) auto
      have "2 * length (pv @ ws2 @ CHR ''}'' # w) + 1 \<le> h" using g h by simp
      from step[OF w2(3) d this] w2(2) h c(2) show ?thesis by simp
    qed
    moreover have "s = ?p @ r" using lead w2(1) by simp
    ultimately show ?thesis using ne[of "ws2 @ ''}''"] by (intro exI[of _ ?p]) auto
  qed
qed simp_all

section \<open>Documents and their members\<close>

lemma parse_tree_cases:
  assumes "parse_tree f d s = Some (t, r)"
  obtains (tok) c u tok raw where "skip_ws s = c # u" "scan_scalar (c # u) = Some (tok, r)" "t = JTok tok raw"
  | (arr0) u raw where "skip_ws s = CHR ''['' # u" "next_is (CHR '']'') u = Some r" "t = JArr raw []"
  | (arr) g u raw ts where "f = Suc g" "skip_ws s = CHR ''['' # u" "next_is (CHR '']'') u = None" "parse_items g (Suc d) u = Some (ts, r)" "t = JArr raw ts"
  | (obj0) u raw where "skip_ws s = CHR ''{'' # u" "next_is (CHR ''}'') u = Some r" "t = JObj raw []"
  | (obj) g u raw ms where "f = Suc g" "skip_ws s = CHR ''{'' # u" "next_is (CHR ''}'') u = None" "parse_fields g (Suc d) u = Some (ms, r)" "t = JObj raw ms"
proof -
  obtain g where g: "f = Suc g" using assms by (cases f) auto
  obtain c u where c: "skip_ws s = c # u" using assms g by (cases "skip_ws s") (auto simp: Let_def)
  consider "c = CHR ''[''" | "c = CHR ''{''" | "c \<noteq> CHR ''[''" "c \<noteq> CHR ''{''" by blast
  then show thesis
  proof cases
    case 1
    with assms g c show thesis using arr0 arr by (cases "next_is (CHR '']'') u") (auto simp: Let_def split: if_split_asm)
  next
    case 2
    with assms g c show thesis using obj0 obj by (cases "next_is (CHR ''}'') u") (auto simp: Let_def split: if_split_asm)
  next
    case 3
    with assms g c show thesis using tok by (auto simp: Let_def)
  qed
qed

lemma parse_fields_cases:
  assumes "parse_fields f d s = Some (ms, r)"
  obtains g t rk k r0 r1 v r2 where "f = Suc g" "skip_ws s = quote # t" "scan_string t = Some (k, r0)" "next_is (CHR '':'') r0 = Some r1"
    "parse_tree g d r1 = Some (v, r2)"
    "(\<exists>r3 ms1. next_is (CHR '','') r2 = Some r3 \<and> parse_fields g d r3 = Some (ms1, r) \<and> ms = (rk, k, v) # ms1) \<or>
     (next_is (CHR '','') r2 = None \<and> next_is (CHR ''}'') r2 = Some r \<and> ms = [(rk, k, v)])"
proof -
  obtain g where g: "f = Suc g" using assms by (cases f) auto
  obtain t where t: "skip_ws s = quote # t" using assms g by (cases "skip_ws s") (auto simp: Let_def split: if_split_asm)
  obtain k r0 where k: "scan_string t = Some (k, r0)" using assms g t by (auto simp: Let_def split: option.split_asm)
  obtain r1 v r2 where v: "next_is (CHR '':'') r0 = Some r1" "parse_tree g d r1 = Some (v, r2)"
    using assms g t k by (auto simp: Let_def split: option.split_asm)
  show thesis
    by (rule that[OF g t k v, of "consumed (skip_ws s) r0"]) (use assms g t k v in \<open>auto simp: Let_def split: option.split_asm\<close>)
qed

lemma parse_items_cases:
  assumes "parse_items f d s = Some (ts, r)"
  obtains g v r0 where "f = Suc g" "parse_tree g d s = Some (v, r0)"
    "(\<exists>r1 vs. next_is (CHR '','') r0 = Some r1 \<and> parse_items g d r1 = Some (vs, r) \<and> ts = v # vs) \<or>
     (next_is (CHR '','') r0 = None \<and> next_is (CHR '']'') r0 = Some r \<and> ts = [v])"
proof -
  obtain g where g: "f = Suc g" using assms by (cases f) auto
  obtain v r0 where v: "parse_tree g d s = Some (v, r0)" using assms g by (auto split: option.split_asm)
  show thesis by (rule that[OF g v]) (use assms g v in \<open>auto split: option.split_asm\<close>)
qed

definition names :: "(bytes \<times> bytes \<times> jtree) list \<Rightarrow> bytes list" where
  "names ms = map (\<lambda>m. fst (snd m)) ms"

lemma parse_json_read: "parse_json raw = Some t \<Longrightarrow> read_at 0 t"
  using parse_json_tree read_atI by blast

lemma read_alone: "read_at d t \<Longrightarrow> parse_json (tree_raw t) = Some t"
proof -
  assume "read_at d t"
  then obtain f s r where "parse_tree f d s = Some (t, r)" by (auto simp: read_at_def)
  from parse_alone(1)[OF this] have "\<forall>w d' g. ends w \<longrightarrow> d' \<le> d \<longrightarrow> 2 * length (tree_raw t @ w) + 1 \<le> g \<longrightarrow> parse_tree g d' (tree_raw t @ w) = Some (t, w)"
    unfolding alone_def by blast
  from this[rule_format, of "[]" 0 "2 * length (tree_raw t) + 2"] have "parse_tree (2 * length (tree_raw t) + 2) 0 (tree_raw t) = Some (t, [])"
    by (simp del: parse_tree.simps)
  then show ?thesis by (simp add: parse_json_def skip_ws_def del: parse_tree.simps)
qed

lemma read_object_members:
  assumes "read_at d (JObj rt ms)" "m \<in> set ms"
  shows "read_at (Suc d) (snd (snd m)) \<and> ValidString (fst (snd m))"
proof -
  have f: "parse_fields f d' s = Some (ms, r) \<Longrightarrow> m \<in> set ms \<Longrightarrow> read_at d' (snd (snd m)) \<and> ValidString (fst (snd m))" for f d' s ms r
  proof (induction f arbitrary: s ms)
    case (Suc f)
    from Suc.prems(1) show ?case
    proof (cases rule: parse_fields_cases)
      case (1 g t rk k r0 r1 v r2)
      with Suc.IH Suc.prems(2) read_atI[OF 1(5)] scan_string_valid[OF 1(3)] show ?thesis by auto
    qed
  qed simp
  from assms(1) obtain g s r where "parse_tree g d s = Some (JObj rt ms, r)" by (auto simp: read_at_def)
  then show ?thesis using assms(2) f by (cases rule: parse_tree_cases) auto
qed

lemma text_parses:
  assumes "text_of d t tx"
  shows "\<exists>t'. parse_json tx = Some t' \<and> read_at d t' \<and> plain t' = plain t \<and> tree_raw t' = tx"
proof -
  from readsD[OF text_reads[OF assms], of "[]" "2 * length tx + 1"] obtain t' where
    t: "parse_tree (2 * length tx + 1) d tx = Some (t', [])" "plain t' = plain t" "tree_raw t' = tx" by auto
  from read_atI[OF t(1)] read_alone t show ?thesis by metis
qed

text \<open>An object written member by member is read back with the text of each value.\<close>

lemma members_parse:
  assumes "d < maxNestingDepth" "list_all2 (text_member (Suc d)) ms ps" "tx = CHR ''{'' # comma_join (map member_of ps) @ ''}''"
  shows "\<exists>ms'. parse_json tx = Some (JObj tx ms') \<and> read_at d (JObj tx ms') \<and> same_members ms' ms ps"
proof -
  let ?o = "comma_join (map member_of ps) @ ''}''"
  obtain ms' where m: "parse_tree (2 * length ?o + 3) d tx = Some (JObj tx ms', [])" "same_members ms' ms ps"
  proof (cases "ms = []")
    case True
    with assms have "ps = []" by simp
    with True assms(1,3) show ?thesis using that[of "[]"] consumed_append(1)[of "''{}''" "[]"]
      by (simp add: parse_tree_open numeral_eq_Suc same_members_def del: parse_tree.simps)
  next
    case False
    have l: "list_all2 (reads_member (Suc d)) ms ps"
      using assms(2) by (rule list_all2_mono) (auto simp: reads_member_def text_member_def text_reads)
    have "list_all2 (\<lambda>m x. \<exists>u. x = quote # u) ms (map member_of ps)"
      unfolding list_all2_map2 using l by (rule list_all2_mono) (auto simp: reads_member_def key_text_def member_of_def)
    then have n: "next_is (CHR ''}'') ?o = None" by (rule next_is_items) (use False in auto)
    from fields_read[OF l False, of "[]" "2 * length ?o + 2"] obtain ms' where
      m: "parse_fields (2 * length ?o + 2) (Suc d) ?o = Some (ms', [])" "same_members ms' ms ps" by auto
    have f: "2 * length ?o + 3 = Suc (2 * length ?o + 2)" by simp
    have "parse_tree (2 * length ?o + 3) d tx = Some (JObj tx ms', [])"
      unfolding f assms(3) parse_tree_open(2) using n m(1) assms(1) by (simp add: consumed_bracket del: parse_fields.simps)
    with m(2) show ?thesis by (rule that[rotated])
  qed
  from read_atI[OF m(1)] read_alone m(2) show ?thesis by (metis tree_raw.simps(3))
qed

end
