(* ===== verification/JsonScan.thy ===== *)
theory JsonScan
  imports JsonText
begin

text \<open>
  Scans over the token stream that the gateways make before they decode a request
  (\<open>skipValue\<close> and the loop of \<open>validateCallParams\<close> in src/internal/mcppep/mcppep.go, \<open>scanObject\<close> and
  \<open>walkForKey\<close> in src/internal/a2apep/a2apep.go), and their agreement with the document: on a
  document that reads, a scan that succeeds has seen exactly the members of the object.
\<close>

section \<open>The token stream without UseNumber\<close>

text \<open>Such a decoder converts every number to a \<open>float64\<close> and refuses one that overflows: a magnitude that
  rounds to infinity. (The library stops reading an exponent after 10000; a literal with that many
  fraction digits is outside this description.)\<close>

definition lit_parts :: "string \<Rightarrow> nat \<times> int" where
  "lit_parts s =
     (let body = dropWhile (\<lambda>c. c = CHR ''-'') s; ip = takeWhile is_digit body; r1 = dropWhile is_digit body;
          dot = (r1 \<noteq> [] \<and> hd r1 = CHR ''.''); fp = (if dot then takeWhile is_digit (tl r1) else []);
          r2 = (if dot then dropWhile is_digit (tl r1) else r1); ex = tl r2;
          sg = (ex \<noteq> [] \<and> (hd ex = CHR ''-'' \<or> hd ex = CHR ''+''));
          n = (if r2 = [] then 0 else int (digits_val (if sg then tl ex else ex)));
          e = (if sg \<and> hd ex = CHR ''-'' then - n else n)
      in (digits_val (ip @ fp), e - int (length fp)))"

definition float_overflow :: "string \<Rightarrow> bool" where
  "float_overflow s = (case lit_parts s of (m, e) \<Rightarrow>
     m \<noteq> 0 \<and> m * 10 ^ nat e \<ge> (2 ^ 1024 - 2 ^ 970) * 10 ^ nat (- e))"

definition FToken :: "decoder \<Rightarrow> json_err + jtoken \<times> decoder" where
  "FToken d = bindr (Token d) (\<lambda>(tok, d1).
     case tok of TNum s \<Rightarrow> if float_overflow s then Inl JsonSyntax else Inr (tok, d1) | _ \<Rightarrow> Inr (tok, d1))"

lemma FToken_Token:
  assumes "FToken d = Inr (tok, d')"
  shows "Token d = Inr (tok, d')"
proof -
  from assms obtain t d1 where "Token d = Inr (t, d1)" by (auto simp: FToken_def)
  with assms show ?thesis by (cases t) (auto simp: FToken_def split: if_split_asm)
qed

lemma FToken_length: "FToken d = Inr (tok, d') \<Longrightarrow> length (dc_buf d') < length (dc_buf d)"
  by (rule Token_length[OF FToken_Token])

function skip_rest :: "nat \<Rightarrow> decoder \<Rightarrow> json_err + decoder" where
  "skip_rest 0 d = Inr d"
| "skip_rest (Suc depth) d =
     (case FToken d of
        Inl e \<Rightarrow> Inl e
      | Inr (tok, d1) \<Rightarrow>
          (case tok of
             TDelim c \<Rightarrow> if c = CHR ''{'' \<or> c = CHR ''['' then skip_rest (Suc (Suc depth)) d1 else skip_rest depth d1
           | _ \<Rightarrow> skip_rest (Suc depth) d1))"
  by pat_completeness auto
termination
  by (relation "measure (\<lambda>(n, d). length (dc_buf d))") (auto dest: FToken_length)

definition skipValue :: "decoder \<Rightarrow> json_err + decoder" where
  "skipValue d = bindr (FToken d) (\<lambda>(tok, d1).
     if tok = TDelim CHR ''{'' \<or> tok = TDelim CHR ''['' then skip_rest 1 d1 else Inr d1)"

lemma skip_rest_length: "skip_rest n d = Inr d' \<Longrightarrow> length (dc_buf d') \<le> length (dc_buf d)"
proof (induction n d arbitrary: d' rule: skip_rest.induct)
  case (2 n d)
  from 2(7) obtain tok d1 where t: "FToken d = Inr (tok, d1)" by (auto split: sum.split_asm)
  note l = FToken_length[OF t]
  have "length (dc_buf d') \<le> length (dc_buf d1)"
  proof (cases tok)
    case (TDelim x)
    with 2(1,2)[OF t refl] 2(7) t show ?thesis by (auto split: if_split_asm)
  qed (use 2(3-6)[OF t refl] 2(7) t in auto)
  with l show ?case by linarith
qed simp

lemma skipValue_length:
  assumes "skipValue d = Inr d'"
  shows "length (dc_buf d') < length (dc_buf d)"
proof -
  from assms obtain tok d1 where t: "FToken d = Inr (tok, d1)" "d' = d1 \<or> skip_rest 1 d1 = Inr d'"
    by (auto simp: skipValue_def split: if_split_asm)
  from t(2) have "length (dc_buf d') \<le> length (dc_buf d1)" using skip_rest_length by blast
  with FToken_length[OF t(1)] show ?thesis by linarith
qed

datatype scan_err = ScanAbsent | ScanJson json_err | ScanNotObject | ScanName | ScanDup bytes | ScanUnknown bytes

text \<open>The loop over the members of an object: a repeated name and a name outside the list are refused.\<close>

function scan_members :: "bytes list \<Rightarrow> bytes list \<Rightarrow> decoder \<Rightarrow> scan_err + unit" where
  "scan_members allowed seen d =
     (if More d then
        (case FToken d of
           Inr (TStr key, d1) \<Rightarrow>
             if key \<in> set seen then Inl (ScanDup key)
             else if key \<notin> set allowed then Inl (ScanUnknown key)
             else (case skipValue d1 of Inl e \<Rightarrow> Inl (ScanJson e) | Inr d2 \<Rightarrow> scan_members allowed (key # seen) d2)
         | Inr _ \<Rightarrow> Inl ScanName
         | Inl e \<Rightarrow> Inl (ScanJson e))
      else wrap_err ScanJson (bindr (FToken d) (\<lambda>_. Inr ())))"
  by pat_completeness auto
termination
  by (relation "measure (\<lambda>(al, seen, d). length (dc_buf d))") (auto dest!: FToken_length skipValue_length)

declare scan_members.simps [simp del]

definition scan_object :: "bytes list \<Rightarrow> bytes \<Rightarrow> scan_err + unit" where
  "scan_object allowed raw =
     (if raw = [] then Inl ScanAbsent
      else bindr (wrap_err ScanJson (FToken (NewDecoder raw))) (\<lambda>(tok, d).
        if tok = TDelim CHR ''{'' then scan_members allowed [] d else Inl ScanNotObject))"

section \<open>The scan and the document\<close>

abbreviation at_pos :: "bytes \<Rightarrow> tstate \<Rightarrow> tstate list \<Rightarrow> decoder" where
  "at_pos s st stk \<equiv> \<lparr>dc_buf = s, dc_state = st, dc_stack = stk\<rparr>"

lemma Token_scalar_at:
  assumes "skip_ws s = c # t" "scan_scalar (c # t) = Some (tok, r)" "tokenValueAllowed st"
  shows "Token (at_pos s st stk) = Inr (tok, at_pos r (tokenValueEnd st) stk)"
proof -
  have "c = quote \<or> c = CHR ''-'' \<or> is_digit c \<or> c = CHR ''t'' \<or> c = CHR ''f'' \<or> c = CHR ''n''"
    using assms(2) by (auto simp: scan_scalar_def split: if_split_asm)
  then have "c \<noteq> CHR ''[''" "c \<noteq> CHR '']''" "c \<noteq> CHR ''{''" "c \<noteq> CHR ''}''" "c \<noteq> CHR '':''" "c \<noteq> CHR '',''"
    by (auto simp: is_digit_def)
  moreover have "st \<noteq> ObjectStart" "st \<noteq> ObjectKey" using assms(3) by (auto simp: tokenValueAllowed_def)
  ultimately show ?thesis using assms by (subst Token.simps) (simp add: scalar_token_def)
qed

lemma FToken_key_at:
  assumes "skip_ws s = quote # t" "scan_string t = Some (k, r)" "st = ObjectStart \<or> st = ObjectKey"
  shows "FToken (at_pos s st stk) = Inr (TStr k, at_pos r ObjectColon stk)"
proof -
  have "Token (at_pos s st stk) = Inr (TStr k, at_pos r ObjectColon stk)"
    using assms by (subst Token.simps) (auto simp: scalar_token_def scan_scalar_def)
  then show ?thesis by (simp add: FToken_def)
qed

lemma FToken_open_at:
  assumes "skip_ws s = c # t" "tokenValueAllowed st"
  shows "c = CHR ''['' \<Longrightarrow> FToken (at_pos s st stk) = Inr (TDelim c, at_pos t ArrayStart (st # stk))"
    and "c = CHR ''{'' \<Longrightarrow> FToken (at_pos s st stk) = Inr (TDelim c, at_pos t ObjectStart (st # stk))"
  using assms by (simp_all add: FToken_def Token.simps[of "at_pos s st stk"] open_delim_def)

lemma next_is_skip: "next_is c s = Some t \<Longrightarrow> skip_ws s = c # t"
  by (auto simp: next_is_def split: list.split_asm if_split_asm)

lemma FToken_close_at:
  assumes "next_is c s = Some t"
  shows "c = CHR '']'' \<Longrightarrow> st = ArrayStart \<or> st = ArrayComma \<Longrightarrow> FToken (at_pos s st (up # stk)) = Inr (TDelim c, at_pos t (tokenValueEnd up) stk)"
    and "c = CHR ''}'' \<Longrightarrow> st = ObjectStart \<or> st = ObjectComma \<Longrightarrow> FToken (at_pos s st (up # stk)) = Inr (TDelim c, at_pos t (tokenValueEnd up) stk)"
  using next_is_skip[OF assms] by (auto simp: FToken_def Token.simps[of "at_pos s st (up # stk)"] close_delim_def)

lemma FToken_separator:
  assumes "next_is c s = Some t"
  shows "c = CHR '':'' \<Longrightarrow> FToken (at_pos s ObjectColon stk) = FToken (at_pos t ObjectValue stk)"
    and "c = CHR '','' \<Longrightarrow> FToken (at_pos s ArrayComma stk) = FToken (at_pos t ArrayValue stk)"
    and "c = CHR '','' \<Longrightarrow> FToken (at_pos s ObjectComma stk) = FToken (at_pos t ObjectKey stk)"
  using next_is_skip[OF assms] Token.simps[of "at_pos s ObjectColon stk"] Token.simps[of "at_pos s ArrayComma stk"]
    Token.simps[of "at_pos s ObjectComma stk"]
  by (auto simp: FToken_def separator_def)

lemma skip_rest_FToken: "FToken d = FToken d' \<Longrightarrow> skip_rest (Suc n) d = skip_rest (Suc n) d'"
  by simp

lemma FToken_scalar_at:
  assumes "skip_ws s = c # t" "scan_scalar (c # t) = Some (tok, r)" "tokenValueAllowed st"
  shows "(\<exists>e. FToken (at_pos s st stk) = Inl e) \<or> FToken (at_pos s st stk) = Inr (tok, at_pos r (tokenValueEnd st) stk)"
  using Token_scalar_at[OF assms] by (auto simp: FToken_def split: jtoken.split)

lemma scan_scalar_not_delim: "scan_scalar s = Some (tok, r) \<Longrightarrow> tok \<noteq> TDelim c"
  by (auto simp: scan_scalar_def split: list.split_asm if_split_asm)

text \<open>Skipping inside brackets passes over a whole value, and a closing bracket ends its level.\<close>

lemma skip_values:
  "parse_tree f d s = Some (t, r) \<Longrightarrow> tokenValueAllowed st \<Longrightarrow>
     (\<exists>e. skip_rest (Suc n) (at_pos s st stk) = Inl e) \<or>
     skip_rest (Suc n) (at_pos s st stk) = skip_rest (Suc n) (at_pos r (tokenValueEnd st) stk)"
  "parse_items f d s = Some (ts, r) \<Longrightarrow> st = ArrayStart \<or> st = ArrayValue \<Longrightarrow>
     (\<exists>e. skip_rest (Suc n) (at_pos s st (up # stk)) = Inl e) \<or>
     skip_rest (Suc n) (at_pos s st (up # stk)) = skip_rest n (at_pos r (tokenValueEnd up) stk)"
  "parse_fields f d s = Some (ms, r) \<Longrightarrow> st = ObjectStart \<or> st = ObjectKey \<Longrightarrow>
     (\<exists>e. skip_rest (Suc n) (at_pos s st (up # stk)) = Inl e) \<or>
     skip_rest (Suc n) (at_pos s st (up # stk)) = skip_rest n (at_pos r (tokenValueEnd up) stk)"
proof (induction f d s and f d s and f d s arbitrary: t r n st stk and ts r n st up stk and ms r n st up stk
    rule: parse_tree_parse_items_parse_fields.induct)
  case (2 f d s)
  show ?case
  proof (cases "skip_ws s")
    case (Cons c u)
    consider (arr) "c = CHR ''[''" | (obj) "c = CHR ''{''" | (tok) "c \<noteq> CHR ''[''" "c \<noteq> CHR ''{''" by blast
    then show ?thesis
    proof cases
      case arr
      with 2(3) Cons have d: "\<not> maxNestingDepth \<le> d" by (auto split: if_split_asm simp: Let_def)
      have o: "skip_rest (Suc n) (at_pos s st stk) = skip_rest (Suc (Suc n)) (at_pos u ArrayStart (st # stk))"
        using FToken_open_at(1)[OF Cons 2(4) arr] arr by simp
      show ?thesis
      proof (cases "next_is (CHR '']'') u")
        case (Some x)
        with 2(3) Cons arr d have "r = x" by (auto simp: Let_def)
        with o FToken_close_at(1)[OF Some] show ?thesis by simp
      next
        case None
        with 2(3) Cons arr d obtain ts where ts: "parse_items f (Suc d) u = Some (ts, r)" by (auto simp: Let_def)
        from 2(1)[OF refl Cons arr d None ts, of ArrayStart "Suc n" st stk] o show ?thesis by simp
      qed
    next
      case obj
      with 2(3) Cons have d: "\<not> maxNestingDepth \<le> d" by (auto split: if_split_asm simp: Let_def)
      have o: "skip_rest (Suc n) (at_pos s st stk) = skip_rest (Suc (Suc n)) (at_pos u ObjectStart (st # stk))"
        using FToken_open_at(2)[OF Cons 2(4) obj] obj by simp
      show ?thesis
      proof (cases "next_is (CHR ''}'') u")
        case (Some x)
        with 2(3) Cons obj d have "r = x" by (auto simp: Let_def)
        with o FToken_close_at(2)[OF Some] show ?thesis by simp
      next
        case None
        with 2(3) Cons obj d obtain ms where ms: "parse_fields f (Suc d) u = Some (ms, r)" by (auto simp: Let_def)
        have "c \<noteq> CHR ''[''" using obj by simp
        from 2(2)[OF refl Cons this obj d None ms, of ObjectStart "Suc n" st stk] o show ?thesis by simp
      qed
    next
      case tok
      with 2(3) Cons obtain k where k: "scan_scalar (c # u) = Some (k, r)" by (auto simp: Let_def)
      from FToken_scalar_at[OF Cons k 2(4), of stk] scan_scalar_not_delim[OF k] show ?thesis
        by (cases k) auto
    qed
  qed (use 2(3) in \<open>simp add: Let_def\<close>)
next
  case (4 f d s)
  from 4(3) obtain v r0 where v: "parse_tree f d s = Some (v, r0)" by (auto split: option.split_asm)
  have "tokenValueAllowed st" "tokenValueEnd st = ArrayComma" using 4(4) by (auto simp: tokenValueAllowed_def tokenValueEnd_def)
  with 4(1)[OF v, of st n "up # stk"] have h: "(\<exists>e. skip_rest (Suc n) (at_pos s st (up # stk)) = Inl e) \<or>
     skip_rest (Suc n) (at_pos s st (up # stk)) = skip_rest (Suc n) (at_pos r0 ArrayComma (up # stk))" by simp
  show ?case
  proof (cases "next_is (CHR '','') r0")
    case (Some r1)
    with 4(3) v obtain vs where vs: "parse_items f d r1 = Some (vs, r)" by auto
    note sep = skip_rest_FToken[OF FToken_separator(2)[OF Some refl, of "up # stk"], of n]
    from 4(2)[OF v refl Some vs, of ArrayValue n up stk] h sep show ?thesis by auto
  next
    case None
    with 4(3) v have "next_is (CHR '']'') r0 = Some r" by auto
    from FToken_close_at(1)[OF this refl, of ArrayComma up stk] h show ?thesis by auto
  qed
next
  case (6 f d s)
  from 6(3) obtain k r0 where k: "\<not> (skip_ws s = [] \<or> hd (skip_ws s) \<noteq> quote)" "scan_string (tl (skip_ws s)) = Some (k, r0)"
    by (auto simp: Let_def split: if_split_asm option.split_asm)
  from 6(3) k obtain r1 v r2 where v: "next_is (CHR '':'') r0 = Some r1" "parse_tree f d r1 = Some (v, r2)"
    by (auto simp: Let_def split: option.split_asm)
  have q: "skip_ws s = quote # tl (skip_ws s)" using k(1) by (cases "skip_ws s") auto
  have "skip_rest (Suc n) (at_pos s st (up # stk)) = skip_rest (Suc n) (at_pos r1 ObjectValue (up # stk))"
    using FToken_key_at[OF q k(2) 6(4), of "up # stk"] FToken_separator(1)[OF v(1) refl, of "up # stk"] by simp
  with 6(1)[OF refl k(1,2) refl v, of ObjectValue n "up # stk"] have h: "(\<exists>e. skip_rest (Suc n) (at_pos s st (up # stk)) = Inl e) \<or>
     skip_rest (Suc n) (at_pos s st (up # stk)) = skip_rest (Suc n) (at_pos r2 ObjectComma (up # stk))"
    by (auto simp: tokenValueAllowed_def tokenValueEnd_def simp del: skip_rest.simps)
  show ?case
  proof (cases "next_is (CHR '','') r2")
    case (Some r3)
    with 6(3) k v obtain ms1 where ms: "parse_fields f d r3 = Some (ms1, r)" by (auto simp: Let_def)
    note sep = skip_rest_FToken[OF FToken_separator(3)[OF Some refl, of "up # stk"], of n]
    from 6(2)[OF refl k(1,2) refl v refl Some ms, of ObjectKey n up stk] h sep show ?thesis by auto
  next
    case None
    with 6(3) k v have "next_is (CHR ''}'') r2 = Some r" by (auto simp: Let_def)
    from FToken_close_at(2)[OF this refl, of ObjectComma up stk] h show ?thesis by auto
  qed
qed simp_all

lemma skipValue_tree:
  assumes "parse_tree f d s = Some (t, r)" "tokenValueAllowed st"
  shows "(\<exists>e. skipValue (at_pos s st stk) = Inl e) \<or> skipValue (at_pos s st stk) = Inr (at_pos r (tokenValueEnd st) stk)"
  using assms(1)
proof (cases rule: parse_tree_cases)
  case (tok c u k)
  have "k \<noteq> TDelim CHR ''{''" "k \<noteq> TDelim CHR ''[''" using scan_scalar_not_delim[OF tok(2)] by auto
  with FToken_scalar_at[OF tok(1,2) assms(2), of stk] show ?thesis by (elim disjE exE) (simp_all add: skipValue_def)
next
  case (arr0 u)
  from FToken_open_at(1)[OF arr0(1) assms(2) refl, of stk] FToken_close_at(1)[OF arr0(2) refl, of ArrayStart st stk]
  show ?thesis by (simp add: skipValue_def)
next
  case (arr g u raw ts)
  from FToken_open_at(1)[OF arr(2) assms(2) refl, of stk] skip_values(2)[OF arr(4), of ArrayStart 0 st stk]
  show ?thesis by (simp add: skipValue_def)
next
  case (obj0 u)
  from FToken_open_at(2)[OF obj0(1) assms(2) refl, of stk] FToken_close_at(2)[OF obj0(2) refl, of ObjectStart st stk]
  show ?thesis by (simp add: skipValue_def)
next
  case (obj g u raw ms)
  from FToken_open_at(2)[OF obj(2) assms(2) refl, of stk] skip_values(3)[OF obj(4), of ObjectStart 0 st stk]
  show ?thesis by (simp add: skipValue_def)
qed

lemma skipValue_FToken: "FToken d = FToken d' \<Longrightarrow> skipValue d = skipValue d'"
  by (simp add: skipValue_def)

lemma More_at: "skip_ws s = c # t \<Longrightarrow> c \<noteq> CHR '']'' \<Longrightarrow> c \<noteq> CHR ''}'' \<Longrightarrow> More (at_pos s st stk)"
  by (simp add: More_def)

lemma scan_members_fields:
  "parse_fields f d s = Some (ms, r) \<Longrightarrow> st = ObjectStart \<or> st = ObjectKey \<Longrightarrow>
   scan_members al seen (at_pos s st (up # stk)) = Inr () \<Longrightarrow>
   distinct (names ms) \<and> set (names ms) \<subseteq> set al \<and> set (names ms) \<inter> set seen = {}"
proof (induction f arbitrary: s ms st seen)
  case (Suc f)
  from Suc.prems(1) show ?case
  proof (cases rule: parse_fields_cases)
    case (1 g t rk k r0 r1 v r2)
    have m: "More (at_pos s st (up # stk))" using More_at[OF 1(2)] by simp
    note t = FToken_key_at[OF 1(2,3) Suc.prems(2), of "up # stk"]
    have k: "k \<notin> set seen" "k \<in> set al"
      using Suc.prems(3) m t by (subst (asm) scan_members.simps; simp split: if_split_asm)+
    have sv: "skipValue (at_pos r0 ObjectColon (up # stk)) = skipValue (at_pos r1 ObjectValue (up # stk))"
      by (rule skipValue_FToken[OF FToken_separator(1)[OF 1(4) refl]])
    from skipValue_tree[OF 1(5), of ObjectValue "up # stk"] sv Suc.prems(3) m t k
    have nx: "scan_members al (k # seen) (at_pos r2 ObjectComma (up # stk)) = Inr ()"
      by (subst (asm) scan_members.simps) (auto simp: tokenValueAllowed_def tokenValueEnd_def)
    from 1(6) show ?thesis
    proof
      assume "\<exists>r3 ms1. next_is (CHR '','') r2 = Some r3 \<and> parse_fields g d r3 = Some (ms1, r) \<and> ms = (rk, k, v) # ms1"
      then obtain r3 ms1 where n: "next_is (CHR '','') r2 = Some r3" "parse_fields g d r3 = Some (ms1, r)" "ms = (rk, k, v) # ms1" by blast
      have "More (at_pos r2 ObjectComma (up # stk))" using More_at[OF next_is_skip[OF n(1)]] by simp
      moreover have "More (at_pos r3 ObjectKey (up # stk))" using n(2) by (cases rule: parse_fields_cases) (simp add: More_at)
      ultimately have "scan_members al (k # seen) (at_pos r3 ObjectKey (up # stk)) = Inr ()"
        using nx FToken_separator(3)[OF n(1) refl, of "up # stk"]
        by (simp add: scan_members.simps[of al "k # seen" "at_pos r2 ObjectComma (up # stk)"]
            scan_members.simps[of al "k # seen" "at_pos r3 ObjectKey (up # stk)"])
      with Suc.IH[of r3 ms1 ObjectKey "k # seen"] n 1(1) k show ?thesis by (auto simp: names_def)
    next
      assume "next_is (CHR '','') r2 = None \<and> next_is (CHR ''}'') r2 = Some r \<and> ms = [(rk, k, v)]"
      with k show ?thesis by (simp add: names_def)
    qed
  qed
qed simp

text \<open>A scan that accepts the text of a document: it is an object, its names are distinct and allowed.\<close>

lemma scan_object_document:
  assumes "scan_object al raw = Inr ()" "parse_json raw = Some t"
  shows "\<exists>rt ms. t = JObj rt ms \<and> distinct (names ms) \<and> set (names ms) \<subseteq> set al"
proof -
  from parse_json_tree[OF assms(2)] obtain r where p: "parse_tree (2 * length raw + 2) 0 raw = Some (t, r)" by blast
  have st: "tokenValueAllowed TopValue" by (simp add: tokenValueAllowed_def)
  from assms(1) obtain d where d: "FToken (at_pos raw TopValue []) = Inr (TDelim CHR ''{'', d)" "scan_members al [] d = Inr ()"
    by (auto simp: scan_object_def NewDecoder_def split: if_split_asm)
  from p show ?thesis
  proof (cases rule: parse_tree_cases)
    case (tok c u k)
    from FToken_scalar_at[OF tok(1,2) st, of "[]"] scan_scalar_not_delim[OF tok(2)] d(1) show ?thesis by auto
  next
    case (obj g u raw ms)
    from FToken_open_at(2)[OF obj(2) st refl, of "[]"] d scan_members_fields[OF obj(4), of ObjectStart al "[]" TopValue "[]"] obj(5)
    show ?thesis by auto
  next
    case (arr0 u)
    from FToken_open_at(1)[OF arr0(1) st refl, of "[]"] d(1) show ?thesis by auto
  next
    case (arr g u raw ts)
    from FToken_open_at(1)[OF arr(2) st refl, of "[]"] d(1) show ?thesis by auto
  qed (auto simp: names_def)
qed

end
