(* ===== verification/JsonObject.thy ===== *)
theory JsonObject
  imports JsonScan JcsRead
begin

text \<open>
  Objects through \<open>json.Marshal\<close> and \<open>json.Unmarshal\<close>: a map of raw values, once written, is read back
  with the same names and the same documents, also after it is embedded and compacted again.
\<close>

section \<open>Members by name\<close>

definition tmap :: "(bytes \<times> bytes \<times> jtree) list \<Rightarrow> jtree gomap" where
  "tmap ms = map snd ms"

lemma fst_tmap: "map fst (tmap ms) = names ms"
  by (simp add: tmap_def names_def)

lemma tmap_None: "map_of (tmap ms) k = None \<longleftrightarrow> k \<notin> set (names ms)"
  unfolding fst_tmap[symmetric] by (simp add: map_of_eq_None_iff)

lemma tmap_simps [simp]: "tmap [] = []" "tmap (m # ms) = snd m # tmap ms"
  by (simp_all add: tmap_def)

text \<open>Two lists of members with the same names and the same documents in the same order.\<close>

definition same_docs :: "(bytes \<times> bytes \<times> jtree) list \<Rightarrow> (bytes \<times> bytes \<times> jtree) list \<Rightarrow> bool" where
  "same_docs ms ms' = (map plain_member ms = map plain_member ms')"

lemma same_docs_sym: "same_docs ms ms' \<Longrightarrow> same_docs ms' ms"
  by (simp add: same_docs_def)

lemma same_docs_trans: "same_docs a b \<Longrightarrow> same_docs b c \<Longrightarrow> same_docs a c"
  by (simp add: same_docs_def)

lemma same_docs_names: "same_docs ms ms' \<Longrightarrow> names ms = names ms'"
proof -
  assume "same_docs ms ms'"
  then have "map (\<lambda>m. fst (snd m)) (map plain_member ms) = map (\<lambda>m. fst (snd m)) (map plain_member ms')" by (simp only: same_docs_def)
  then show ?thesis by (simp add: names_def plain_member_def o_def)
qed

lemma same_docs_lookup:
  "same_docs ms ms' \<Longrightarrow> map_of (tmap ms) k = Some v \<Longrightarrow> \<exists>v'. map_of (tmap ms') k = Some v' \<and> plain v' = plain v"
proof (induction ms arbitrary: ms')
  case (Cons m ms)
  then obtain m' ms1 where "ms' = m' # ms1" "plain_member m = plain_member m'" "same_docs ms ms1" by (cases ms') (auto simp: same_docs_def)
  with Cons show ?case by (cases "snd m"; cases "snd m'") (auto simp: plain_member_def split: if_split_asm)
qed simp

lemma same_docs_None: "same_docs ms ms' \<Longrightarrow> map_of (tmap ms) k = None \<Longrightarrow> map_of (tmap ms') k = None"
  using same_docs_names[of ms ms'] by (simp add: tmap_None)

lemma dec_string_plain: "plain v = plain v' \<Longrightarrow> dec_string v cur = dec_string v' cur"
  by (cases v; cases v') (auto simp: dec_string_def split: jtoken.split)

lemma plain_JObj_cases: "plain v = plain (JObj raw ms) \<Longrightarrow> \<exists>raw' ms'. v = JObj raw' ms' \<and> same_docs ms' ms"
  by (cases v) (auto simp: same_docs_def)

section \<open>Maps of raw values\<close>

lemma rawmap_of_distinct:
  assumes "distinct (names ms)" "\<forall>k \<in> set (names ms). \<not> has_key m k"
  shows "rawmap_of ms m = m @ map (\<lambda>x. (fst (snd x), tree_raw (snd (snd x)))) ms"
  using assms
proof (induction ms arbitrary: m)
  case (Cons x ms)
  obtain rk k v where x: "x = (rk, k, v)" by (cases x) auto
  with Cons.prems have "\<not> has_key m k" by (auto simp: names_def)
  then have p: "put k (tree_raw v) m = m @ [(k, tree_raw v)]" by (rule put_new)
  have "\<forall>k' \<in> set (names ms). \<not> has_key (m @ [(k, tree_raw v)]) k'"
    using Cons.prems x by (auto simp: names_def has_key_def map_add_def split: option.split)
  with Cons.IH[of "m @ [(k, tree_raw v)]"] Cons.prems(1) p x show ?case by (simp add: rawmap_of_def names_def)
qed (simp add: rawmap_of_def)

lemma rawmap_of_keys: "has_key (rawmap_of ms m) k \<longleftrightarrow> has_key m k \<or> k \<in> set (names ms)"
proof (induction ms arbitrary: m)
  case (Cons x ms)
  obtain rk k' v where x: "x = (rk, k', v)" by (cases x) auto
  have "rawmap_of (x # ms) m = rawmap_of ms (put k' (tree_raw v) m)" by (simp add: rawmap_of_def x)
  with Cons[of "put k' (tree_raw v) m"] show ?case by (auto simp: names_def x has_key_def)
qed (simp add: rawmap_of_def names_def)

lemma wf_rawmap_of: "wf_map m \<Longrightarrow> wf_map (rawmap_of ms m)"
  by (induction ms arbitrary: m) (auto simp: rawmap_of_def)

lemma set_put: "p \<in> set (put k v m) \<Longrightarrow> p = (k, v) \<or> p \<in> set m"
proof -
  have "p \<in> set (AList.update k v m) \<Longrightarrow> p = (k, v) \<or> p \<in> set m" by (induction m) (auto split: if_split_asm)
  then show "p \<in> set (put k v m) \<Longrightarrow> p = (k, v) \<or> p \<in> set m" by (simp add: put_def)
qed

lemma rawmap_of_values: "\<forall>x \<in> set ms. P (tree_raw (snd (snd x))) \<Longrightarrow> \<forall>p \<in> set m. P (snd p) \<Longrightarrow> p \<in> set (rawmap_of ms m) \<Longrightarrow> P (snd p)"
proof (induction ms arbitrary: m)
  case (Cons x ms)
  obtain rk k v where x: "x = (rk, k, v)" by (cases x) auto
  have "\<forall>p \<in> set (put k (tree_raw v) m). P (snd p)"
    using Cons.prems(1,2) x by (auto dest!: set_put)
  moreover have "p \<in> set (rawmap_of ms (put k (tree_raw v) m))" using Cons.prems(3) x by (simp add: rawmap_of_def)
  ultimately show ?case using Cons.IH[of "put k (tree_raw v) m"] Cons.prems(1) by simp
qed (simp add: rawmap_of_def)

section \<open>Writing objects\<close>

lemma text_Marshal_string: "ValidString k \<Longrightarrow> text_of d (JTok (TStr k) raw) (Marshal_string k)"
  by (rule text_tok) (simp add: lit_text_def Marshal_string_def scan_scalar_def scan_string_go_body)

lemma Marshal_members_reads:
  assumes "list_all2 (\<lambda>(k, x) t. ValidString k \<and> text_of (Suc d) t x) kts ts" "d < maxNestingDepth"
  shows "\<exists>tx ms. Marshal_members (map (\<lambda>(k, x). (k, Some x)) kts) = Some tx \<and> parse_json tx = Some (JObj tx ms) \<and> read_at d (JObj tx ms) \<and>
    names ms = map fst kts \<and> map (\<lambda>m. tree_raw (snd (snd m))) ms = map snd kts \<and> map (\<lambda>m. plain (snd (snd m))) ms = map plain ts"
proof -
  let ?ms = "map2 (\<lambda>(k, x) t. ([], k, t)) kts ts" and ?ps = "map (\<lambda>(k, x). (Marshal_string k, x)) kts"
  let ?tx = "CHR ''{'' # comma_join (map member_of ?ps) @ ''}''"
  have len: "length kts = length ts" using assms(1) by (rule list_all2_lengthD)
  have "list_all2 (text_member (Suc d)) ?ms ?ps"
    using assms(1) unfolding list_all2_conv_all_nth
    by (auto simp: text_member_def key_text_Marshal case_prod_unfold)
  from members_parse[OF assms(2) this refl] obtain ms where m: "parse_json ?tx = Some (JObj ?tx ms)" "read_at d (JObj ?tx ms)" "same_members ms ?ms ?ps" by blast
  have "\<not> list_ex (\<lambda>(k, v). v = None) (map (\<lambda>(k, x). (k, Some x)) kts)" by (auto simp: list_ex_iff)
  then have "Marshal_members (map (\<lambda>(k, x). (k, Some x)) kts) = Some ?tx"
    by (simp add: Marshal_members_def member_of_def case_prod_unfold o_def)
  moreover have "map plain_member ms = map plain_member ?ms" using m(3) by (simp only: same_members_def)
  then have "map (\<lambda>m. fst (snd m)) (map plain_member ms) = map (\<lambda>m. fst (snd m)) (map plain_member ?ms)"
    "map (\<lambda>m. snd (snd m)) (map plain_member ms) = map (\<lambda>m. snd (snd m)) (map plain_member ?ms)" by simp_all
  then have "names ms = map fst kts" "map (\<lambda>m. plain (snd (snd m))) ms = map plain ts"
    using len by (simp_all add: plain_member_def names_def o_def case_prod_unfold map2_map_map) (simp_all add: map_equality_iff)
  moreover have "map (\<lambda>m. tree_raw (snd (snd m))) ms = map snd kts" using m(3) by (simp add: same_members_def case_prod_unfold o_def)
  ultimately show ?thesis using m(1,2) by blast
qed

lemma set_byte_sorted [simp]: "set (byte_sorted m) = set m"
  by (simp add: byte_sorted_def)

lemma wf_byte_sorted: "wf_map m \<Longrightarrow> wf_map (byte_sorted m)"
proof -
  assume "wf_map m"
  then have "card (set (map fst m)) = length (map fst m)" unfolding wf_map_def by (rule distinct_card)
  then have "card (set (map fst (byte_sorted m))) = length (map fst (byte_sorted m))" by (simp add: byte_sorted_def)
  then show ?thesis unfolding wf_map_def by (rule card_distinct)
qed

lemma map_of_byte_sorted: "wf_map m \<Longrightarrow> map_of (byte_sorted m) = map_of m"
  using wf_byte_sorted[of m] wf_map_lookup[of m] wf_map_lookup[of "byte_sorted m"]
  by (intro ext) (metis not_Some_eq set_byte_sorted)

text \<open>A map whose values are texts of documents at a depth is written as an object with these documents.\<close>

definition holds_docs :: "nat \<Rightarrow> bytes gomap \<Rightarrow> bool" where
  "holds_docs d m = (wf_map m \<and> (\<forall>(k, x) \<in> set m. ValidString k \<and> (\<exists>t. parse_json x = Some t \<and> read_at d t)))"

lemma parse_json_Nil: "parse_json [] = None"
  by (simp add: parse_json_def skip_ws_def numeral_eq_Suc)

lemma Marshal_raw_read: "parse_json x = Some t \<Longrightarrow> Marshal_raw x = Some (compact t)"
  using parse_json_Nil by (auto simp: Marshal_raw_def)

lemma Marshal_rawmap_reads:
  assumes "holds_docs (Suc d) m" "d < maxNestingDepth"
  shows "\<exists>tx ms. Marshal_rawmap m = Some tx \<and> parse_json tx = Some (JObj tx ms) \<and> read_at d (JObj tx ms) \<and>
    distinct (names ms) \<and> set (names ms) = fst ` set m \<and>
    (\<forall>k x t. map_of m k = Some x \<longrightarrow> parse_json x = Some t \<longrightarrow> (\<exists>v. map_of (tmap ms) k = Some v \<and> plain v = plain t))"
proof -
  let ?s = "byte_sorted m"
  define tr where "tr x = the (parse_json x)" for x
  have tr: "ValidString k \<and> parse_json x = Some (tr x) \<and> read_at (Suc d) (tr x)" if "(k, x) \<in> set m" for k x
    using assms(1) that by (fastforce simp: holds_docs_def tr_def)
  let ?kts = "map (\<lambda>(k, x). (k, compact (tr x))) ?s" and ?ts = "map (\<lambda>(k, x). tr x) ?s"
  have "list_all2 (\<lambda>(k, x) t. ValidString k \<and> text_of (Suc d) t x) ?kts ?ts"
    unfolding list_all2_map1 list_all2_map2 using tr by (auto simp: list_all2_same read_at_text)
  from Marshal_members_reads[OF this assms(2)] obtain tx ms where ms: "Marshal_members (map (\<lambda>(k, x). (k, Some x)) ?kts) = Some tx"
    "parse_json tx = Some (JObj tx ms)" "read_at d (JObj tx ms)" "names ms = map fst ?kts" "map (\<lambda>m. plain (snd (snd m))) ms = map plain ?ts" by blast
  have "map (\<lambda>(k, x). (k, Some x)) ?kts = map (\<lambda>(k, v). (k, Marshal_raw v)) ?s"
    using tr Marshal_raw_read by fastforce
  with ms(1) have 1: "Marshal_rawmap m = Some tx" unfolding Marshal_rawmap_def by (simp only:)
  have n: "names ms = map fst ?s" using ms(4) by (simp add: case_prod_unfold o_def)
  have wf: "wf_map m" using assms(1) by (simp add: holds_docs_def)
  then have 2: "distinct (names ms)" "set (names ms) = fst ` set m" using n wf_byte_sorted[OF wf] by (simp_all add: wf_map_def)
  have l: "length ms = length ?s" using n by (metis length_map names_def)
  have "\<exists>v. map_of (tmap ms) k = Some v \<and> plain v = plain t" if k: "map_of m k = Some x" "parse_json x = Some t" for k x t
  proof -
    have "(k, x) \<in> set ?s" using map_of_SomeD[OF k(1)] by simp
    then obtain i where i: "i < length ?s" "?s ! i = (k, x)" unfolding in_set_conv_nth by blast
    then have "fst (snd (ms ! i)) = k" using n l by (metis fst_conv names_def nth_map)
    moreover have "plain (snd (snd (ms ! i))) = plain (tr x)"
      using arg_cong[OF ms(5), of "\<lambda>xs. xs ! i"] i l by (simp add: case_prod_unfold)
    moreover have "snd (ms ! i) \<in> set (tmap ms)" using i l by (auto simp: tmap_def)
    moreover have "wf_map (tmap ms)" using 2(1) fst_tmap[of ms] by (simp add: wf_map_def)
    ultimately have "map_of (tmap ms) k = Some (snd (snd (ms ! i)))" using wf_map_lookup[of "tmap ms"] by (metis prod.collapse)
    with \<open>plain (snd (snd (ms ! i))) = plain (tr x)\<close> k(2) show ?thesis by (simp add: tr_def)
  qed
  with 1 ms(2,3) 2 show ?thesis by blast
qed

lemma read_object_text:
  assumes "read_at d (JObj rt ms)"
  shows "list_all2 (text_member (Suc d)) ms (map member_compact ms)" "d < maxNestingDepth"
proof -
  from assms obtain f s r where "parse_tree f d s = Some (JObj rt ms, r)" by (auto simp: read_at_def)
  then show "list_all2 (text_member (Suc d)) ms (map member_compact ms)" by (cases rule: parse_tree_cases) (auto dest: parse_text(3))
  from read_at_text[OF assms] show "d < maxNestingDepth" by (auto elim: text_of.cases)
qed

text \<open>An embedded object keeps its members under compaction; each value then has its compact text.\<close>

lemma compact_object:
  assumes "read_at d (JObj rt ms)"
  shows "\<exists>ms'. parse_json (compact (JObj rt ms)) = Some (JObj (compact (JObj rt ms)) ms') \<and> read_at d (JObj (compact (JObj rt ms)) ms') \<and> same_docs ms' ms"
  using members_parse[OF read_object_text(2,1)[OF assms] refl] by (auto simp: same_members_def same_docs_def simp del: map_map)

end
