(* ===== verification/McpPep.thy ===== *)
theory McpPep
  imports JsonObject DecisionProps
begin

text \<open>
  The MCP enforcement point (src/internal/mcppep/mcppep.go): JSON-RPC middleware in front of a tool
  server. A \<open>tools/call\<close> is decided by the decision core on the token carried in
  \<open>params._meta\<close>, which is removed before the request is forwarded; a few read-only methods are
  recorded and forwarded as received; everything else is refused. The envelope, the error answer and
  the token scan are shared with the A2A enforcement point, whose source repeats them.

  \<open>Handle\<close> returns the answer, the bytes it forwarded (if any) and the engine. The wrapped server is
  the field \<open>mw_Forward\<close>.
\<close>

section \<open>The envelope\<close>

record rpcRequest =
  rq_Jsonrpc :: string
  rq_ID :: bytes
  rq_Method :: string
  rq_Params :: bytes

definition zero_rpc :: rpcRequest where
  "zero_rpc = \<lparr>rq_Jsonrpc = [], rq_ID = [], rq_Method = [], rq_Params = []\<rparr>"

definition rpc_member :: "bytes \<Rightarrow> jtree \<Rightarrow> rpcRequest \<Rightarrow> bool \<times> rpcRequest" where
  "rpc_member k v r =
     (case struct_field [''jsonrpc'', ''id'', ''method'', ''params''] k of
        None \<Rightarrow> (True, r)
      | Some n \<Rightarrow>
          if n = ''jsonrpc'' then (let (b, s) = dec_string v (rq_Jsonrpc r) in (b, r\<lparr>rq_Jsonrpc := s\<rparr>))
          else if n = ''id'' then (True, r\<lparr>rq_ID := tree_raw v\<rparr>)
          else if n = ''method'' then (let (b, s) = dec_string v (rq_Method r) in (b, r\<lparr>rq_Method := s\<rparr>))
          else (True, r\<lparr>rq_Params := tree_raw v\<rparr>))"

definition Unmarshal_rpc :: "bytes \<Rightarrow> bool \<times> rpcRequest" where
  "Unmarshal_rpc raw = Unmarshal_struct rpc_member zero_rpc raw"

definition Marshal_rpc :: "rpcRequest \<Rightarrow> bytes option" where
  "Marshal_rpc r = Marshal_members
     ([(''jsonrpc'', Some (Marshal_string (rq_Jsonrpc r)))] @
      (if rq_ID r = [] then [] else [(''id'', Marshal_raw (rq_ID r))]) @
      [(''method'', Some (Marshal_string (rq_Method r)))] @
      (if rq_Params r = [] then [] else [(''params'', Marshal_raw (rq_Params r))]))"

definition CodeParse :: int where "CodeParse = - 32700"
definition CodeDenied :: int where "CodeDenied = - 32001"
definition CodeUpstream :: int where "CodeUpstream = - 32002"

definition errorResponse :: "bytes \<Rightarrow> int \<Rightarrow> string \<Rightarrow> bytes option" where
  "errorResponse rid code msg =
     (if rid = [] \<or> rid = ''null'' then None
      else Marshal_members [(''jsonrpc'', Some (Marshal_string ''2.0'')), (''id'', Marshal_raw rid),
        (''error'', Marshal_members [(''code'', Some (int_str code)), (''message'', Some (Marshal_string msg))])])"

section \<open>The middleware\<close>

definition TokenMetaKey :: string where
  "TokenMetaKey = ''spt-txn/token''"

type_synonym forward = "bytes \<Rightarrow> unit + bytes option"

record 'l mcp =
  mw_Engine :: "'l dengine"
  mw_ServerIdentity :: string
  mw_Forward :: forward

definition mcp_New :: "'l dengine option \<Rightarrow> string \<Rightarrow> forward option \<Rightarrow> string + 'l mcp" where
  "mcp_New engine ident fwd =
     bindr (some_or ''decision engine required'' engine) (\<lambda>e.
     bindr (need ''server identity required'' (ident \<noteq> [])) (\<lambda>_.
     bindr (some_or ''forward required'' fwd) (\<lambda>f.
     Inr \<lparr>mw_Engine = e, mw_ServerIdentity = ident, mw_Forward = f\<rparr>)))"

definition mcp_observableMethods :: "string list" where
  "mcp_observableMethods = [''initialize'', ''ping'', ''tools/list'', ''resources/list'', ''resources/templates/list'',
     ''prompts/list'', ''notifications/initialized'', ''notifications/cancelled'', ''notifications/progress'']"

record callParams =
  cp_Name :: string
  cp_Arguments :: bytes
  cp_Meta :: "bytes gomap"

definition call_member :: "bytes \<Rightarrow> jtree \<Rightarrow> callParams \<Rightarrow> bool \<times> callParams" where
  "call_member k v p =
     (case struct_field [''name'', ''arguments'', ''_meta''] k of
        None \<Rightarrow> (True, p)
      | Some n \<Rightarrow>
          if n = ''name'' then (let (b, s) = dec_string v (cp_Name p) in (b, p\<lparr>cp_Name := s\<rparr>))
          else if n = ''arguments'' then (True, p\<lparr>cp_Arguments := tree_raw v\<rparr>)
          else (let (b, m) = dec_rawmap v (cp_Meta p) in (b, p\<lparr>cp_Meta := m\<rparr>)))"

definition Unmarshal_call :: "bytes \<Rightarrow> bool \<times> callParams" where
  "Unmarshal_call raw = Unmarshal_struct call_member \<lparr>cp_Name = [], cp_Arguments = [], cp_Meta = []\<rparr> raw"

definition extractToken :: "bytes gomap \<Rightarrow> string" where
  "extractToken meta = (case map_of meta TokenMetaKey of
      None \<Rightarrow> []
    | Some raw \<Rightarrow> (case Unmarshal_string raw of None \<Rightarrow> [] | Some tok \<Rightarrow> tok))"

definition allowedCallParams :: "bytes list" where
  "allowedCallParams = [''name'', ''arguments'', ''_meta'']"

definition validateCallParams :: "bytes \<Rightarrow> scan_err + unit" where
  "validateCallParams params = scan_object allowedCallParams params"

text \<open>The members of \<open>params\<close> without the credential.\<close>

definition strip_meta :: "bytes gomap \<Rightarrow> bytes gomap option" where
  "strip_meta params = (case map_of params ''_meta'' of
      None \<Rightarrow> Some params
    | Some metaRaw \<Rightarrow>
        (case Unmarshal_rawmap metaRaw of
           None \<Rightarrow> None
         | Some meta \<Rightarrow>
             (let meta1 = AList.delete TokenMetaKey meta in
              if meta1 = [] then Some (AList.delete ''_meta'' params)
              else map_option (\<lambda>enc. put ''_meta'' enc params) (Marshal_rawmap meta1))))"

definition mcp_stripToken :: "rpcRequest \<Rightarrow> bytes option" where
  "mcp_stripToken req =
     (case Unmarshal_rawmap (rq_Params req) of
        None \<Rightarrow> None
      | Some params \<Rightarrow>
          (case strip_meta params of
             None \<Rightarrow> None
           | Some params1 \<Rightarrow>
               (case Marshal_rawmap params1 of
                  None \<Rightarrow> None
                | Some newParams \<Rightarrow> Marshal_rpc (req\<lparr>rq_Params := newParams\<rparr>))))"

text \<open>A refusal is recorded and answered; a forwarded request is answered by the server.\<close>

definition refuse :: "codec \<Rightarrow> denv \<Rightarrow> 'l dengine \<Rightarrow> rpcRequest \<Rightarrow> int \<Rightarrow> string \<Rightarrow> string \<Rightarrow> bool \<Rightarrow> string \<Rightarrow>
    bytes option \<times> 'f option \<times> 'l dengine" where
  "refuse c env e req code msg rule unavailable token =
     (errorResponse (rq_ID req) code msg, None, snd (RecordDeny c env e rule unavailable token))"

definition denied :: string where
  "denied = ''spt-txn: denied''"

definition forward_to :: "forward \<Rightarrow> bytes \<Rightarrow> 'l dengine \<Rightarrow> rpcRequest \<Rightarrow> bytes option \<times> bytes option \<times> 'l dengine" where
  "forward_to fwd sent e req =
     (case fwd sent of
        Inl _ \<Rightarrow> (errorResponse (rq_ID req) CodeUpstream ''upstream error'', Some sent, e)
      | Inr resp \<Rightarrow> (resp, Some sent, e))"

text \<open>\<open>env\<close> surrounds the first call of the decision core and \<open>env'\<close> the record of a failed strip.\<close>

definition mcp_call :: "codec \<Rightarrow> denv \<Rightarrow> denv \<Rightarrow> 'l mcp \<Rightarrow> rpcRequest \<Rightarrow> bytes option \<times> bytes option \<times> 'l dengine" where
  "mcp_call c env env' m req =
     (let e = mw_Engine m in
      if \<not> is_ok (validateCallParams (rq_Params req)) then refuse c env e req CodeDenied denied ''rpc.params-ambiguous'' False []
      else case Unmarshal_call (rq_Params req) of (ok, call) \<Rightarrow>
        if \<not> ok \<or> cp_Name call = [] then refuse c env e req CodeDenied denied ''rpc.params-malformed'' False []
        else let token = extractToken (cp_Meta call) in
          (case Decide c env e token \<lparr>it_Tool = cp_Name call, it_Params = cp_Arguments call, it_Target = mw_ServerIdentity m\<rparr> of
             (d, e1) \<Rightarrow>
               if \<not> dd_permit d then (errorResponse (rq_ID req) CodeDenied denied, None, e1)
               else (case mcp_stripToken req of
                   None \<Rightarrow> refuse c env' e1 req CodeDenied denied ''rpc.strip-failed'' True token
                 | Some stripped \<Rightarrow> forward_to (mw_Forward m) stripped e1 req)))"

definition mcp_Handle :: "codec \<Rightarrow> denv \<Rightarrow> denv \<Rightarrow> 'l mcp \<Rightarrow> bytes \<Rightarrow> bytes option \<times> bytes option \<times> 'l dengine" where
  "mcp_Handle c env env' m raw =
     (case Unmarshal_rpc raw of (ok, req) \<Rightarrow>
      let e = mw_Engine m in
      if \<not> ok \<or> rq_Jsonrpc req \<noteq> ''2.0'' \<or> rq_Method req = [] then refuse c env e req CodeParse ''parse error'' ''rpc.malformed'' False []
      else if rq_Method req \<noteq> ''tools/call'' then
        (if rq_Method req \<notin> set mcp_observableMethods
         then refuse c env e req CodeDenied denied ''rpc.method-not-permitted'' False []
         else forward_to (mw_Forward m) raw (snd (RecordObserved c env e (''observe.passthrough.'' @ rq_Method req))) req)
      else mcp_call c env env' m req)"

end
