(* ===== verification/McpStrip.thy ===== *)
theory McpStrip
  imports McpPep
begin

text \<open>
  What the MCP enforcement point (src/internal/mcppep/mcppep.go) guarantees of a forwarded tool call, and
  the reading of the envelope that its allowlist does not cover.
\<close>

section \<open>Reading the envelope\<close>

text \<open>A raw member of the envelope is absent or the text of a value that was read one level down.\<close>

definition raw_ok :: "nat \<Rightarrow> bytes \<Rightarrow> bool" where
  "raw_ok d x = (x = [] \<or> (\<exists>t. parse_json x = Some t \<and> read_at d t))"

lemma raw_ok_tree: "read_at d t \<Longrightarrow> raw_ok d (tree_raw t)"
  using read_alone by (auto simp: raw_ok_def)

lemma rpc_member_raw:
  assumes "rpc_member k v r = (b, r')" "read_at 1 v" "raw_ok 1 (rq_ID r) \<and> raw_ok 1 (rq_Params r)"
  shows "raw_ok 1 (rq_ID r') \<and> raw_ok 1 (rq_Params r')"
  using assms raw_ok_tree[OF assms(2)] by (auto simp: rpc_member_def Let_def split: option.split_asm if_split_asm prod.split_asm)

lemma struct_fold_inv:
  assumes "\<And>k v s b s'. step k v s = (b, s') \<Longrightarrow> Q v \<Longrightarrow> P s \<Longrightarrow> P s'" "\<forall>m \<in> set ms. Q (snd (snd m))" "P s"
  shows "P (snd (fold (\<lambda>(rk, k, v) (ok, s). let (b, s1) = step k v s in (ok \<and> b, s1)) ms (ok, s)))"
  using assms(2,3)
proof (induction ms arbitrary: ok s)
  case (Cons m ms)
  obtain rk k v where m: "m = (rk, k, v)" by (cases m) auto
  obtain b s1 where s1: "step k v s = (b, s1)" by fastforce
  have "P s1" using assms(1)[OF s1] Cons.prems m by simp
  with Cons.IH[of s1 "ok \<and> b"] Cons.prems(1) show ?case by (simp add: m s1)
qed simp

lemma Unmarshal_rpc_raw: "raw_ok 1 (rq_ID (snd (Unmarshal_rpc raw))) \<and> raw_ok 1 (rq_Params (snd (Unmarshal_rpc raw)))"
proof (cases "\<exists>rt ms. parse_json raw = Some (JObj rt ms)")
  case True
  then obtain rt ms where p: "parse_json raw = Some (JObj rt ms)" by blast
  then have "\<forall>m \<in> set ms. read_at 1 (snd (snd m))" using read_object_members[OF parse_json_read[OF p]] by simp
  from struct_fold_inv[of rpc_member "read_at 1" "\<lambda>r. raw_ok 1 (rq_ID r) \<and> raw_ok 1 (rq_Params r)", OF rpc_member_raw this]
  show ?thesis using p by (simp add: Unmarshal_rpc_def Unmarshal_struct_def zero_rpc_def raw_ok_def)
next
  case False
  then have "snd (Unmarshal_rpc raw) = zero_rpc"
    by (auto simp: Unmarshal_rpc_def Unmarshal_struct_def split: option.split jtree.split jtoken.split)
  then show ?thesis by (simp add: zero_rpc_def raw_ok_def)
qed

section \<open>Reading the parameters of a call\<close>

text \<open>On an object whose names are distinct and allowed, each field has the member of its name.\<close>

definition field :: "(jtree \<Rightarrow> 'a \<Rightarrow> bool \<times> 'a) \<Rightarrow> jtree gomap \<Rightarrow> bytes \<Rightarrow> 'a \<Rightarrow> bool \<times> 'a" where
  "field dec m k z = (case map_of m k of None \<Rightarrow> (True, z) | Some v \<Rightarrow> dec v z)"

definition dec_raw :: "jtree \<Rightarrow> bytes \<Rightarrow> bool \<times> bytes" where
  "dec_raw v cur = (True, tree_raw v)"

definition call_fields :: "jtree gomap \<Rightarrow> callParams \<Rightarrow> bool \<times> callParams" where
  "call_fields m z = (fst (field dec_string m ''name'' (cp_Name z)) \<and> fst (field dec_rawmap m ''_meta'' (cp_Meta z)),
     \<lparr>cp_Name = snd (field dec_string m ''name'' (cp_Name z)), cp_Arguments = snd (field dec_raw m ''arguments'' (cp_Arguments z)),
      cp_Meta = snd (field dec_rawmap m ''_meta'' (cp_Meta z))\<rparr>)"

lemma call_member_eval:
  "call_member ''name'' v z = (fst (dec_string v (cp_Name z)), z\<lparr>cp_Name := snd (dec_string v (cp_Name z))\<rparr>)"
  "call_member ''arguments'' v z = (True, z\<lparr>cp_Arguments := tree_raw v\<rparr>)"
  "call_member ''_meta'' v z = (fst (dec_rawmap v (cp_Meta z)), z\<lparr>cp_Meta := snd (dec_rawmap v (cp_Meta z))\<rparr>)"
  by (simp_all add: call_member_def struct_field_def case_prod_unfold Let_def)

lemma call_fold:
  assumes "distinct (names ms)" "set (names ms) \<subseteq> set allowedCallParams"
  shows "fold (\<lambda>(rk, k, v) (ok, s). let (b, s1) = call_member k v s in (ok \<and> b, s1)) ms (ok, z) =
    (ok \<and> fst (call_fields (tmap ms) z), snd (call_fields (tmap ms) z))"
  using assms
proof (induction ms arbitrary: ok z)
  case Nil
  show ?case by (simp add: call_fields_def field_def)
next
  case (Cons m ms)
  obtain rk k v where m: "m = (rk, k, v)" by (cases m) auto
  have k: "k \<in> {''name'', ''arguments'', ''_meta''}" "map_of (tmap ms) k = None"
    using Cons.prems m by (auto simp: names_def allowedCallParams_def tmap_None)
  obtain b z1 where s: "call_member k v z = (b, z1)" by fastforce
  have "distinct (names ms)" "set (names ms) \<subseteq> set allowedCallParams" using Cons.prems by (auto simp: names_def)
  note ih = Cons.IH[OF this, of "ok \<and> b" z1]
  have "(b \<and> fst (call_fields (tmap ms) z1), snd (call_fields (tmap ms) z1)) = call_fields (tmap (m # ms)) z"
    using k(1)
  proof (elim insertE emptyE)
    assume n: "k = ''name''"
    then have "b = fst (dec_string v (cp_Name z))" "z1 = z\<lparr>cp_Name := snd (dec_string v (cp_Name z))\<rparr>" using s by (simp_all add: call_member_eval)
    with n k(2) m show ?thesis by (simp add: call_fields_def field_def)
  next
    assume n: "k = ''arguments''"
    then have "b" "z1 = z\<lparr>cp_Arguments := tree_raw v\<rparr>" using s by (simp_all add: call_member_eval)
    with n k(2) m show ?thesis by (simp add: call_fields_def field_def dec_raw_def)
  next
    assume n: "k = ''_meta''"
    then have "b = fst (dec_rawmap v (cp_Meta z))" "z1 = z\<lparr>cp_Meta := snd (dec_rawmap v (cp_Meta z))\<rparr>" using s by (simp_all add: call_member_eval)
    with n k(2) m show ?thesis by (auto simp: call_fields_def field_def)
  qed
  then have "fst (call_fields (tmap (m # ms)) z) = (b \<and> fst (call_fields (tmap ms) z1))" "snd (call_fields (tmap (m # ms)) z) = snd (call_fields (tmap ms) z1)"
    by (metis fst_conv, metis snd_conv)
  with ih s m show ?case by simp
qed

lemma Unmarshal_call_object:
  assumes "parse_json raw = Some (JObj rt ms)" "distinct (names ms)" "set (names ms) \<subseteq> set allowedCallParams"
  shows "Unmarshal_call raw = call_fields (tmap ms) \<lparr>cp_Name = [], cp_Arguments = [], cp_Meta = []\<rparr>"
  using call_fold[OF assms(2,3), of True] assms(1) by (simp add: Unmarshal_call_def Unmarshal_struct_def)

section \<open>Removing the credential\<close>

lemma map_of_delete: "map_of (AList.delete k m) = (map_of m)(k := None)"
  by (rule delete_conv')

lemma holds_docs_delete: "holds_docs d m \<Longrightarrow> holds_docs d (AList.delete k m)"
  by (auto simp: holds_docs_def wf_map_def AList.delete_eq distinct_map_filter)

lemma holds_docs_put: "holds_docs d m \<Longrightarrow> ValidString k \<Longrightarrow> parse_json x = Some t \<Longrightarrow> read_at d t \<Longrightarrow> holds_docs d (put k x m)"
  by (auto simp: holds_docs_def dest!: set_put)

lemma holds_docs_rawmap:
  assumes "read_at d (JObj rt ms)"
  shows "holds_docs (Suc d) (rawmap_of ms [])"
proof -
  note r = read_object_members[OF assms]
  have "\<exists>t. parse_json (snd p) = Some t \<and> read_at (Suc d) t" if "p \<in> set (rawmap_of ms [])" for p
  proof (rule rawmap_of_values[OF _ _ that])
    show "\<forall>x \<in> set ms. \<exists>t. parse_json (tree_raw (snd (snd x))) = Some t \<and> read_at (Suc d) t" using r read_alone by blast
  qed simp
  moreover have "ValidString k" if "(k, x) \<in> set (rawmap_of ms [])" for k x
  proof -
    have "has_key (rawmap_of ms []) k" using that unfolding has_key_iff by force
    then have "k \<in> set (names ms)" using rawmap_of_keys[of ms "[]" k] by (simp add: has_key_def[of "[]"])
    with r show ?thesis by (auto simp: names_def)
  qed
  ultimately show ?thesis by (fastforce simp: holds_docs_def wf_rawmap_of)
qed

lemma rawmap_of_lookup:
  assumes "distinct (names ms)"
  shows "map_of (rawmap_of ms []) k = map_option tree_raw (map_of (tmap ms) k)"
proof -
  have "rawmap_of ms [] = map (\<lambda>x. (fst (snd x), tree_raw (snd (snd x)))) ms" using rawmap_of_distinct[OF assms, of "[]"] by (simp add: has_key_def)
  moreover have "map_of (map (\<lambda>x. (fst (snd x), tree_raw (snd (snd x)))) ms) k = map_option tree_raw (map_of (tmap ms) k)"
    by (induction ms) (auto simp: tmap_def)
  ultimately show ?thesis by simp
qed

lemma Unmarshal_rawmap_read:
  assumes "Unmarshal_rawmap x = Some m" "parse_json x = Some t" "read_at d t"
  shows "holds_docs (Suc d) m \<and> (m = [] \<or> (\<exists>rt ms. t = JObj rt ms \<and> m = rawmap_of ms []))"
  using assms holds_docs_rawmap[of d]
  by (cases t) (auto simp: Unmarshal_rawmap_def dec_rawmap_def holds_docs_def split: if_split_asm jtoken.split_asm)

text \<open>The stripped members: documents as before, and no credential among the metadata.\<close>

lemma strip_meta_docs:
  assumes "holds_docs 2 pm" "strip_meta pm = Some pm1"
  shows "holds_docs 2 pm1" "\<And>k. k \<noteq> ''_meta'' \<Longrightarrow> map_of pm1 k = map_of pm k" "fst ` set pm1 \<subseteq> fst ` set pm"
    "\<And>x. map_of pm1 ''_meta'' = Some x \<Longrightarrow> \<exists>rt ms. parse_json x = Some (JObj rt ms) \<and> TokenMetaKey \<notin> set (names ms)"
proof -
  have "holds_docs 2 pm1 \<and> (\<forall>k. k \<noteq> ''_meta'' \<longrightarrow> map_of pm1 k = map_of pm k) \<and> fst ` set pm1 \<subseteq> fst ` set pm \<and>
    (\<forall>x. map_of pm1 ''_meta'' = Some x \<longrightarrow> (\<exists>rt ms. parse_json x = Some (JObj rt ms) \<and> TokenMetaKey \<notin> set (names ms)))"
  proof (cases "map_of pm ''_meta''")
    case None
    with assms show ?thesis by (simp add: strip_meta_def)
  next
    case (Some x)
    obtain meta where meta: "Unmarshal_rawmap x = Some meta" using assms(2) Some by (auto simp: strip_meta_def split: option.split_asm)
    obtain t where t: "parse_json x = Some t" "read_at 2 t" using assms(1) map_of_SomeD[OF Some] by (fastforce simp: holds_docs_def)
    have h: "holds_docs (Suc 2) (AList.delete TokenMetaKey meta)"
      using Unmarshal_rawmap_read[OF meta t] by (intro holds_docs_delete) blast
    show ?thesis
    proof (cases "AList.delete TokenMetaKey meta = []")
      case True
      with assms(2) Some meta have "pm1 = AList.delete ''_meta'' pm" by (simp add: strip_meta_def)
      moreover have "fst ` set (AList.delete ''_meta'' pm) \<subseteq> fst ` set pm" by (auto simp: AList.delete_eq)
      ultimately show ?thesis using holds_docs_delete[OF assms(1)] by (simp add: map_of_delete)
    next
      case False
      have "(2 :: nat) < maxNestingDepth" by (simp add: maxNestingDepth_def)
      from Marshal_rawmap_reads[OF h this] obtain enc ms where e: "Marshal_rawmap (AList.delete TokenMetaKey meta) = Some enc"
        "parse_json enc = Some (JObj enc ms)" "read_at 2 (JObj enc ms)" "set (names ms) = fst ` set (AList.delete TokenMetaKey meta)" by blast
      with assms(2) Some meta False have p: "pm1 = put ''_meta'' enc pm" by (simp add: strip_meta_def)
      have "TokenMetaKey \<notin> set (names ms)" unfolding e(4) by (auto simp: AList.delete_eq)
      moreover have "holds_docs 2 pm1" unfolding p by (rule holds_docs_put[OF assms(1) _ e(2,3)]) (simp add: checkString_valid[OF checkString_ascii] byte_def)
      moreover have "fst ` set pm1 \<subseteq> fst ` set pm"
        using Some set_put[of _ "''_meta''" enc pm] map_of_SomeD[OF Some] unfolding p by force
      ultimately show ?thesis using e p by auto
    qed
  qed
  then show "holds_docs 2 pm1" "\<And>k. k \<noteq> ''_meta'' \<Longrightarrow> map_of pm1 k = map_of pm k" "fst ` set pm1 \<subseteq> fst ` set pm"
    "\<And>x. map_of pm1 ''_meta'' = Some x \<Longrightarrow> \<exists>rt ms. parse_json x = Some (JObj rt ms) \<and> TokenMetaKey \<notin> set (names ms)" by blast+
qed

section \<open>The forwarded request\<close>

lemma rpc_member_eval:
  "plain v = JTok (TStr s) [] \<Longrightarrow> rpc_member ''jsonrpc'' v r = (True, r\<lparr>rq_Jsonrpc := s\<rparr>)"
  "plain v = JTok (TStr s) [] \<Longrightarrow> rpc_member ''method'' v r = (True, r\<lparr>rq_Method := s\<rparr>)"
  "rpc_member ''id'' v r = (True, r\<lparr>rq_ID := tree_raw v\<rparr>)" "rpc_member ''params'' v r = (True, r\<lparr>rq_Params := tree_raw v\<rparr>)"
proof -
  have "dec_string v cur = (True, s)" if "plain v = JTok (TStr s) []" for cur using that by (cases v) (auto simp: dec_string_def)
  then show "plain v = JTok (TStr s) [] \<Longrightarrow> rpc_member ''jsonrpc'' v r = (True, r\<lparr>rq_Jsonrpc := s\<rparr>)"
    "plain v = JTok (TStr s) [] \<Longrightarrow> rpc_member ''method'' v r = (True, r\<lparr>rq_Method := s\<rparr>)"
    by (simp_all add: rpc_member_def struct_field_def)
qed (simp_all add: rpc_member_def struct_field_def)

lemma ascii_valid: "list_all (\<lambda>c. byte c < 0x80) s \<Longrightarrow> ValidString s"
  using checkString_valid[OF checkString_ascii] by blast

lemma Marshal_rpc_reads:
  assumes "raw_ok 1 (rq_ID r)" "parse_json (rq_Params r) = Some pt" "read_at 1 pt" "rq_Jsonrpc r = ''2.0''" "ValidString (rq_Method r)"
  shows "\<exists>tx i. Marshal_rpc r = Some tx \<and> Unmarshal_rpc tx = (True, r\<lparr>rq_ID := i, rq_Params := compact pt\<rparr>)"
proof -
  have v: "ValidString ''jsonrpc''" "ValidString ''id''" "ValidString ''method''" "ValidString ''params''" "ValidString ''2.0''"
    by (rule ascii_valid; simp add: byte_def)+
  have ne: "rq_Params r \<noteq> []" using assms(2) parse_json_Nil by auto
  have s: "text_of (Suc 0) (JTok (TStr ''2.0'') []) (Marshal_string ''2.0'')"
    "text_of (Suc 0) (JTok (TStr (rq_Method r)) []) (Marshal_string (rq_Method r))" "text_of (Suc 0) pt (compact pt)"
    using text_Marshal_string v(5) assms(5) read_at_text[OF assms(3)] by auto
  have z: "(0 :: nat) < maxNestingDepth" by (simp add: maxNestingDepth_def)
  show ?thesis
  proof (cases "rq_ID r = []")
    case True
    let ?k = "[(''jsonrpc'', Marshal_string ''2.0''), (''method'', Marshal_string (rq_Method r)), (''params'', compact pt)]"
    from Marshal_members_reads[of 0 ?k "[JTok (TStr ''2.0'') [], JTok (TStr (rq_Method r)) [], pt]"] v s z obtain tx ms where
      m: "Marshal_members (map (\<lambda>(k, x). (k, Some x)) ?k) = Some tx" "parse_json tx = Some (JObj tx ms)" "names ms = map fst ?k"
      "map (\<lambda>m. tree_raw (snd (snd m))) ms = map snd ?k" "map (\<lambda>m. plain (snd (snd m))) ms = [JTok (TStr ''2.0'') [], JTok (TStr (rq_Method r)) [], plain pt]"
      by auto
    then obtain k1 k2 k3 v1 v2 v3 where ms: "ms = [(k1, ''jsonrpc'', v1), (k2, ''method'', v2), (k3, ''params'', v3)]"
      "plain v1 = JTok (TStr ''2.0'') []" "plain v2 = JTok (TStr (rq_Method r)) []" "tree_raw v3 = compact pt"
      by (auto simp: names_def map_eq_Cons_conv)
    have "Unmarshal_rpc tx = (True, r\<lparr>rq_ID := [], rq_Params := compact pt\<rparr>)"
      using m(2) ms assms(4) True by (simp add: Unmarshal_rpc_def Unmarshal_struct_def zero_rpc_def rpc_member_eval)
    moreover have "Marshal_rpc r = Some tx" using m(1) True ne Marshal_raw_read[OF assms(2)] assms(4) by (simp add: Marshal_rpc_def)
    ultimately show ?thesis by blast
  next
    case False
    with assms(1) obtain it where it: "parse_json (rq_ID r) = Some it" "read_at 1 it" by (auto simp: raw_ok_def)
    let ?k = "[(''jsonrpc'', Marshal_string ''2.0''), (''id'', compact it), (''method'', Marshal_string (rq_Method r)), (''params'', compact pt)]"
    from Marshal_members_reads[of 0 ?k "[JTok (TStr ''2.0'') [], it, JTok (TStr (rq_Method r)) [], pt]"] v s z read_at_text[OF it(2)] obtain tx ms where
      m: "Marshal_members (map (\<lambda>(k, x). (k, Some x)) ?k) = Some tx" "parse_json tx = Some (JObj tx ms)" "names ms = map fst ?k"
      "map (\<lambda>m. tree_raw (snd (snd m))) ms = map snd ?k" "map (\<lambda>m. plain (snd (snd m))) ms = [JTok (TStr ''2.0'') [], plain it, JTok (TStr (rq_Method r)) [], plain pt]"
      by auto
    then obtain k1 k2 k3 k4 v1 v2 v3 v4 where ms: "ms = [(k1, ''jsonrpc'', v1), (k2, ''id'', v2), (k3, ''method'', v3), (k4, ''params'', v4)]"
      "plain v1 = JTok (TStr ''2.0'') []" "plain v3 = JTok (TStr (rq_Method r)) []" "tree_raw v2 = compact it" "tree_raw v4 = compact pt"
      by (auto simp: names_def map_eq_Cons_conv)
    have "Unmarshal_rpc tx = (True, r\<lparr>rq_ID := compact it, rq_Params := compact pt\<rparr>)"
      using m(2) ms assms(4) by (simp add: Unmarshal_rpc_def Unmarshal_struct_def zero_rpc_def rpc_member_eval)
    moreover have "Marshal_rpc r = Some tx" using m(1) False ne Marshal_raw_read[OF assms(2)] Marshal_raw_read[OF it(1)] assms(4) by (simp add: Marshal_rpc_def)
    ultimately show ?thesis by blast
  qed
qed

text \<open>Two raw members carry the same document, or both are absent.\<close>

definition same_text :: "bytes \<Rightarrow> bytes \<Rightarrow> bool" where
  "same_text a b = (a = [] \<and> b = [] \<or> (\<exists>s t. parse_json a = Some s \<and> parse_json b = Some t \<and> plain s = plain t))"

text \<open>The member of a name in the stripped parameters, as the server reads it.\<close>

definition reads_member_as :: "bytes gomap \<Rightarrow> (bytes \<times> bytes \<times> jtree) list \<Rightarrow> bytes \<Rightarrow> bool" where
  "reads_member_as pm ms k = (case map_of pm k of
      None \<Rightarrow> map_of (tmap ms) k = None
    | Some x \<Rightarrow> (\<exists>v t. map_of (tmap ms) k = Some v \<and> parse_json x = Some t \<and> plain v = plain t))"

lemma strip_reads:
  assumes "raw_ok 1 (rq_ID req)" "rq_Jsonrpc req = ''2.0''" "rq_Method req = ''tools/call''"
    and "holds_docs 2 pm1" "Unmarshal_rawmap (rq_Params req) = Some pm" "strip_meta pm = Some pm1"
    and "fst ` set pm1 \<subseteq> set allowedCallParams"
  shows "\<exists>sent req' tx ms. mcp_stripToken req = Some sent \<and> Unmarshal_rpc sent = (True, req') \<and> rq_Method req' = ''tools/call'' \<and>
     parse_json (rq_Params req') = Some (JObj tx ms) \<and> read_at 1 (JObj tx ms) \<and>
     distinct (names ms) \<and> set (names ms) \<subseteq> set allowedCallParams \<and> (\<forall>k. reads_member_as pm1 ms k)"
proof -
  have d: "(1 :: nat) < maxNestingDepth" "(2 :: nat) = Suc 1" by (simp_all add: maxNestingDepth_def)
  from Marshal_rawmap_reads[of 1 pm1] assms(4) d obtain np ms1 where m: "Marshal_rawmap pm1 = Some np" "parse_json np = Some (JObj np ms1)" "read_at 1 (JObj np ms1)"
    "distinct (names ms1)" "set (names ms1) = fst ` set pm1"
    "\<And>k x t. map_of pm1 k = Some x \<Longrightarrow> parse_json x = Some t \<Longrightarrow> \<exists>v. map_of (tmap ms1) k = Some v \<and> plain v = plain t" by auto
  have "ValidString ''tools/call''" by (rule ascii_valid) (simp add: byte_def)
  with Marshal_rpc_reads[of "req\<lparr>rq_Params := np\<rparr>" "JObj np ms1"] assms(1-3) m(2,3) obtain sent i where
    s: "Marshal_rpc (req\<lparr>rq_Params := np\<rparr>) = Some sent" "Unmarshal_rpc sent = (True, req\<lparr>rq_ID := i, rq_Params := compact (JObj np ms1)\<rparr>)" by auto
  from compact_object[OF m(3)] obtain tx ms where c: "parse_json (compact (JObj np ms1)) = Some (JObj tx ms)" "read_at 1 (JObj tx ms)" "same_docs ms ms1" by auto
  have "reads_member_as pm1 ms k" for k
  proof (cases "map_of pm1 k")
    case None
    then have "k \<notin> set (names ms1)" using m(5) by (simp add: map_of_eq_None_iff)
    with None same_docs_names[OF c(3)] show ?thesis by (simp add: reads_member_as_def tmap_None)
  next
    case (Some x)
    then obtain t where t: "parse_json x = Some t" using assms(4) by (fastforce simp: holds_docs_def dest: map_of_SomeD)
    from m(6)[OF Some t] same_docs_lookup[OF same_docs_sym[OF c(3)]] obtain v where "map_of (tmap ms) k = Some v" "plain v = plain t" by metis
    with Some t show ?thesis by (simp add: reads_member_as_def)
  qed
  moreover have "mcp_stripToken req = Some sent" using assms(5,6) m(1) s(1) by (simp add: mcp_stripToken_def)
  moreover have "distinct (names ms)" "set (names ms) \<subseteq> set allowedCallParams" using same_docs_names[OF c(3)] m(4,5) assms(7) by auto
  moreover define req' where "req' = req\<lparr>rq_ID := i, rq_Params := compact (JObj np ms1)\<rparr>"
  moreover have "Unmarshal_rpc sent = (True, req')" "rq_Method req' = ''tools/call''" "parse_json (rq_Params req') = Some (JObj tx ms)"
    using s(2) c(1) assms(3) by (simp_all add: req'_def)
  ultimately show ?thesis using c(2) by blast
qed

lemma strip_meta_total:
  assumes "holds_docs 2 pm" "\<And>x. map_of pm ''_meta'' = Some x \<Longrightarrow> Unmarshal_rawmap x \<noteq> None"
  shows "\<exists>pm1. strip_meta pm = Some pm1"
proof (cases "map_of pm ''_meta''")
  case None
  then show ?thesis by (simp add: strip_meta_def)
next
  case (Some x)
  then obtain meta where meta: "Unmarshal_rawmap x = Some meta" using assms(2) by blast
  obtain t where t: "parse_json x = Some t" "read_at 2 t" using assms(1) map_of_SomeD[OF Some] by (fastforce simp: holds_docs_def)
  have "holds_docs (Suc 2) (AList.delete TokenMetaKey meta)" "(2 :: nat) < maxNestingDepth"
    using Unmarshal_rawmap_read[OF meta t] holds_docs_delete by (blast, simp add: maxNestingDepth_def)
  from Marshal_rawmap_reads[OF this] Some meta show ?thesis by (auto simp: strip_meta_def Let_def)
qed

lemma tmap_read: "read_at d (JObj rt ms) \<Longrightarrow> map_of (tmap ms) k = Some v \<Longrightarrow> read_at (Suc d) v"
  using read_object_members[of d rt ms] by (fastforce simp: tmap_def dest: map_of_SomeD)

lemma stripped_call:
  assumes "Unmarshal_rpc raw = (True, req)" "rq_Jsonrpc req = ''2.0''" "rq_Method req = ''tools/call''"
    and "validateCallParams (rq_Params req) = Inr ()" "Unmarshal_call (rq_Params req) = (True, call)"
  shows "\<exists>sent req' call'. mcp_stripToken req = Some sent \<and> Unmarshal_rpc sent = (True, req') \<and> rq_Method req' = ''tools/call'' \<and>
     Unmarshal_call (rq_Params req') = (True, call') \<and> cp_Name call' = cp_Name call \<and> same_text (cp_Arguments call') (cp_Arguments call) \<and>
     \<not> has_key (cp_Meta call') TokenMetaKey"
proof -
  let ?z = "\<lparr>cp_Name = [], cp_Arguments = [], cp_Meta = []\<rparr>"
  have ok: "raw_ok 1 (rq_ID req)" "raw_ok 1 (rq_Params req)" using Unmarshal_rpc_raw[of raw] assms(1) by auto
  moreover have "rq_Params req \<noteq> []" using assms(4) by (auto simp: validateCallParams_def scan_object_def)
  ultimately obtain t where t: "parse_json (rq_Params req) = Some t" "read_at 1 t" by (auto simp: raw_ok_def)
  from scan_object_document[OF _ t(1)] assms(4) obtain rt ps where o: "t = JObj rt ps" "distinct (names ps)" "set (names ps) \<subseteq> set allowedCallParams"
    unfolding validateCallParams_def by blast
  have call: "call_fields (tmap ps) ?z = (True, call)" using Unmarshal_call_object[of _ rt ps] t(1) o assms(5) by simp
  let ?pm = "rawmap_of ps []"
  have um: "Unmarshal_rawmap (rq_Params req) = Some ?pm" using t(1) o(1) by (simp add: Unmarshal_rawmap_def dec_rawmap_def)
  have h: "holds_docs 2 ?pm" using holds_docs_rawmap[of 1 rt ps] t(2) o(1) by (simp add: numeral_2_eq_2)
  have keys: "fst ` set ?pm \<subseteq> set allowedCallParams" using o(2,3) rawmap_of_keys[of ps "[]"] unfolding has_key_iff by auto
  have lk: "map_of ?pm k = map_option tree_raw (map_of (tmap ps) k)" for k by (rule rawmap_of_lookup[OF o(2)])
  have rd: "parse_json (tree_raw v) = Some v" if "map_of (tmap ps) k = Some v" for k v
    using read_alone tmap_read[of 1 rt ps k v] t(2) o(1) that by blast
  have "fst (field dec_rawmap (tmap ps) ''_meta'' [])" using call by (auto simp: call_fields_def)
  then have "Unmarshal_rawmap x \<noteq> None" if "map_of ?pm ''_meta'' = Some x" for x
    using that lk[of "''_meta''"] rd[of "''_meta''"] by (auto simp: field_def Unmarshal_rawmap_def case_prod_unfold)
  from strip_meta_total[OF h this] obtain pm1 where pm1: "strip_meta ?pm = Some pm1" by blast
  note st = strip_meta_docs[OF h pm1]
  have "fst ` set pm1 \<subseteq> set allowedCallParams" using st(3) keys by blast
  from strip_reads[OF ok(1) assms(2,3) st(1) um pm1 this] obtain sent req' tx ms where
    s: "mcp_stripToken req = Some sent" "Unmarshal_rpc sent = (True, req')" "rq_Method req' = ''tools/call''" "parse_json (rq_Params req') = Some (JObj tx ms)"
    "read_at 1 (JObj tx ms)" "distinct (names ms)" "set (names ms) \<subseteq> set allowedCallParams" "\<And>k. reads_member_as pm1 ms k" by blast
  have keep: "(map_of (tmap ps) k = None \<and> map_of (tmap ms) k = None) \<or>
      (\<exists>v v'. map_of (tmap ps) k = Some v \<and> map_of (tmap ms) k = Some v' \<and> plain v' = plain v)" if "k \<noteq> ''_meta''" for k
    using s(8)[of k] st(2)[OF that] lk[of k] rd by (auto simp: reads_member_as_def split: option.split_asm)
  have name: "field dec_string (tmap ms) ''name'' [] = field dec_string (tmap ps) ''name'' []"
    using keep[of "''name''"] by (auto simp: field_def intro: dec_string_plain)
  have args: "same_text (snd (field dec_raw (tmap ms) ''arguments'' [])) (snd (field dec_raw (tmap ps) ''arguments'' []))"
  proof (cases "map_of (tmap ps) ''arguments''")
    case None
    with keep[of "''arguments''"] show ?thesis by (simp add: field_def same_text_def)
  next
    case (Some v)
    with keep[of "''arguments''"] obtain v' where v: "map_of (tmap ms) ''arguments'' = Some v'" "plain v' = plain v" by auto
    with Some rd[OF Some] read_alone[OF tmap_read[OF s(5) v(1)]] show ?thesis by (simp add: field_def dec_raw_def same_text_def)
  qed
  have meta: "fst (field dec_rawmap (tmap ms) ''_meta'' []) \<and> \<not> has_key (snd (field dec_rawmap (tmap ms) ''_meta'' [])) TokenMetaKey"
  proof (cases "map_of pm1 ''_meta''")
    case None
    with s(8)[of "''_meta''"] show ?thesis by (simp add: reads_member_as_def field_def has_key_def)
  next
    case (Some x)
    from st(4)[OF Some] s(8)[of "''_meta''"] Some obtain rt' mm v where v: "map_of (tmap ms) ''_meta'' = Some v" "plain v = plain (JObj rt' mm)" "TokenMetaKey \<notin> set (names mm)"
      by (auto simp: reads_member_as_def)
    from plain_JObj_cases[OF v(2)] obtain r2 m2 where "v = JObj r2 m2" "same_docs m2 mm" by blast
    with v same_docs_names show ?thesis by (auto simp: field_def dec_rawmap_def rawmap_of_keys has_key_def[of "[]"])
  qed
  have "Unmarshal_call (rq_Params req') = call_fields (tmap ms) ?z" by (rule Unmarshal_call_object[OF s(4,6,7)])
  with s(1-3) name args meta call show ?thesis by (auto simp: call_fields_def)
qed

end
