(* ===== verification/McpProps.thy ===== *)
theory McpProps
  imports McpStrip
begin

text \<open>
  What the MCP enforcement point guarantees of the requests it forwards (\<open>forwarded_call_is_authorized_call\<close>),
  that a permitted call is forwarded, and what its reading of the envelope lets through
  (\<open>tool_call_forwarded_as_observation\<close>).
\<close>

section \<open>Forwarded calls\<close>

abbreviation call_intent :: "'l mcp \<Rightarrow> callParams \<Rightarrow> intent" where
  "call_intent m call \<equiv> \<lparr>it_Tool = cp_Name call, it_Params = cp_Arguments call, it_Target = mw_ServerIdentity m\<rparr>"

lemma refuse_sends_nothing [simp]: "fst (snd (refuse c env e req code msg rule un token)) = None"
  by (simp add: refuse_def)

lemma forward_to_sends [simp]: "fst (snd (forward_to fwd sent e req)) = Some sent" "snd (snd (forward_to fwd sent e req)) = e"
  by (simp_all add: forward_to_def split: sum.split)

lemma Handle_forwards_call:
  assumes "mcp_Handle c env env' m raw = (resp, Some sent, e')" "Unmarshal_rpc raw = (ok, req)" "rq_Method req = ''tools/call''"
  obtains call d where "ok" "rq_Jsonrpc req = ''2.0''" "validateCallParams (rq_Params req) = Inr ()" "Unmarshal_call (rq_Params req) = (True, call)"
    "Decide c env (mw_Engine m) (extractToken (cp_Meta call)) (call_intent m call) = (d, e')" "dd_permit d" "mcp_stripToken req = Some sent"
proof -
  have f: "fst (snd (mcp_Handle c env env' m raw)) = Some sent" "snd (snd (mcp_Handle c env env' m raw)) = e'" using assms(1) by simp_all
  have o: "ok" "rq_Jsonrpc req = ''2.0''" using f(1) assms(2,3) by (auto simp: mcp_Handle_def Let_def split: if_split_asm)
  then have h: "mcp_Handle c env env' m raw = mcp_call c env env' m req" using assms(2,3) by (simp add: mcp_Handle_def Let_def)
  have v: "validateCallParams (rq_Params req) = Inr ()"
    using f(1) unfolding h by (auto simp: mcp_call_def Let_def is_ok_unit split: if_split_asm)
  obtain ok' call where u: "Unmarshal_call (rq_Params req) = (ok', call)" by fastforce
  have k: "ok'" "cp_Name call \<noteq> []" using f(1) v u unfolding h by (auto simp: mcp_call_def Let_def split: if_split_asm)
  obtain d e1 where d: "Decide c env (mw_Engine m) (extractToken (cp_Meta call)) (call_intent m call) = (d, e1)" by fastforce
  have p: "dd_permit d" using f(1) v u k d unfolding h by (auto simp: mcp_call_def Let_def split: if_split_asm)
  have s: "mcp_stripToken req = Some sent" "e1 = e'"
    using f v u k d p unfolding h by (auto simp: mcp_call_def Let_def split: option.split_asm)
  show thesis by (rule that[of call d]) (use o v u k d p s in auto)
qed

text \<open>C0: The tool server is asked exactly what was authorized, and never sees the credential. Whenever the
  enforcement point forwards a message it read as a tool call, the token of the call was verified for
  this engine's audience; if the token carries the digest of a declared action then the call names
  this server and has the declared tool and parameters (up to a SHA-256 collision); and the forwarded
  bytes read as a tool call with the same tool, the same arguments document and no token.\<close>

theorem forwarded_call_is_authorized_call:
  assumes "mcp_Handle c env env' m raw = (resp, Some sent, e')" and "rq_Method (snd (Unmarshal_rpc raw)) = ''tools/call''"
    and "\<forall>b. jc_b64dec c (jc_b64enc c b) = Some b"
    and "\<forall>p q call. Unmarshal_call (rq_Params (snd (Unmarshal_rpc raw))) = (True, call) \<longrightarrow> intent_preimage declared = Inr p \<longrightarrow>
       intent_preimage (call_intent m call) = Inr q \<longrightarrow> jc_sha256 c p = jc_sha256 c q \<longrightarrow> p = q"
  shows "\<exists>call cl req' call'. Unmarshal_call (rq_Params (snd (Unmarshal_rpc raw))) = (True, call) \<and>
     the (dn_Verify (dg_cfg (mw_Engine m))) (dv_verify env) (extractToken (cp_Meta call)) = Inr cl \<and>
     claimStr cl ''aud'' = dn_Audience (dg_cfg (mw_Engine m)) \<and>
     (Digest c declared = Inr (BoundDigestFromClaims cl) \<longrightarrow> same_action declared (call_intent m call)) \<and>
     Unmarshal_rpc sent = (True, req') \<and> rq_Method req' = ''tools/call'' \<and> Unmarshal_call (rq_Params req') = (True, call') \<and>
     cp_Name call' = cp_Name call \<and> same_text (cp_Arguments call') (cp_Arguments call) \<and> \<not> has_key (cp_Meta call') TokenMetaKey"
proof -
  obtain ok req where r: "Unmarshal_rpc raw = (ok, req)" by fastforce
  with assms(2) have "rq_Method req = ''tools/call''" by simp
  from Handle_forwards_call[OF assms(1) r this] obtain call d where h: "ok" "rq_Jsonrpc req = ''2.0''" "validateCallParams (rq_Params req) = Inr ()"
    "Unmarshal_call (rq_Params req) = (True, call)" "Decide c env (mw_Engine m) (extractToken (cp_Meta call)) (call_intent m call) = (d, e')"
    "dd_permit d" "mcp_stripToken req = Some sent" by metis
  from Decide_permit[OF h(5,6)] obtain cl where cl: "the (dn_Verify (dg_cfg (mw_Engine m))) (dv_verify env) (extractToken (cp_Meta call)) = Inr cl"
    "claimStr cl ''aud'' = dn_Audience (dg_cfg (mw_Engine m))" "Match c (BoundDigestFromClaims cl) (call_intent m call) = Inr ()" by metis
  have "Digest c declared = Inr (BoundDigestFromClaims cl) \<longrightarrow> same_action declared (call_intent m call)"
    using matched_intent_is_declared_action[OF _ cl(3) assms(3)] assms(4) r h(4) by auto
  with stripped_call[of raw req call] r h cl \<open>rq_Method req = ''tools/call''\<close> show ?thesis by auto
qed

text \<open>A call whose decision is a permit is always forwarded: removing the credential does not fail.\<close>

lemma permitted_call_is_forwarded:
  assumes "Unmarshal_rpc raw = (True, req)" "rq_Jsonrpc req = ''2.0''" "rq_Method req = ''tools/call''"
    and "validateCallParams (rq_Params req) = Inr ()" "Unmarshal_call (rq_Params req) = (True, call)" "cp_Name call \<noteq> []"
    and "dd_permit (fst (Decide c env (mw_Engine m) (extractToken (cp_Meta call)) (call_intent m call)))"
  shows "\<exists>sent. fst (snd (mcp_Handle c env env' m raw)) = Some sent"
  using assms stripped_call[OF assms(1-5)] by (auto simp: mcp_Handle_def mcp_call_def Let_def split: prod.split)

section \<open>What the envelope does not bind\<close>

definition disguised_call :: "bytes \<Rightarrow> bytes option" where
  "disguised_call params = Marshal_members [(''jsonrpc'', Some (Marshal_string ''2.0'')), (''id'', Some (Marshal_string ''1'')),
     (''method'', Some (Marshal_string ''tools/call'')), (''params'', Marshal_raw params), (''METHOD'', Some (Marshal_string ''ping''))]"

text \<open>The member a reader that tells upper from lower case finds, where no name occurs twice.\<close>

definition exact_member :: "bytes \<Rightarrow> bytes \<Rightarrow> jtree option" where
  "exact_member raw k = (case parse_json raw of Some (JObj _ ms) \<Rightarrow> if distinct (names ms) then map_of (tmap ms) k else None | _ \<Rightarrow> None)"

lemma upper_method_selects_method:
  assumes "plain v = JTok (TStr s) []"
  shows "rpc_member ''METHOD'' v r = (True, r\<lparr>rq_Method := s\<rparr>)"
proof -
  have "foldName ''METHOD'' = foldName ''method''" "foldName ''jsonrpc'' \<noteq> foldName ''METHOD''" "foldName ''id'' \<noteq> foldName ''METHOD''"
    by (simp_all add: foldName_def runes_ascii byte_def fold_rune_def)
  then have "struct_field [''jsonrpc'', ''id'', ''method'', ''params''] ''METHOD'' = Some ''method''" by (simp add: struct_field_def)
  with rpc_member_eval(2)[OF assms] show ?thesis by (simp add: rpc_member_def struct_field_def)
qed

lemma disguised_call_reads:
  assumes "parse_json params = Some pt" "read_at 1 pt"
  shows "\<exists>raw vm vp. disguised_call params = Some raw \<and>
    Unmarshal_rpc raw = (True, \<lparr>rq_Jsonrpc = ''2.0'', rq_ID = Marshal_string ''1'', rq_Method = ''ping'', rq_Params = compact pt\<rparr>) \<and>
    exact_member raw ''method'' = Some vm \<and> plain vm = JTok (TStr ''tools/call'') [] \<and> exact_member raw ''params'' = Some vp \<and> plain vp = plain pt"
proof -
  have v: "ValidString ''jsonrpc''" "ValidString ''id''" "ValidString ''method''" "ValidString ''params''" "ValidString ''METHOD''"
    "ValidString ''2.0''" "ValidString ''1''" "ValidString ''tools/call''" "ValidString ''ping''"
    by (rule ascii_valid; simp add: byte_def)+
  let ?k = "[(''jsonrpc'', Marshal_string ''2.0''), (''id'', Marshal_string ''1''), (''method'', Marshal_string ''tools/call''),
    (''params'', compact pt), (''METHOD'', Marshal_string ''ping'')]"
  let ?t = "[JTok (TStr ''2.0'') [], JTok (TStr ''1'') [], JTok (TStr ''tools/call'') [], pt, JTok (TStr ''ping'') []]"
  have "list_all2 (\<lambda>(k, x) t. ValidString k \<and> text_of (Suc 0) t x) ?k ?t"
    using v read_at_text[OF assms(2)] by (simp add: text_Marshal_string)
  moreover have "(0 :: nat) < maxNestingDepth" by (simp add: maxNestingDepth_def)
  ultimately obtain raw ms where m: "Marshal_members (map (\<lambda>(k, x). (k, Some x)) ?k) = Some raw" "parse_json raw = Some (JObj raw ms)"
    "names ms = map fst ?k" "map (\<lambda>m. tree_raw (snd (snd m))) ms = map snd ?k" "map (\<lambda>m. plain (snd (snd m))) ms = map plain ?t"
    using Marshal_members_reads[of 0 ?k ?t] by blast
  then obtain k1 k2 k3 k4 k5 v1 v2 v3 v4 v5 where
    ms: "ms = [(k1, ''jsonrpc'', v1), (k2, ''id'', v2), (k3, ''method'', v3), (k4, ''params'', v4), (k5, ''METHOD'', v5)]"
      "plain v1 = JTok (TStr ''2.0'') []" "plain v3 = JTok (TStr ''tools/call'') []" "plain v5 = JTok (TStr ''ping'') []" "plain v4 = plain pt"
      "tree_raw v2 = Marshal_string ''1''" "tree_raw v4 = compact pt"
    by (auto simp: names_def map_eq_Cons_conv)
  have "Unmarshal_rpc raw = (True, \<lparr>rq_Jsonrpc = ''2.0'', rq_ID = Marshal_string ''1'', rq_Method = ''ping'', rq_Params = compact pt\<rparr>)"
    using m(2) ms by (simp add: Unmarshal_rpc_def Unmarshal_struct_def zero_rpc_def rpc_member_eval upper_method_selects_method)
  moreover have "exact_member raw ''method'' = Some v3" "exact_member raw ''params'' = Some v4"
    using m(2) ms(1) by (simp_all add: exact_member_def names_def)
  moreover have "disguised_call params = Some raw" using m(1) Marshal_raw_read[OF assms(1)] by (simp add: disguised_call_def)
  ultimately show ?thesis using ms(3,5) by blast
qed

text \<open>C0: A tool call without a token can be forwarded as an observation. The envelope is read without regard to
  case and the last member wins, so a request with \<open>method\<close> \<open>tools/call\<close> followed by \<open>METHOD\<close> \<open>ping\<close>
  is taken for a ping: whatever its parameters document (nested within the reader's limit), on every engine and for every server, it is forwarded byte for
  byte with no token looked at, and a reader of member names that tells cases apart finds in it a tool call with those
  parameters.\<close>

theorem tool_call_forwarded_as_observation:
  assumes "parse_json params = Some pt" and "parse_tree (2 * length params + 2) 1 params = Some (pt, [])"
  shows "\<exists>raw resp e' vm vp. disguised_call params = Some raw \<and> mcp_Handle c env env' m raw = (resp, Some raw, e') \<and>
     dg_replay e' = dg_replay (mw_Engine m) \<and> exact_member raw ''method'' = Some vm \<and> plain vm = JTok (TStr ''tools/call'') [] \<and>
     exact_member raw ''params'' = Some vp \<and> plain vp = plain pt"
proof -
  obtain raw vm vp where r: "disguised_call params = Some raw"
    "Unmarshal_rpc raw = (True, \<lparr>rq_Jsonrpc = ''2.0'', rq_ID = Marshal_string ''1'', rq_Method = ''ping'', rq_Params = compact pt\<rparr>)"
    "exact_member raw ''method'' = Some vm" "plain vm = JTok (TStr ''tools/call'') []" "exact_member raw ''params'' = Some vp" "plain vp = plain pt"
    using disguised_call_reads[OF assms(1) read_atI[OF assms(2)]] by (elim exE conjE) (rule that)
  let ?e = "snd (RecordObserved c env (mw_Engine m) (''observe.passthrough.'' @ ''ping''))"
  have "dg_replay ?e = dg_replay (mw_Engine m)"
    unfolding RecordObserved_def by (metis dfinish_engine prod.collapse)
  moreover have "mcp_Handle c env env' m raw = forward_to (mw_Forward m) raw ?e (snd (Unmarshal_rpc raw))"
    unfolding mcp_Handle_def r(2) by (simp add: mcp_observableMethods_def)
  ultimately show ?thesis using r by (metis forward_to_sends prod.collapse)
qed

theorem tool_call_forwarded_as_observation_witness:
  "\<exists>raw resp e' vm vp. disguised_call ''{}'' = Some raw \<and> mcp_Handle c env env' m raw = (resp, Some raw, e') \<and>
     dg_replay e' = dg_replay (mw_Engine m) \<and> exact_member raw ''method'' = Some vm \<and> plain vm = JTok (TStr ''tools/call'') [] \<and>
     exact_member raw ''params'' = Some vp \<and> plain vp = plain (JObj ''{}'' [])"
  by (rule tool_call_forwarded_as_observation) code_simp+

section \<open>A sample request\<close>

lemma skip_ws_quote: "skip_ws (quote # s) = quote # s" "skip_ws (CHR '':'' # s) = CHR '':'' # s" "skip_ws (CHR '','' # s) = CHR '','' # s"
  "skip_ws (CHR ''{'' # s) = CHR ''{'' # s" "skip_ws (CHR ''}'' # s) = CHR ''}'' # s"
  by (simp_all add: skip_ws_def is_space_def)

lemma Marshal_string_quoted: "Marshal_string k @ w = quote # go_body k @ quote # w"
  by (simp add: Marshal_string_def)

lemma quoted_key:
  assumes "ValidString k" "st = ObjectStart \<or> st = ObjectKey"
  shows "FToken (at_pos (Marshal_string k @ w) st stk) = Inr (TStr k, at_pos w ObjectColon stk)"
  unfolding Marshal_string_quoted by (rule FToken_key_at[OF skip_ws_quote(1) scan_string_go_body[OF assms(1)] assms(2)])

lemma next_key: "FToken (at_pos (CHR '','' # s) ObjectComma stk) = FToken (at_pos s ObjectKey stk)"
  by (rule FToken_separator(3)) (simp_all add: next_is_def skip_ws_quote)

lemma quoted_value:
  assumes "ValidString k"
  shows "FToken (at_pos (CHR '':'' # Marshal_string k @ w) ObjectColon stk) = Inr (TStr k, at_pos w ObjectComma stk)"
proof -
  have "FToken (at_pos (CHR '':'' # Marshal_string k @ w) ObjectColon stk) = FToken (at_pos (Marshal_string k @ w) ObjectValue stk)"
    by (rule FToken_separator(1)) (simp_all add: next_is_def skip_ws_quote)
  also have "\<dots> = Inr (TStr k, at_pos w ObjectComma stk)"
    using Token_scalar_at[OF skip_ws_quote(1), of "go_body k @ quote # w" "TStr k" w ObjectValue stk] scan_string_go_body[OF assms]
    unfolding Marshal_string_quoted by (simp add: FToken_def scan_scalar_def tokenValueAllowed_def tokenValueEnd_def)
  finally show ?thesis .
qed

lemma object_value:
  "FToken (at_pos (CHR '':'' # CHR ''{'' # w) ObjectColon stk) = Inr (TDelim CHR ''{'', at_pos w ObjectStart (ObjectValue # stk))"
proof -
  have "FToken (at_pos (CHR '':'' # CHR ''{'' # w) ObjectColon stk) = FToken (at_pos (CHR ''{'' # w) ObjectValue stk)"
    by (rule FToken_separator(1)) (simp_all add: next_is_def skip_ws_quote)
  also have "\<dots> = Inr (TDelim CHR ''{'', at_pos w ObjectStart (ObjectValue # stk))"
    by (rule FToken_open_at(2)[OF skip_ws_quote(4)]) (simp_all add: tokenValueAllowed_def)
  finally show ?thesis .
qed

lemma object_end:
  "FToken (at_pos (CHR ''}'' # w) ObjectComma (up # stk)) = Inr (TDelim CHR ''}'', at_pos w (tokenValueEnd up) stk)"
  by (rule FToken_close_at(2)) (simp_all add: next_is_def skip_ws_quote)

definition mcs_meta :: bytes where
  "mcs_meta = ''{'' @ Marshal_string TokenMetaKey @ '':'' @ Marshal_string ''tok'' @ ''}''"

definition mcs_params :: bytes where
  "mcs_params = ''{'' @ Marshal_string ''name'' @ '':'' @ Marshal_string ''pay'' @ '','' @ Marshal_string ''_meta'' @ '':'' @ mcs_meta @ ''}''"

lemma mcs_valid: "ValidString ''jsonrpc''" "ValidString ''method''" "ValidString ''params''" "ValidString ''2.0''" "ValidString ''tools/call''"
  "ValidString ''name''" "ValidString ''pay''" "ValidString ''_meta''" "ValidString TokenMetaKey" "ValidString ''tok''"
  by (rule ascii_valid; simp add: byte_def TokenMetaKey_def)+

lemma mcs_scan: "validateCallParams mcs_params = Inr ()"
proof -
  note ev = quoted_key quoted_value object_value object_end mcs_valid next_key
  have o: "FToken (NewDecoder mcs_params) = Inr (TDelim CHR ''{'', at_pos (Marshal_string ''name'' @ '':'' @ Marshal_string ''pay'' @ '','' @
      Marshal_string ''_meta'' @ '':'' @ mcs_meta @ ''}'') ObjectStart [TopValue])"
    unfolding NewDecoder_def mcs_params_def using FToken_open_at(2)[OF skip_ws_quote(4), of TopValue] by (simp add: tokenValueAllowed_def)
  have m: "More (at_pos (Marshal_string k @ w) st stk)" "More (at_pos (CHR '','' # w) st stk)" "\<not> More (at_pos (CHR ''}'' # w) st stk)" for k w st stk
    by (simp_all add: More_def Marshal_string_quoted skip_ws_quote)
  have v1: "skipValue (at_pos (CHR '':'' # Marshal_string ''pay'' @ w) ObjectColon stk) = Inr (at_pos w ObjectComma stk)" for w stk
    by (simp add: skipValue_def ev)
  have v2: "skipValue (at_pos (CHR '':'' # mcs_meta @ w) ObjectColon stk) = Inr (at_pos w ObjectComma stk)" for w stk
    by (simp add: skipValue_def mcs_meta_def ev tokenValueEnd_def)
  have "mcs_params \<noteq> []" by (simp add: mcs_params_def)
  then show ?thesis unfolding validateCallParams_def scan_object_def
    by (simp add: o m v1 v2 ev scan_members.simps[of _ "[]"] scan_members.simps[of _ "[''name'']"] scan_members.simps[of _ "[''_meta'', ''name'']"] allowedCallParams_def)
qed


lemma mcs_text: "text_of (Suc (Suc 0)) (JObj [] [([], TokenMetaKey, JTok (TStr ''tok'') [])]) mcs_meta"
  "text_of (Suc 0) (JObj [] [([], ''name'', JTok (TStr ''pay'') []), ([], ''_meta'', JObj [] [([], TokenMetaKey, JTok (TStr ''tok'') [])])]) mcs_params"
proof -
  have d: "Suc (Suc 0) < maxNestingDepth" "Suc 0 < maxNestingDepth" by (simp_all add: maxNestingDepth_def)
  let ?m = "JObj [] [([], TokenMetaKey, JTok (TStr ''tok'') [])]"
  have "text_of (Suc (Suc 0)) ?m (CHR ''{'' # comma_join (map member_of [(Marshal_string TokenMetaKey, Marshal_string ''tok'')]) @ ''}'')"
    by (rule text_obj'[OF d(1)]) (simp add: text_member_def key_text_Marshal mcs_valid text_Marshal_string)
  then show m: "text_of (Suc (Suc 0)) ?m mcs_meta" by (simp add: mcs_meta_def member_of_def)
  have "text_of (Suc 0) (JObj [] [([], ''name'', JTok (TStr ''pay'') []), ([], ''_meta'', ?m)])
      (CHR ''{'' # comma_join (map member_of [(Marshal_string ''name'', Marshal_string ''pay''), (Marshal_string ''_meta'', mcs_meta)]) @ ''}'')"
    by (rule text_obj'[OF d(2)]) (simp add: text_member_def key_text_Marshal mcs_valid text_Marshal_string m)
  then show "text_of (Suc 0) (JObj [] [([], ''name'', JTok (TStr ''pay'') []), ([], ''_meta'', ?m)]) mcs_params"
    by (simp add: mcs_params_def member_of_def)
qed

lemma Unmarshal_string_plain: "parse_json raw = Some t \<Longrightarrow> plain t = JTok (TStr s) [] \<Longrightarrow> Unmarshal_string raw = Some s"
  by (cases t) (auto simp: Unmarshal_string_def dec_string_def)

lemma mcs_call: "\<exists>call. Unmarshal_call mcs_params = (True, call) \<and> cp_Name call = ''pay'' \<and> cp_Arguments call = [] \<and> extractToken (cp_Meta call) = ''tok''"
proof -
  have d: "(0 :: nat) < maxNestingDepth" by (simp add: maxNestingDepth_def)
  let ?tm = "JObj [] [([], TokenMetaKey, JTok (TStr ''tok'') [])]"
  have "list_all2 (text_member (Suc 0)) [([], ''name'', JTok (TStr ''pay'') []), ([], ''_meta'', ?tm)]
      [(Marshal_string ''name'', Marshal_string ''pay''), (Marshal_string ''_meta'', mcs_meta)]"
    using text_of_shallower[OF mcs_text(1), of "Suc 0"] by (simp add: text_member_def key_text_Marshal mcs_valid text_Marshal_string)
  from members_parse[OF d this, of mcs_params] obtain ms where p: "parse_json mcs_params = Some (JObj mcs_params ms)" "read_at 0 (JObj mcs_params ms)"
    "same_members ms [([], ''name'', JTok (TStr ''pay'') []), ([], ''_meta'', ?tm)]
       [(Marshal_string ''name'', Marshal_string ''pay''), (Marshal_string ''_meta'', mcs_meta)]"
    by (auto simp: mcs_params_def member_of_def)
  from p(3) obtain k1 k2 v1 v2 where ms: "ms = [(k1, ''name'', v1), (k2, ''_meta'', v2)]" "plain v1 = JTok (TStr ''pay'') []" "plain v2 = plain ?tm"
    by (auto simp: same_members_def plain_member_def map_eq_Cons_conv)
  then obtain s1 where v1: "v1 = JTok (TStr ''pay'') s1" by (cases v1) auto
  from plain_JObj_cases[OF ms(3)] obtain r2 m2 where v2: "v2 = JObj r2 m2" "same_docs m2 [([], TokenMetaKey, JTok (TStr ''tok'') [])]" by blast
  then obtain k3 v3 where m2: "m2 = [(k3, TokenMetaKey, v3)]" "plain v3 = JTok (TStr ''tok'') []"
    by (auto simp: same_docs_def plain_member_def map_eq_Cons_conv)
  have "read_at (Suc 0) v2" using read_object_members[OF p(2), of "(k2, ''_meta'', v2)"] ms(1) by simp
  then have "read_at (Suc (Suc 0)) v3" using read_object_members[of "Suc 0" r2 m2 "(k3, TokenMetaKey, v3)"] v2(1) m2(1) by simp
  then have "Unmarshal_string (tree_raw v3) = Some ''tok''" using Unmarshal_string_plain[OF read_alone] m2(2) by blast
  then have "extractToken [(TokenMetaKey, tree_raw v3)] = ''tok''" by (simp add: extractToken_def)
  moreover have "Unmarshal_call mcs_params = (True, \<lparr>cp_Name = ''pay'', cp_Arguments = [], cp_Meta = [(TokenMetaKey, tree_raw v3)]\<rparr>)"
    unfolding Unmarshal_call_def Unmarshal_struct_def p(1) ms(1)
    by (simp add: call_member_eval v1 v2(1) m2(1) dec_string_def dec_rawmap_def rawmap_of_def put_def)
  ultimately show ?thesis by simp
qed

definition mcs_request :: bytes where
  "mcs_request = the (Marshal_members [(''jsonrpc'', Some (Marshal_string ''2.0'')), (''method'', Some (Marshal_string ''tools/call'')), (''params'', Some mcs_params)])"

lemma mcs_rpc: "Unmarshal_rpc mcs_request = (True, \<lparr>rq_Jsonrpc = ''2.0'', rq_ID = [], rq_Method = ''tools/call'', rq_Params = mcs_params\<rparr>)"
proof -
  let ?k = "[(''jsonrpc'', Marshal_string ''2.0''), (''method'', Marshal_string ''tools/call''), (''params'', mcs_params)]"
  let ?p = "JObj [] [([], ''name'', JTok (TStr ''pay'') []), ([], ''_meta'', JObj [] [([], TokenMetaKey, JTok (TStr ''tok'') [])])]"
  let ?t = "[JTok (TStr ''2.0'') [], JTok (TStr ''tools/call'') [], ?p]"
  have "list_all2 (\<lambda>(k, x) t. ValidString k \<and> text_of (Suc 0) t x) ?k ?t"
    using mcs_valid mcs_text(2) by (simp add: text_Marshal_string)
  moreover have "(0 :: nat) < maxNestingDepth" by (simp add: maxNestingDepth_def)
  ultimately obtain raw ms where m: "Marshal_members (map (\<lambda>(k, x). (k, Some x)) ?k) = Some raw" "parse_json raw = Some (JObj raw ms)"
    "names ms = map fst ?k" "map (\<lambda>m. tree_raw (snd (snd m))) ms = map snd ?k" "map (\<lambda>m. plain (snd (snd m))) ms = map plain ?t"
    using Marshal_members_reads[of 0 ?k ?t] by blast
  then obtain k1 k2 k3 v1 v2 v3 where ms: "ms = [(k1, ''jsonrpc'', v1), (k2, ''method'', v2), (k3, ''params'', v3)]"
      "plain v1 = JTok (TStr ''2.0'') []" "plain v2 = JTok (TStr ''tools/call'') []" "tree_raw v3 = mcs_params"
    by (auto simp: names_def map_eq_Cons_conv)
  have "mcs_request = raw" using m(1) by (simp add: mcs_request_def)
  then show ?thesis using m(2) ms by (simp add: Unmarshal_rpc_def Unmarshal_struct_def zero_rpc_def rpc_member_eval)
qed

definition mcs_mcp :: "receipt list mcp" where
  "mcs_mcp = \<lparr>mw_Engine = dcs_engine 10 (10 * 10 ^ 9) (10 * 10 ^ 9), mw_ServerIdentity = ''srv'', mw_Forward = (\<lambda>_. Inr None)\<rparr>"

lemma mcs_forwarded: "\<exists>sent. fst (snd (mcp_Handle dcs_codec (dcs_env 5 5) (dcs_env 5 5) mcs_mcp mcs_request)) = Some sent"
proof -
  obtain call where call: "Unmarshal_call mcs_params = (True, call)" "cp_Name call = ''pay''" "cp_Arguments call = []" "extractToken (cp_Meta call) = ''tok''"
    using mcs_call by blast
  let ?e = "dcs_engine 10 (10 * 10 ^ 9) (10 * 10 ^ 9)"
  have "dd_permit (fst (Decide dcs_codec (dcs_env 5 5) ?e ''tok'' dcs_intent))"
    using dcs_permit[of ?e 10 "10 * 10 ^ 9" "10 * 10 ^ 9" 5 5]
    by (auto simp: dcs_engine_def unix_def time_Until_def time_Unix_id live_slots_def dstep_def)
  then show ?thesis using permitted_call_is_forwarded[OF mcs_rpc, of call dcs_codec "dcs_env 5 5" mcs_mcp] mcs_scan call
    by (simp add: mcs_mcp_def dcs_intent_def)
qed

theorem forwarded_call_is_authorized_call_witness:
  "\<exists>resp sent e' req' call'. mcp_Handle dcs_codec (dcs_env 5 5) (dcs_env 5 5) mcs_mcp mcs_request = (resp, Some sent, e') \<and>
     Unmarshal_rpc sent = (True, req') \<and> rq_Method req' = ''tools/call'' \<and> Unmarshal_call (rq_Params req') = (True, call') \<and>
     cp_Name call' = ''pay'' \<and> \<not> has_key (cp_Meta call') TokenMetaKey"
proof -
  obtain resp sent e' where h: "mcp_Handle dcs_codec (dcs_env 5 5) (dcs_env 5 5) mcs_mcp mcs_request = (resp, Some sent, e')"
    using mcs_forwarded by (metis prod.collapse)
  have "\<exists>call cl req' call'. Unmarshal_call (rq_Params (snd (Unmarshal_rpc mcs_request))) = (True, call) \<and>
     the (dn_Verify (dg_cfg (mw_Engine mcs_mcp))) (dv_verify (dcs_env 5 5)) (extractToken (cp_Meta call)) = Inr cl \<and>
     claimStr cl ''aud'' = dn_Audience (dg_cfg (mw_Engine mcs_mcp)) \<and>
     (Digest dcs_codec dcs_intent = Inr (BoundDigestFromClaims cl) \<longrightarrow> same_action dcs_intent (call_intent mcs_mcp call)) \<and>
     Unmarshal_rpc sent = (True, req') \<and> rq_Method req' = ''tools/call'' \<and> Unmarshal_call (rq_Params req') = (True, call') \<and>
     cp_Name call' = cp_Name call \<and> same_text (cp_Arguments call') (cp_Arguments call) \<and> \<not> has_key (cp_Meta call') TokenMetaKey"
  proof (rule forwarded_call_is_authorized_call[OF h])
    show "rq_Method (snd (Unmarshal_rpc mcs_request)) = ''tools/call''" by (simp add: mcs_rpc)
    show "\<forall>b. jc_b64dec dcs_codec (jc_b64enc dcs_codec b) = Some b" by (simp add: dcs_codec_def rcs_codec_def)
    show "\<forall>p q call. Unmarshal_call (rq_Params (snd (Unmarshal_rpc mcs_request))) = (True, call) \<longrightarrow> intent_preimage dcs_intent = Inr p \<longrightarrow>
       intent_preimage (call_intent mcs_mcp call) = Inr q \<longrightarrow> jc_sha256 dcs_codec p = jc_sha256 dcs_codec q \<longrightarrow> p = q"
      using mcs_call by (auto simp: mcs_rpc mcs_mcp_def dcs_intent_def)
  qed
  with h mcs_call show ?thesis by (auto simp: mcs_rpc)
qed

end
