(* ===== verification/StatusList.thy ===== *)
theory StatusList
  imports Ledger "HOL-Library.Word"
begin

text \<open>
  Token revocation (src/internal/statuslist): the bit-packed status list, the verification of a
  status list token, and the resolver that answers from cached snapshots.

  Base64, zlib, JSON and Ed25519 are parameters. A byte access outside the data, which would panic
  in Go, is an error value of the model; the invariant shows that it never happens.
\<close>

datatype sl_err =
    ErrBits | ErrIndex | ErrStatusSize | ErrDecode string | ErrTooLarge | NegativeLength | SlPanic
  | ErrToken string | ErrAlg | ErrSig | ErrExpired | ErrSubject
  | ErrUnavailable | ErrRevoked | ErrSuspended | ErrUnknown

section \<open>The list\<close>

record statuslist =
  sl_bits :: int
  sl_entries :: int
  sl_data :: "8 word list"
  sl_notAfter :: int

definition validBits :: "int \<Rightarrow> bool" where
  "validBits b = (b = 1 \<or> b = 2 \<or> b = 4 \<or> b = 8)"

definition byteLen :: "int \<Rightarrow> int \<Rightarrow> int" where
  "byteLen bits n = (let totalBits = wrap64 (bits * n) in go_quot (wrap64 (totalBits + 7)) 8)"

definition New :: "int \<Rightarrow> int \<Rightarrow> sl_err + statuslist" where
  "New bits n =
     (if \<not> validBits bits then Inl ErrBits
      else if n < 0 then Inl NegativeLength
      else if byteLen bits n < 0 then Inl SlPanic
      else Inr \<lparr>sl_bits = bits, sl_entries = n, sl_data = replicate (nat (byteLen bits n)) 0, sl_notAfter = 0\<rparr>)"

definition bit_at :: "8 word list \<Rightarrow> nat \<Rightarrow> bool" where
  "bit_at d p = bit (d ! (p div 8)) (7 - p mod 8)"

text \<open>The loop of \<open>Get\<close>: \<open>n\<close> bits from position \<open>p\<close>, most significant first. The accumulator holds
  at most eight bits of a \<open>uint16\<close>, so shifting and or-ing is doubling and adding.\<close>

fun read_bits :: "8 word list \<Rightarrow> nat \<Rightarrow> nat \<Rightarrow> nat \<Rightarrow> sl_err + nat" where
  "read_bits d p 0 v = Inr v"
| "read_bits d p (Suc n) v =
     (if p div 8 \<ge> length d then Inl SlPanic
      else read_bits d (Suc p) n (2 * v + of_bool (bit_at d p)))"

definition sl_Get :: "statuslist \<Rightarrow> int \<Rightarrow> sl_err + nat" where
  "sl_Get l i =
     (if i < 0 \<or> i \<ge> sl_entries l then Inl ErrIndex
      else read_bits (sl_data l) (nat (i * sl_bits l)) (nat (sl_bits l)) 0)"

definition write_bit :: "8 word list \<Rightarrow> nat \<Rightarrow> bool \<Rightarrow> 8 word list" where
  "write_bit d p b =
     d[p div 8 := (if b then Bit_Operations.set_bit (7 - p mod 8) (d ! (p div 8))
                   else unset_bit (7 - p mod 8) (d ! (p div 8)))]"

fun write_bits :: "8 word list \<Rightarrow> nat \<Rightarrow> nat \<Rightarrow> nat \<Rightarrow> sl_err + 8 word list" where
  "write_bits d p 0 s = Inr d"
| "write_bits d p (Suc n) s =
     (if p div 8 \<ge> length d then Inl SlPanic else write_bits (write_bit d p (bit s n)) (Suc p) n s)"

definition sl_Set :: "statuslist \<Rightarrow> int \<Rightarrow> nat \<Rightarrow> sl_err + statuslist" where
  "sl_Set l i s =
     (if i < 0 \<or> i \<ge> sl_entries l then Inl ErrIndex
      else if s \<ge> 2 ^ nat (sl_bits l) then Inl ErrStatusSize
      else case write_bits (sl_data l) (nat (i * sl_bits l)) (nat (sl_bits l)) s of
          Inl e \<Rightarrow> Inl e
        | Inr d \<Rightarrow> Inr (l\<lparr>sl_data := d\<rparr>))"

definition maxDecompressed :: nat where
  "maxDecompressed = 16 * 2 ^ 20"

text \<open>\<open>inflate n raw\<close> is \<open>io.ReadAll\<close> of the zlib stream limited to \<open>n\<close> bytes.\<close>

definition Decode ::
  "(string \<Rightarrow> bytes option) \<Rightarrow> (nat \<Rightarrow> bytes \<Rightarrow> 8 word list option) \<Rightarrow> int \<Rightarrow> string \<Rightarrow> int \<Rightarrow> sl_err + statuslist" where
  "Decode b64dec inflate bits lst entries =
     (if \<not> validBits bits then Inl ErrBits
      else case b64dec lst of
          None \<Rightarrow> Inl (ErrDecode ''base64'')
        | Some raw \<Rightarrow>
            (case inflate (maxDecompressed + 1) raw of
               None \<Rightarrow> Inl (ErrDecode ''zlib'')
             | Some d \<Rightarrow>
                 if length d > maxDecompressed then Inl ErrTooLarge
                 else let maxEntries = (int (length d) * 8) div bits;
                          n = (if entries \<le> 0 then maxEntries else entries)
                      in if n > maxEntries then Inl (ErrDecode ''entries'')
                         else Inr \<lparr>sl_bits = bits, sl_entries = n, sl_data = d, sl_notAfter = 0\<rparr>))"

section \<open>Status list tokens\<close>

record slclaims =
  sc_Sub :: string
  sc_Exp :: int
  sc_Entries :: int
  sc_Bits :: int
  sc_Lst :: string

record slcodec =
  cd_b64 :: "string \<Rightarrow> bytes option"
  cd_inflate :: "nat \<Rightarrow> bytes \<Rightarrow> 8 word list option"
  cd_header :: "bytes \<Rightarrow> (string \<times> string) option"
  cd_claims :: "bytes \<Rightarrow> slclaims option"
  cd_edverify :: "bytes \<Rightarrow> bytes \<Rightarrow> bytes \<Rightarrow> bool"

definition sl_TokenType :: string where
  "sl_TokenType = ''statuslist+jwt''"

definition VerifyToken :: "slcodec \<Rightarrow> string \<Rightarrow> string \<Rightarrow> bytes \<Rightarrow> gotime \<Rightarrow> sl_err + statuslist" where
  "VerifyToken c tok uri statusPub now =
     (case split_char CHR ''.'' tok of
        [h, p, s] \<Rightarrow>
          (case cd_b64 c h of
             None \<Rightarrow> Inl (ErrToken ''header b64'')
           | Some hb \<Rightarrow>
          (case cd_header c hb of
             None \<Rightarrow> Inl (ErrToken ''header json'')
           | Some (alg, typ) \<Rightarrow>
               if alg \<noteq> ''EdDSA'' then Inl ErrAlg
               else if typ \<noteq> sl_TokenType then Inl (ErrToken ''typ'')
               else
          (case cd_b64 c s of
             None \<Rightarrow> Inl (ErrToken ''signature b64'')
           | Some sig \<Rightarrow>
               if length sig \<noteq> 64 then Inl (ErrToken ''signature b64'')
               else if length statusPub \<noteq> 32 \<or> \<not> cd_edverify c statusPub (h @ ''.'' @ p) sig then Inl ErrSig
               else
          (case cd_b64 c p of
             None \<Rightarrow> Inl (ErrToken ''payload b64'')
           | Some cb \<Rightarrow>
          (case cd_claims c cb of
             None \<Rightarrow> Inl (ErrToken ''payload json'')
           | Some cl \<Rightarrow>
               if sc_Sub cl \<noteq> uri then Inl ErrSubject
               else if sc_Exp cl = 0 then Inl ErrExpired
               else if unix now \<ge> sc_Exp cl then Inl ErrExpired
               else case Decode (cd_b64 c) (cd_inflate c) (sc_Bits cl) (sc_Lst cl) (sc_Entries cl) of
                   Inl e \<Rightarrow> Inl e
                 | Inr l \<Rightarrow> Inr (l\<lparr>sl_notAfter := sc_Exp cl\<rparr>))))))
      | _ \<Rightarrow> Inl (ErrToken ''want 3 parts''))"

section \<open>References and the resolver\<close>

record reference =
  rf_Index :: int
  rf_URI :: string

definition ReferenceFromClaims :: "(gofloat \<Rightarrow> int) \<Rightarrow> claims \<Rightarrow> sl_err + reference option" where
  "ReferenceFromClaims oob cl =
     (case map_of cl ''status'' of
        Some (GMap st) \<Rightarrow>
          (case map_of st ''status_list'' of
             Some (GMap sl) \<Rightarrow>
               (case map_of sl ''uri'' of
                  Some (GStr uri) \<Rightarrow>
                    if uri = [] then Inl (ErrToken ''status_list without uri'')
                    else (case map_of sl ''idx'' of
                        Some (GFloat64 f) \<Rightarrow> Inr (Some \<lparr>rf_Index = float_to_int oob f, rf_URI = uri\<rparr>)
                      | Some (GInt I i) \<Rightarrow> Inr (Some \<lparr>rf_Index = i, rf_URI = uri\<rparr>)
                      | _ \<Rightarrow> Inl (ErrToken ''status_list without numeric idx''))
                | _ \<Rightarrow> Inl (ErrToken ''status_list without uri''))
           | _ \<Rightarrow> Inl (ErrToken ''status without status_list''))
      | _ \<Rightarrow> Inr None)"

type_synonym resolver = "statuslist gomap"

definition NewResolver :: resolver where
  "NewResolver = []"

definition AddVerified ::
  "slcodec \<Rightarrow> resolver \<Rightarrow> string \<Rightarrow> string \<Rightarrow> bytes \<Rightarrow> gotime \<Rightarrow> (sl_err + unit) \<times> resolver" where
  "AddVerified c r tok uri statusPub now =
     (case VerifyToken c tok uri statusPub now of
        Inl e \<Rightarrow> (Inl e, r)
      | Inr l \<Rightarrow> (Inr (), put uri l r))"

definition sl_Check :: "resolver \<Rightarrow> reference \<Rightarrow> gotime \<Rightarrow> sl_err + unit" where
  "sl_Check r ref now =
     (case map_of r (rf_URI ref) of
        None \<Rightarrow> Inl ErrUnavailable
      | Some l \<Rightarrow>
          if is_zero_time now \<or> sl_notAfter l = 0 \<or> unix now \<ge> sl_notAfter l then Inl ErrUnavailable
          else case sl_Get l (rf_Index ref) of
              Inl _ \<Rightarrow> Inl ErrUnknown
            | Inr s \<Rightarrow>
                if s = 0 then Inr ()
                else if s = 1 then Inl ErrRevoked
                else if s = 2 then Inl ErrSuspended
                else Inl ErrUnknown)"

section \<open>Reading and writing bits\<close>

lemma length_write_bit [simp]: "length (write_bit d p b) = length d"
  by (simp add: write_bit_def)

lemma bit_position: "(p :: nat) = q \<longleftrightarrow> p div 8 = q div 8 \<and> 7 - p mod 8 = 7 - q mod 8"
proof
  assume h: "p div 8 = q div 8 \<and> 7 - p mod 8 = 7 - q mod 8"
  have "p mod 8 < 8" "q mod 8 < 8" by simp_all
  with h have "p mod 8 = q mod 8" by arith
  with h show "p = q" by (metis div_mult_mod_eq)
qed simp

lemma bit_at_write_bit:
  assumes "p div 8 < length d" and "q div 8 < length d"
  shows "bit_at (write_bit d p b) q = (if p = q then b else bit_at d q)"
proof (cases "p div 8 = q div 8")
  case True
  with bit_position[of p q] assms show ?thesis
    by (auto simp: bit_at_def write_bit_def bit_set_bit_iff bit_unset_bit_iff)
next
  case False
  then have "p \<noteq> q" by auto
  with False show ?thesis by (simp add: bit_at_def write_bit_def)
qed

lemma write_bits_ok:
  "p + n \<le> 8 * length d \<Longrightarrow> \<exists>d'. write_bits d p n s = Inr d' \<and> length d' = length d \<and>
     (\<forall>q < 8 * length d. bit_at d' q = (if p \<le> q \<and> q < p + n then bit s (n - 1 - (q - p)) else bit_at d q))"
proof (induction n arbitrary: d p)
  case (Suc n)
  have p: "p div 8 < length d" using Suc.prems by (simp add: less_mult_imp_div_less mult.commute)
  obtain d' where d': "write_bits (write_bit d p (bit s n)) (Suc p) n s = Inr d'" "length d' = length d"
    "\<forall>q < 8 * length d. bit_at d' q =
       (if Suc p \<le> q \<and> q < Suc p + n then bit s (n - 1 - (q - Suc p)) else bit_at (write_bit d p (bit s n)) q)"
    using Suc.IH[of "Suc p" "write_bit d p (bit s n)"] Suc.prems by auto
  have "bit_at d' q = (if p \<le> q \<and> q < p + Suc n then bit s (Suc n - 1 - (q - p)) else bit_at d q)"
    if q: "q < 8 * length d" for q
  proof -
    have "q div 8 < length d" using q by (simp add: less_mult_imp_div_less mult.commute)
    note bq = bit_at_write_bit[OF p this, of "bit s n"]
    show ?thesis
    proof (cases "Suc p \<le> q \<and> q < Suc p + n")
      case True
      then have "n - 1 - (q - Suc p) = n - (q - p)" by arith
      with True d'(3) q show ?thesis by simp
    next
      case False
      with d'(3) q bq show ?thesis by auto
    qed
  qed
  with d' p show ?case by simp
qed auto

lemma read_bits_ok:
  "p + n \<le> 8 * length d \<Longrightarrow> (\<forall>k < n. bit_at d (p + k) = bit (s :: nat) (n - 1 - k)) \<Longrightarrow>
   read_bits d p n v = Inr (v * 2 ^ n + take_bit n s)"
proof (induction n arbitrary: p v)
  case (Suc n)
  have p: "p div 8 < length d" using Suc.prems(1) by (simp add: less_mult_imp_div_less mult.commute)
  have b: "bit_at d p = bit s n" using Suc.prems(2)[rule_format, of 0] by simp
  have "\<forall>k < n. bit_at d (Suc p + k) = bit s (n - 1 - k)"
  proof (intro allI impI)
    fix k assume "k < n"
    with Suc.prems(2)[rule_format, of "Suc k"] show "bit_at d (Suc p + k) = bit s (n - 1 - k)" by simp
  qed
  with Suc.IH[of "Suc p"] Suc.prems(1)
  have "read_bits d (Suc p) n v' = Inr (v' * 2 ^ n + take_bit n s)" for v' by simp
  moreover have "take_bit (Suc n) s = take_bit n s + of_bool (bit s n) * 2 ^ n"
    by (simp add: take_bit_Suc_from_most mult.commute)
  ultimately show ?case using p b by (simp add: algebra_simps)
qed simp

lemma read_bits_total: "p + n \<le> 8 * length d \<Longrightarrow> is_ok (read_bits d p n v)"
proof (induction n arbitrary: p v)
  case (Suc n)
  have "p div 8 < length d" using Suc.prems by (simp add: less_mult_imp_div_less mult.commute)
  with Suc show ?case by simp
qed simp

lemma read_bits_cong:
  "length d = length d' \<Longrightarrow> p + n \<le> 8 * length d \<Longrightarrow> (\<forall>k < n. bit_at d (p + k) = bit_at d' (p + k)) \<Longrightarrow>
   read_bits d p n v = read_bits d' p n v"
proof (induction n arbitrary: p v)
  case (Suc n)
  have "bit_at d p = bit_at d' p" using Suc.prems(3)[rule_format, of 0] by simp
  moreover have "\<forall>k < n. bit_at d (Suc p + k) = bit_at d' (Suc p + k)"
    using Suc.prems(3) by (metis Suc_less_eq add_Suc_shift)
  moreover have "p div 8 < length d" using Suc.prems(2) by (simp add: less_mult_imp_div_less mult.commute)
  ultimately show ?case using Suc by simp
qed simp

section \<open>The list invariant\<close>

definition sl_inv :: "statuslist \<Rightarrow> bool" where
  "sl_inv l = (validBits (sl_bits l) \<and> 0 \<le> sl_entries l \<and> sl_entries l * sl_bits l \<le> 8 * int (length (sl_data l)))"

lemma validBits_pos: "validBits b \<Longrightarrow> 0 < b \<and> b \<le> 8"
  by (auto simp: validBits_def)

lemma entry_range:
  assumes "sl_inv l" and "0 \<le> i" and "i < sl_entries l"
  shows "nat (i * sl_bits l) + nat (sl_bits l) \<le> 8 * length (sl_data l)"
proof -
  have b: "0 < sl_bits l" using assms(1) validBits_pos by (auto simp: sl_inv_def)
  have "(i + 1) * sl_bits l \<le> sl_entries l * sl_bits l" using assms(3) b by (intro mult_right_mono) auto
  with assms(1) have "i * sl_bits l + sl_bits l \<le> 8 * int (length (sl_data l))"
    by (simp add: sl_inv_def algebra_simps)
  moreover have "0 \<le> i * sl_bits l" using assms(2) b by simp
  ultimately show ?thesis using b by linarith
qed

lemma New_inv: "New bits n = Inr l \<Longrightarrow> n < 2 ^ 59 \<Longrightarrow> sl_inv l \<and> sl_entries l = n"
proof -
  assume a: "New bits n = Inr l" and n: "n < 2 ^ 59"
  from a have v: "validBits bits" "0 \<le> n"
    and l: "l = \<lparr>sl_bits = bits, sl_entries = n, sl_data = replicate (nat (byteLen bits n)) 0, sl_notAfter = 0\<rparr>"
    by (auto simp: New_def split: if_splits)
  from v n have "byteLen bits n = (bits * n + 7) div 8" "0 \<le> bits * n"
    by (auto simp: byteLen_def validBits_def go_quot_def)
  then have "n * bits \<le> 8 * byteLen bits n" "0 \<le> byteLen bits n"
    by (simp_all add: mult.commute)
  with v l show ?thesis by (simp add: sl_inv_def)
qed

lemma Decode_inv: "Decode b64 z bits lst n = Inr l \<Longrightarrow> sl_inv l"
proof -
  assume a: "Decode b64 z bits lst n = Inr l"
  then have v: "validBits bits" and b: "sl_bits l = bits" and e: "sl_entries l \<le> int (length (sl_data l)) * 8 div bits"
    by (auto simp: Decode_def Let_def split: if_splits option.splits)
  from validBits_pos[OF v] have pos: "0 < bits" by simp
  have "0 \<le> sl_entries l"
    using a pos by (auto simp: Decode_def Let_def pos_imp_zdiv_nonneg_iff split: if_splits option.splits)
  moreover have "sl_entries l * bits \<le> int (length (sl_data l)) * 8"
  proof -
    have "sl_entries l * bits \<le> (int (length (sl_data l)) * 8 div bits) * bits"
      using e pos by (intro mult_right_mono) auto
    moreover have "(int (length (sl_data l)) * 8 div bits) * bits \<le> int (length (sl_data l)) * 8"
      using div_mult_mod_eq[of "int (length (sl_data l)) * 8" bits] pos_mod_sign[OF pos, of "int (length (sl_data l)) * 8"]
      by linarith
    ultimately show ?thesis by linarith
  qed
  ultimately show ?thesis using v b by (simp add: sl_inv_def mult.commute)
qed

lemma sl_Set_spec:
  assumes "sl_inv l" and "0 \<le> i" and "i < sl_entries l" and "s < 2 ^ nat (sl_bits l)"
  obtains l' where "sl_Set l i s = Inr l'" and "sl_inv l'" and "sl_entries l' = sl_entries l"
    and "sl_Get l' i = Inr s" and "\<And>j. j \<noteq> i \<Longrightarrow> sl_Get l' j = sl_Get l j"
proof -
  let ?b = "nat (sl_bits l)" and ?p = "\<lambda>j. nat (j * sl_bits l)"
  have bpos: "0 < sl_bits l" using assms(1) validBits_pos by (auto simp: sl_inv_def)
  from write_bits_ok[OF entry_range[OF assms(1-3)], of s] obtain d where
    d: "write_bits (sl_data l) (?p i) ?b s = Inr d" "length d = length (sl_data l)"
    "\<forall>q < 8 * length (sl_data l). bit_at d q =
      (if ?p i \<le> q \<and> q < ?p i + ?b then bit s (?b - 1 - (q - ?p i)) else bit_at (sl_data l) q)" by blast
  let ?l = "l\<lparr>sl_data := d\<rparr>"
  have set: "sl_Set l i s = Inr ?l" using assms d by (simp add: sl_Set_def)
  have inv: "sl_inv ?l" using assms(1) d(2) by (simp add: sl_inv_def)
  have "read_bits d (?p i) ?b 0 = Inr (0 * 2 ^ ?b + take_bit ?b s)"
    by (rule read_bits_ok) (use entry_range[OF assms(1-3)] d in auto)
  moreover have "take_bit ?b s = s" using assms(4) by (simp add: take_bit_nat_eq_self_iff)
  ultimately have get: "sl_Get ?l i = Inr s" using assms by (simp add: sl_Get_def)
  have other: "sl_Get ?l j = sl_Get l j" if ji: "j \<noteq> i" for j
  proof (cases "0 \<le> j \<and> j < sl_entries l")
    case True
    note r = entry_range[OF assms(1), of j]
    have disj: "\<not> (?p i \<le> ?p j + k \<and> ?p j + k < ?p i + ?b)" if "k < ?b" for k
    proof (cases "j < i")
      case jl: True
      have "(j + 1) * sl_bits l \<le> i * sl_bits l" using jl bpos by (intro mult_right_mono) auto
      then have "j * sl_bits l + sl_bits l \<le> i * sl_bits l" by (simp add: algebra_simps)
      moreover have "0 \<le> j * sl_bits l" using True bpos by simp
      ultimately have "?p j + ?b \<le> ?p i" using bpos by linarith
      with that show ?thesis by linarith
    next
      case False
      with ji have "i + 1 \<le> j" by simp
      then have "(i + 1) * sl_bits l \<le> j * sl_bits l" using bpos by (intro mult_right_mono) auto
      then have "i * sl_bits l + sl_bits l \<le> j * sl_bits l" by (simp add: algebra_simps)
      moreover have "0 \<le> i * sl_bits l" using assms(2) bpos by simp
      ultimately have "?p i + ?b \<le> ?p j" using bpos by linarith
      then show ?thesis by linarith
    qed
    have "read_bits d (?p j) ?b 0 = read_bits (sl_data l) (?p j) ?b 0"
    proof (rule read_bits_cong)
      show "\<forall>k < ?b. bit_at d (?p j + k) = bit_at (sl_data l) (?p j + k)"
      proof (intro allI impI)
        fix k assume k: "k < ?b"
        with r True have "?p j + k < 8 * length (sl_data l)" by simp
        with d(3) disj[OF k] show "bit_at d (?p j + k) = bit_at (sl_data l) (?p j + k)" by auto
      qed
    qed (use r True d in auto)
    with True show ?thesis by (simp add: sl_Get_def)
  qed (auto simp: sl_Get_def)
  show thesis by (rule that[OF set inv _ get other]) simp_all
qed

inductive resolver_reach :: "slcodec \<Rightarrow> resolver \<Rightarrow> bool" for c where
  init: "resolver_reach c NewResolver"
| add: "resolver_reach c r \<Longrightarrow> AddVerified c r tok uri pub now = (res, r') \<Longrightarrow> resolver_reach c r'"

lemma VerifyToken_ok:
  assumes "VerifyToken c tok uri pub now = Inr l"
  shows "sl_inv l \<and> sl_notAfter l \<noteq> 0 \<and> unix now < sl_notAfter l"
proof -
  from assms obtain bits lst n l0 e where l: "Decode (cd_b64 c) (cd_inflate c) bits lst n = Inr l0"
    "l = l0\<lparr>sl_notAfter := e\<rparr>" "e \<noteq> 0" "unix now < e"
    by (auto simp: VerifyToken_def not_le split: list.splits option.splits if_splits sum.splits)
  with Decode_inv[OF l(1)] show ?thesis by (simp add: sl_inv_def)
qed

lemma resolver_inv:
  "resolver_reach c r \<Longrightarrow> map_of r uri = Some l \<Longrightarrow> \<exists>tok pub now. VerifyToken c tok uri pub now = Inr l"
proof (induction rule: resolver_reach.induct)
  case (add r tok uri' pub now res r')
  then show ?case by (auto simp: AddVerified_def split: sum.splits if_splits) blast
qed (simp add: NewResolver_def)

lemma sl_Get_total: "sl_inv l \<Longrightarrow> sl_Get l i = Inl e \<Longrightarrow> e = ErrIndex"
  using entry_range[of l i] read_bits_total[of "nat (i * sl_bits l)" "nat (sl_bits l)" "sl_data l" 0]
  by (auto simp: sl_Get_def is_ok_iff split: if_splits)

section \<open>Properties\<close>

text \<open>The packed list is an array of statuses. Setting an index of a well-formed list to a status
  that fits the width succeeds, keeps the list well-formed, is read back at that index, and changes
  the status of no other index.\<close>

theorem status_set_get:
  assumes "sl_inv l" and "0 \<le> i" and "i < sl_entries l" and "s < 2 ^ nat (sl_bits l)"
  shows "\<exists>l'. sl_Set l i s = Inr l' \<and> sl_inv l' \<and> sl_Get l' i = Inr s \<and>
    (\<forall>j. j \<noteq> i \<longrightarrow> sl_Get l' j = sl_Get l j)"
  using sl_Set_spec[OF assms] by metis

theorem status_set_get_witness:
  "\<exists>l l'. New 2 5 = Inr l \<and> sl_Set l 3 2 = Inr l' \<and> sl_Get l' 3 = Inr 2 \<and> sl_Get l' 4 = sl_Get l 4"
proof -
  obtain l where l: "New 2 5 = Inr l" by (simp add: New_def validBits_def byteLen_def go_quot_def)
  then have b: "sl_bits l = 2" by (auto simp: New_def validBits_def split: if_splits)
  have "sl_inv l" "sl_entries l = 5" using New_inv[OF l] by simp_all
  with status_set_get[of l 3 2] b l show ?thesis by auto
qed

text \<open>Revocation fails closed. For a resolver filled only through \<open>AddVerified\<close>, \<open>Check\<close> succeeds
  only if the list for the referenced URI came from a status list token that verified for that URI,
  the snapshot has not expired at the time of the decision, the index is inside the list and its
  status is VALID; and reading a cached list never runs outside its bytes.\<close>

theorem status_check_fails_closed:
  assumes "resolver_reach c r"
  shows "(sl_Check r ref now = Inr () \<longrightarrow>
      (\<exists>l tok pub t0. map_of r (rf_URI ref) = Some l \<and> VerifyToken c tok (rf_URI ref) pub t0 = Inr l \<and>
         unix now < sl_notAfter l \<and> 0 \<le> rf_Index ref \<and> rf_Index ref < sl_entries l \<and>
         sl_Get l (rf_Index ref) = Inr 0)) \<and>
    (\<forall>uri l i. map_of r uri = Some l \<longrightarrow> sl_Get l i \<noteq> Inl SlPanic)"
proof (intro conjI impI allI)
  assume "sl_Check r ref now = Inr ()"
  then obtain l where l: "map_of r (rf_URI ref) = Some l" "unix now < sl_notAfter l" "sl_Get l (rf_Index ref) = Inr 0"
    by (auto simp: sl_Check_def not_le split: option.splits if_splits sum.splits)
  moreover from l(3) have "0 \<le> rf_Index ref \<and> rf_Index ref < sl_entries l"
    by (auto simp: sl_Get_def split: if_splits)
  ultimately show "\<exists>l tok pub t0. map_of r (rf_URI ref) = Some l \<and> VerifyToken c tok (rf_URI ref) pub t0 = Inr l \<and>
         unix now < sl_notAfter l \<and> 0 \<le> rf_Index ref \<and> rf_Index ref < sl_entries l \<and>
         sl_Get l (rf_Index ref) = Inr 0"
    using resolver_inv[OF assms] by blast
next
  fix uri l i assume "map_of r uri = Some l"
  then have "sl_inv l" using resolver_inv[OF assms] VerifyToken_ok by blast
  then show "sl_Get l i \<noteq> Inl SlPanic" using sl_Get_total by blast
qed

definition sample_slcodec :: slcodec where
  "sample_slcodec = \<lparr>cd_b64 = (\<lambda>s. Some (if s = ''s'' then replicate 64 CHR 0x00 else s)),
     cd_inflate = (\<lambda>n b. Some [0, 0]),
     cd_header = (\<lambda>b. Some (''EdDSA'', ''statuslist+jwt'')),
     cd_claims = (\<lambda>b. Some \<lparr>sc_Sub = ''u'', sc_Exp = 100, sc_Entries = 16, sc_Bits = 1, sc_Lst = ''x''\<rparr>),
     cd_edverify = (\<lambda>_ _ _. True)\<rparr>"

theorem status_check_fails_closed_witness:
  "\<exists>r. resolver_reach sample_slcodec r \<and> sl_Check r \<lparr>rf_Index = 9, rf_URI = ''u''\<rparr> 0 = Inr () \<and>
     (\<exists>l. map_of r ''u'' = Some l \<and> sl_Get l 9 = Inr 0)"
proof -
  obtain l where l: "VerifyToken sample_slcodec ''h.p.s'' ''u'' (replicate 32 CHR 0x00) 0 = Inr l"
    "l = \<lparr>sl_bits = 1, sl_entries = 16, sl_data = [0, 0], sl_notAfter = 100\<rparr>"
    by (simp add: VerifyToken_def sample_slcodec_def sl_TokenType_def Decode_def validBits_def
        maxDecompressed_def Let_def unix_def)
  have "AddVerified sample_slcodec NewResolver ''h.p.s'' ''u'' (replicate 32 CHR 0x00) 0 = (Inr (), [(''u'', l)])"
    using l by (simp add: AddVerified_def NewResolver_def put_def)
  then have r: "resolver_reach sample_slcodec [(''u'', l)]"
    using resolver_reach.intros by blast
  have "sl_Check [(''u'', l)] \<lparr>rf_Index = 9, rf_URI = ''u''\<rparr> 0 = Inr ()"
    using l by (simp add: sl_Check_def sl_Get_def is_zero_time_def unix_def bit_at_def)
  with r status_check_fails_closed[OF r, of "\<lparr>rf_Index = 9, rf_URI = ''u''\<rparr>" 0] show ?thesis by auto
qed

text \<open>A \<open>status\<close> claim that is not an object is treated as absent.\<close>

lemma malformed_status_claim_ignored:
  assumes "\<forall>m. v \<noteq> GMap m"
  shows "ReferenceFromClaims oob [(''status'', v)] = Inr None"
  using assms by (auto simp: ReferenceFromClaims_def split: gval.splits)

end
