(* ===== verification/TrustRegistry.thy ===== *)
theory TrustRegistry
  imports Prelude
begin

text \<open>
  The issuer key registry (src/internal/trustregistry): records, the in-memory registry, and the
  file-backed registry with its save and roll-back. The locale \<open>key_registry\<close> is the contract the
  verifier relies on; both registries interpret it, and the persistent one refines the in-memory
  one.

  The clock reading of a lookup is an argument. \<open>save\<close> writes a temporary file and renames it, so it
  either replaces the stored content or leaves it; its outcome is an argument too.
\<close>

section \<open>Records\<close>

record trecord =
  tr_Iss :: string
  tr_Role :: string
  tr_PublicKey :: bytes
  tr_MlkemEncapKey :: bytes
  tr_KeyType :: string
  tr_ValidFrom :: gotime
  tr_ValidUntil :: gotime
  tr_Status :: string
  tr_Metadata :: "string gomap"

datatype tr_err = ErrNotFound | ErrConflict | ErrInvalidRecord | ErrSnapshotStale | ErrSave | ErrEmptyStore | ErrParseStore

definition RoleCTIssuer :: string where "RoleCTIssuer = ''ct_issuer''"
definition RoleTTSIssuer :: string where "RoleTTSIssuer = ''tts_issuer''"
definition RoleEscrow :: string where "RoleEscrow = ''escrow''"
definition RoleEscrowReq :: string where "RoleEscrowReq = ''escrow_req''"
definition RoleAudit :: string where "RoleAudit = ''audit''"

definition role_IsValid :: "string \<Rightarrow> bool" where
  "role_IsValid r = (r \<in> set [RoleCTIssuer, RoleTTSIssuer, RoleEscrow, RoleEscrowReq, RoleAudit])"

definition StatusActive :: string where "StatusActive = ''active''"
definition StatusRevoked :: string where "StatusRevoked = ''revoked''"
definition StatusSuperseded :: string where "StatusSuperseded = ''superseded''"

lemma status_distinct [simp]: "StatusRevoked \<noteq> StatusActive" "StatusSuperseded \<noteq> StatusActive"
  by (simp_all add: StatusActive_def StatusRevoked_def StatusSuperseded_def)

definition IsCurrentlyValid :: "trecord \<Rightarrow> gotime \<Rightarrow> bool" where
  "IsCurrentlyValid r t =
     (if tr_Status r \<noteq> StatusActive then False
      else if t < tr_ValidFrom r \<or> \<not> t < tr_ValidUntil r then False
      else True)"

definition MlkemEncapKeySize :: nat where
  "MlkemEncapKeySize = 1184"

definition validateRecord :: "trecord \<Rightarrow> tr_err + unit" where
  "validateRecord rec =
     (if tr_Iss rec = [] then Inl ErrInvalidRecord
      else if \<not> role_IsValid (tr_Role rec) then Inl ErrInvalidRecord
      else if tr_KeyType rec \<notin> set [''Ed25519'', ''X25519'', ''X25519+ML-KEM-768''] then Inl ErrInvalidRecord
      else if tr_KeyType rec \<in> set [''Ed25519'', ''X25519''] \<and>
        (length (tr_PublicKey rec) \<noteq> 32 \<or> length (tr_MlkemEncapKey rec) \<noteq> 0) then Inl ErrInvalidRecord
      else if tr_KeyType rec = ''X25519+ML-KEM-768'' \<and>
        (tr_Role rec \<noteq> RoleEscrow \<or> length (tr_PublicKey rec) \<noteq> 32 \<or>
         length (tr_MlkemEncapKey rec) \<noteq> MlkemEncapKeySize) then Inl ErrInvalidRecord
      else if \<not> tr_ValidUntil rec > tr_ValidFrom rec then Inl ErrInvalidRecord
      else Inr ())"

section \<open>The record store\<close>

type_synonym regmap = "((string \<times> string) \<times> trecord list) list"

definition recs :: "regmap \<Rightarrow> string \<times> string \<Rightarrow> trecord list" where
  "recs m k = (case map_of m k of None \<Rightarrow> [] | Some l \<Rightarrow> l)"

definition set_recs :: "string \<times> string \<Rightarrow> trecord list \<Rightarrow> regmap \<Rightarrow> regmap" where
  "set_recs k l m = AList.update k l m"

definition rkey :: "trecord \<Rightarrow> string \<times> string" where
  "rkey rec = (tr_Iss rec, tr_Role rec)"

text \<open>The loop that finds the first active record, and the update of a status in place.\<close>

fun first_active :: "trecord list \<Rightarrow> nat option" where
  "first_active [] = None"
| "first_active (r # rs) = (if tr_Status r = StatusActive then Some 0 else map_option Suc (first_active rs))"

definition set_status :: "nat \<Rightarrow> string \<Rightarrow> trecord list \<Rightarrow> trecord list" where
  "set_status i st l = l[i := (l ! i)\<lparr>tr_Status := st\<rparr>]"

fun best_record :: "gotime \<Rightarrow> trecord option \<Rightarrow> trecord list \<Rightarrow> trecord option" where
  "best_record now best [] = best"
| "best_record now best (r # rs) =
     best_record now
       (if IsCurrentlyValid r now then
          (case best of
             None \<Rightarrow> Some r
           | Some b \<Rightarrow> if tr_ValidFrom r > tr_ValidFrom b then Some r else best)
        else best) rs"

definition conflict :: "regmap \<Rightarrow> string \<times> string \<Rightarrow> bool" where
  "conflict m k = list_ex (\<lambda>r. tr_Status r = StatusActive) (recs m k)"

definition append_rec :: "trecord \<Rightarrow> regmap \<Rightarrow> regmap" where
  "append_rec rec m = set_recs (rkey rec) (recs m (rkey rec) @ [rec]) m"

definition retire :: "string \<Rightarrow> string \<times> string \<Rightarrow> regmap \<Rightarrow> regmap" where
  "retire st k m =
     (case first_active (recs m k) of None \<Rightarrow> m | Some i \<Rightarrow> set_recs k (set_status i st (recs m k)) m)"

definition lookup_recs :: "regmap \<Rightarrow> gotime \<Rightarrow> string \<Rightarrow> string \<Rightarrow> tr_err + trecord" where
  "lookup_recs m now iss role =
     (case best_record now None (recs m (iss, role)) of None \<Rightarrow> Inl ErrNotFound | Some r \<Rightarrow> Inr r)"

definition list_recs :: "regmap \<Rightarrow> string \<Rightarrow> trecord list" where
  "list_recs m role = concat (map snd (filter (\<lambda>((i, r), l). role = [] \<or> r = role) m))"

section \<open>The in-memory registry\<close>

type_synonym mock = regmap

definition NewMockRegistry :: mock where
  "NewMockRegistry = []"

text \<open>A mutating call returns its error and the registry after it.\<close>

definition mock_Register :: "mock \<Rightarrow> trecord \<Rightarrow> (tr_err + unit) \<times> mock" where
  "mock_Register r rec =
     (case validateRecord rec of
        Inl e \<Rightarrow> (Inl e, r)
      | Inr _ \<Rightarrow> if conflict r (rkey rec) then (Inl ErrConflict, r) else (Inr (), append_rec rec r))"

definition mock_Replace :: "mock \<Rightarrow> trecord \<Rightarrow> (tr_err + unit) \<times> mock" where
  "mock_Replace r rec =
     (case validateRecord rec of
        Inl e \<Rightarrow> (Inl e, r)
      | Inr _ \<Rightarrow> (Inr (), append_rec rec (retire StatusRevoked (rkey rec) r)))"

definition mock_setStatus :: "mock \<Rightarrow> string \<Rightarrow> string \<Rightarrow> string \<Rightarrow> (tr_err + unit) \<times> mock" where
  "mock_setStatus r iss role st =
     (case first_active (recs r (iss, role)) of
        None \<Rightarrow> (Inl ErrNotFound, r)
      | Some _ \<Rightarrow> (Inr (), retire st (iss, role) r))"

definition mock_Lookup :: "mock \<Rightarrow> gotime \<Rightarrow> string \<Rightarrow> string \<Rightarrow> tr_err + trecord" where
  "mock_Lookup r now iss role = lookup_recs r now iss role"

definition mock_List :: "mock \<Rightarrow> string \<Rightarrow> trecord list" where
  "mock_List r role = list_recs r role"

section \<open>The file-backed registry\<close>

record persistent =
  pr_records :: regmap
  pr_disk :: "trecord list option"
  pr_freshUntil :: gotime

definition zero_time :: gotime where
  "zero_time = - 62135596800 * 10 ^ 9"

definition flat :: "regmap \<Rightarrow> trecord list" where
  "flat m = concat (map snd m)"

text \<open>\<open>loadFrom\<close> on the decoded records; a JSON \<open>null\<close> record is skipped.\<close>

fun load_records :: "trecord option list \<Rightarrow> regmap \<Rightarrow> tr_err + regmap" where
  "load_records [] m = Inr m"
| "load_records (None # rs) m = load_records rs m"
| "load_records (Some rec # rs) m =
     (case validateRecord rec of
        Inl e \<Rightarrow> Inl e
      | Inr _ \<Rightarrow> load_records rs (set_recs (rkey rec) (recs m (rkey rec) @ [rec]) m))"

definition loadFrom :: "(bytes \<Rightarrow> trecord option list option) \<Rightarrow> bytes \<Rightarrow> tr_err + regmap" where
  "loadFrom unmarshal data =
     (if data = [] then Inl ErrEmptyStore
      else case unmarshal data of
          None \<Rightarrow> Inl ErrParseStore
        | Some rs \<Rightarrow> load_records rs [])"

definition fresh :: "persistent \<Rightarrow> gotime \<Rightarrow> tr_err + unit" where
  "fresh r now =
     (if \<not> is_zero_time (pr_freshUntil r) \<and> now > pr_freshUntil r then Inl ErrSnapshotStale else Inr ())"

text \<open>A mutation edits memory, then saves; when the save fails it undoes its edits in memory.\<close>

definition saved :: "persistent \<Rightarrow> regmap \<Rightarrow> persistent" where
  "saved r m = r\<lparr>pr_records := m, pr_disk := Some (flat m)\<rparr>"

definition drop_last :: "string \<times> string \<Rightarrow> regmap \<Rightarrow> regmap" where
  "drop_last k m = set_recs k (butlast (recs m k)) m"

definition pers_Register :: "bool \<Rightarrow> persistent \<Rightarrow> trecord \<Rightarrow> (tr_err + unit) \<times> persistent" where
  "pers_Register ok r rec =
     (case validateRecord rec of
        Inl e \<Rightarrow> (Inl e, r)
      | Inr _ \<Rightarrow>
          if conflict (pr_records r) (rkey rec) then (Inl ErrConflict, r)
          else let m = append_rec rec (pr_records r) in
            if ok then (Inr (), saved r m)
            else (Inl ErrSave, r\<lparr>pr_records := drop_last (rkey rec) m\<rparr>))"

definition pers_Replace :: "bool \<Rightarrow> persistent \<Rightarrow> trecord \<Rightarrow> (tr_err + unit) \<times> persistent" where
  "pers_Replace ok r rec =
     (case validateRecord rec of
        Inl e \<Rightarrow> (Inl e, r)
      | Inr _ \<Rightarrow>
          let k = rkey rec; m = append_rec rec (retire StatusRevoked k (pr_records r)) in
            if ok then (Inr (), saved r m)
            else let m1 = drop_last k m in
              (Inl ErrSave, r\<lparr>pr_records :=
                 (case first_active (recs (pr_records r) k) of
                    None \<Rightarrow> m1
                  | Some i \<Rightarrow> set_recs k (set_status i StatusActive (recs m1 k)) m1)\<rparr>))"

definition pers_setStatus :: "bool \<Rightarrow> persistent \<Rightarrow> string \<Rightarrow> string \<Rightarrow> string \<Rightarrow> (tr_err + unit) \<times> persistent" where
  "pers_setStatus ok r iss role st =
     (case first_active (recs (pr_records r) (iss, role)) of
        None \<Rightarrow> (Inl ErrNotFound, r)
      | Some i \<Rightarrow>
          let m = retire st (iss, role) (pr_records r) in
            if ok then (Inr (), saved r m)
            else (Inl ErrSave, r\<lparr>pr_records :=
               set_recs (iss, role)
                 (set_status i (tr_Status (recs (pr_records r) (iss, role) ! i)) (recs m (iss, role))) m\<rparr>))"

definition pers_Lookup :: "persistent \<Rightarrow> gotime \<Rightarrow> string \<Rightarrow> string \<Rightarrow> tr_err + trecord" where
  "pers_Lookup r now iss role =
     (case fresh r now of Inl e \<Rightarrow> Inl e | Inr _ \<Rightarrow> lookup_recs (pr_records r) now iss role)"

definition pers_List :: "persistent \<Rightarrow> gotime \<Rightarrow> string \<Rightarrow> tr_err + trecord list" where
  "pers_List r now role =
     (case fresh r now of Inl e \<Rightarrow> Inl e | Inr _ \<Rightarrow> Inr (list_recs (pr_records r) role))"

section \<open>Facts about the store\<close>

lemma recs_set_recs [simp]: "recs (set_recs k l m) k' = (if k = k' then l else recs m k')"
  by (simp add: recs_def set_recs_def update_conv' fun_upd_def)

lemma first_active_spec:
  "first_active l = Some i \<Longrightarrow> i < length l \<and> tr_Status (l ! i) = StatusActive"
  by (induction l arbitrary: i) (auto split: if_splits)

lemma first_active_None: "first_active l = None \<longleftrightarrow> (\<forall>r \<in> set l. tr_Status r \<noteq> StatusActive)"
  by (induction l) auto

definition active_count :: "trecord list \<Rightarrow> nat" where
  "active_count l = length (filter (\<lambda>r. tr_Status r = StatusActive) l)"

lemma active_count_retire:
  "first_active l = Some i \<Longrightarrow> st \<noteq> StatusActive \<Longrightarrow> Suc (active_count (set_status i st l)) = active_count l"
  by (induction l arbitrary: i) (auto simp: active_count_def set_status_def split: if_splits)

lemma best_record_spec:
  "best_record now b l = Some r \<Longrightarrow>
     (b = Some r \<or> r \<in> set l \<and> IsCurrentlyValid r now) \<and>
     (\<forall>x \<in> set l. IsCurrentlyValid x now \<longrightarrow> tr_ValidFrom x \<le> tr_ValidFrom r) \<and>
     (\<forall>y. b = Some y \<longrightarrow> tr_ValidFrom y \<le> tr_ValidFrom r)"
proof (induction now b l rule: best_record.induct)
  case (2 now best x rs)
  from "2.IH"[OF "2.prems"[simplified]] show ?case by (auto split: if_splits option.splits)
qed auto

lemma best_record_None:
  "best_record now b l = None \<longleftrightarrow> b = None \<and> (\<forall>x \<in> set l. \<not> IsCurrentlyValid x now)"
  by (induction now b l rule: best_record.induct) (auto split: option.splits)

definition store_inv :: "regmap \<Rightarrow> bool" where
  "store_inv m = (\<forall>k. \<forall>r \<in> set (recs m k). rkey r = k \<and> is_ok (validateRecord r))"

lemma set_status_inv:
  "\<forall>r \<in> set l. rkey r = k \<and> is_ok (validateRecord r) \<Longrightarrow>
   \<forall>r \<in> set (set_status i st l). rkey r = k \<and> is_ok (validateRecord r)"
proof (cases "i < length l")
  case True
  assume a: "\<forall>r \<in> set l. rkey r = k \<and> is_ok (validateRecord r)"
  have "rkey (r\<lparr>tr_Status := st\<rparr>) = rkey r" "validateRecord (r\<lparr>tr_Status := st\<rparr>) = validateRecord r" for r
    by (simp_all add: rkey_def validateRecord_def)
  with a True show ?thesis
    by (auto simp: set_status_def dest!: set_update_subset_insert[THEN subsetD])
qed (simp add: set_status_def list_update_beyond)

lemma append_rec_inv: "store_inv m \<Longrightarrow> is_ok (validateRecord rec) \<Longrightarrow> store_inv (append_rec rec m)"
  by (auto simp: store_inv_def append_rec_def)

lemma recs_retire:
  "recs (retire st k m) k' =
     (if k = k' then (case first_active (recs m k) of None \<Rightarrow> recs m k | Some i \<Rightarrow> set_status i st (recs m k))
      else recs m k')"
  by (simp add: retire_def split: option.split)

lemma recs_append_rec:
  "recs (append_rec rec m) k = (if rkey rec = k then recs m k @ [rec] else recs m k)"
  by (simp add: append_rec_def)

lemma retire_inv: "store_inv m \<Longrightarrow> store_inv (retire st k m)"
  unfolding store_inv_def recs_retire
  by (simp split: option.split) (metis set_status_inv)

lemma lookup_recs_sound:
  assumes "store_inv m" and "lookup_recs m now iss role = Inr r"
  shows "tr_Iss r = iss \<and> tr_Role r = role \<and> IsCurrentlyValid r now \<and> is_ok (validateRecord r) \<and>
    r \<in> set (recs m (iss, role))"
proof -
  from assms(2) have "best_record now None (recs m (iss, role)) = Some r"
    by (auto simp: lookup_recs_def split: option.splits)
  from best_record_spec[OF this] have "r \<in> set (recs m (iss, role))" "IsCurrentlyValid r now" by auto
  moreover from this assms(1) have "rkey r = (iss, role)" "is_ok (validateRecord r)"
    unfolding store_inv_def by blast+
  ultimately show ?thesis by (simp add: rkey_def)
qed

lemma validated_key: "is_ok (validateRecord r) \<Longrightarrow> length (tr_PublicKey r) = 32 \<and> role_IsValid (tr_Role r)"
  by (auto simp: validateRecord_def split: if_splits)

section \<open>Operations as steps\<close>

datatype reg_op =
    OpRegister trecord
  | OpReplace trecord
  | OpRevoke string string
  | OpSupersede string string

fun mock_apply :: "mock \<Rightarrow> reg_op \<Rightarrow> (tr_err + unit) \<times> mock" where
  "mock_apply r (OpRegister rec) = mock_Register r rec"
| "mock_apply r (OpReplace rec) = mock_Replace r rec"
| "mock_apply r (OpRevoke iss role) = mock_setStatus r iss role StatusRevoked"
| "mock_apply r (OpSupersede iss role) = mock_setStatus r iss role StatusSuperseded"

text \<open>For the file-backed registry a step carries whether its save succeeds.\<close>

fun pers_apply :: "persistent \<Rightarrow> bool \<times> reg_op \<Rightarrow> (tr_err + unit) \<times> persistent" where
  "pers_apply r (ok, OpRegister rec) = pers_Register ok r rec"
| "pers_apply r (ok, OpReplace rec) = pers_Replace ok r rec"
| "pers_apply r (ok, OpRevoke iss role) = pers_setStatus ok r iss role StatusRevoked"
| "pers_apply r (ok, OpSupersede iss role) = pers_setStatus ok r iss role StatusSuperseded"

fun op_adds :: "reg_op \<Rightarrow> string \<times> string \<Rightarrow> bool" where
  "op_adds (OpRegister rec) k = (rkey rec = k)"
| "op_adds (OpReplace rec) k = (rkey rec = k)"
| "op_adds _ k = False"

fun op_retires :: "reg_op \<Rightarrow> string \<times> string \<Rightarrow> bool" where
  "op_retires (OpRevoke iss role) k = ((iss, role) = k)"
| "op_retires (OpSupersede iss role) k = ((iss, role) = k)"
| "op_retires _ k = False"

section \<open>The registry contract\<close>

text \<open>
  What the verifier relies on: a key that is returned is one registered for that issuer and role,
  valid now and of the right length; every operation keeps the registry well formed; a retired key
  has no active record, and only an operation that adds a record for the key makes one.
\<close>

locale key_registry =
  fixes inv :: "'s \<Rightarrow> bool"
    and run :: "'s \<Rightarrow> 'o \<Rightarrow> (tr_err + unit) \<times> 's"
    and adds :: "'o \<Rightarrow> string \<times> string \<Rightarrow> bool"
    and retires :: "'o \<Rightarrow> string \<times> string \<Rightarrow> bool"
    and live :: "'s \<Rightarrow> string \<times> string \<Rightarrow> bool"
    and find :: "'s \<Rightarrow> gotime \<Rightarrow> string \<Rightarrow> string \<Rightarrow> tr_err + trecord"
  assumes run_inv: "inv s \<Longrightarrow> inv (snd (run s p))"
    and find_sound: "inv s \<Longrightarrow> find s t iss role = Inr r \<Longrightarrow>
      tr_Iss r = iss \<and> tr_Role r = role \<and> IsCurrentlyValid r t \<and> length (tr_PublicKey r) = 32"
    and find_live: "find s t iss role = Inr r \<Longrightarrow> live s (iss, role)"
    and retired: "inv s \<Longrightarrow> retires p k \<Longrightarrow> is_ok (fst (run s p)) \<Longrightarrow> \<not> live (snd (run s p)) k"
    and dead_stays: "\<not> live s k \<Longrightarrow> \<not> adds p k \<Longrightarrow> \<not> live (snd (run s p)) k"
begin

definition runs :: "'s \<Rightarrow> 'o list \<Rightarrow> 's" where
  "runs s ps = foldl (\<lambda>s p. snd (run s p)) s ps"

lemma runs_inv: "inv s \<Longrightarrow> inv (runs s ps)"
  unfolding runs_def by (induction ps arbitrary: s) (simp_all add: run_inv)

lemma runs_find_sound:
  "inv s \<Longrightarrow> find (runs s ps) t iss role = Inr r \<Longrightarrow>
     tr_Iss r = iss \<and> tr_Role r = role \<and> IsCurrentlyValid r t \<and> length (tr_PublicKey r) = 32"
  by (rule find_sound[OF runs_inv])

lemma dead_runs: "\<not> live s k \<Longrightarrow> \<forall>p \<in> set ps. \<not> adds p k \<Longrightarrow> \<not> live (runs s ps) k"
  unfolding runs_def by (induction ps arbitrary: s) (simp_all add: dead_stays)

lemma retirement_is_permanent:
  assumes "inv s" and "retires p (iss, role)" and "is_ok (fst (run (runs s ps) p))"
    and "\<forall>q \<in> set qs. \<not> adds q (iss, role)"
  shows "\<not> is_ok (find (runs (snd (run (runs s ps) p)) qs) t iss role)"
proof -
  have "\<not> live (snd (run (runs s ps) p)) (iss, role)"
    by (rule retired[OF runs_inv[OF assms(1)] assms(2,3)])
  from dead_runs[OF this assms(4)] show ?thesis
    by (cases "find (runs (snd (run (runs s ps) p)) qs) t iss role") (auto dest: find_live)
qed

end

section \<open>The in-memory registry meets the contract\<close>

definition reg_inv :: "regmap \<Rightarrow> bool" where
  "reg_inv m = (store_inv m \<and> (\<forall>k. active_count (recs m k) \<le> 1))"

lemma reg_inv_le: "reg_inv m \<Longrightarrow> active_count (recs m k) \<le> Suc 0"
  unfolding reg_inv_def One_nat_def by blast

lemma conflict_active_count: "conflict m k \<longleftrightarrow> active_count (recs m k) \<noteq> 0"
  by (auto simp: conflict_def active_count_def list_ex_iff filter_empty_conv)

lemma first_active_count: "first_active l = None \<longleftrightarrow> active_count l = 0"
  by (auto simp: first_active_None active_count_def filter_empty_conv)

lemma active_count_append: "active_count (l @ [r]) \<le> Suc (active_count l)" "active_count l \<le> active_count (l @ [r])"
  by (simp_all add: active_count_def)

lemma active_count_retired:
  assumes "st \<noteq> StatusActive"
  shows "active_count (recs (retire st k m) k') =
    (if k = k' then active_count (recs m k) - 1 else active_count (recs m k'))"
proof (cases "first_active (recs m k)")
  case None
  then have "active_count (recs m k) = 0" by (simp add: first_active_count)
  then show ?thesis using None by (auto simp: recs_retire)
next
  case (Some i)
  from active_count_retire[OF Some assms] show ?thesis using Some by (auto simp: recs_retire)
qed

lemma append_reg_inv:
  assumes "reg_inv m" and "is_ok (validateRecord rec)" and "active_count (recs m (rkey rec)) = 0"
  shows "reg_inv (append_rec rec m)"
  using assms active_count_append(1)[of "recs m (rkey rec)" rec]
  by (auto simp: reg_inv_def append_rec_inv recs_append_rec)

lemma retire_reg_inv: "reg_inv m \<Longrightarrow> st \<noteq> StatusActive \<Longrightarrow> reg_inv (retire st k m)"
  by (auto simp: reg_inv_def retire_inv active_count_retired)

lemma mock_apply_inv: "reg_inv m \<Longrightarrow> reg_inv (snd (mock_apply m p))"
proof (cases p)
  case (OpRegister rec)
  assume "reg_inv m"
  then show ?thesis
    using append_reg_inv[of m rec]
    by (simp add: OpRegister mock_Register_def conflict_active_count split: sum.split)
next
  case (OpReplace rec)
  assume i: "reg_inv m"
  then have "active_count (recs (retire StatusRevoked (rkey rec) m) (rkey rec)) = 0"
    by (simp add: active_count_retired reg_inv_le)
  with retire_reg_inv[OF i] i show ?thesis
    using append_reg_inv[of "retire StatusRevoked (rkey rec) m" rec]
    by (simp add: OpReplace mock_Replace_def split: sum.split)
qed (simp_all add: mock_setStatus_def retire_reg_inv split: option.split)

lemma mock_retired:
  assumes "reg_inv m" and "op_retires p k" and "is_ok (fst (mock_apply m p))"
  shows "\<not> conflict (snd (mock_apply m p)) k"
proof -
  have "active_count (recs m k) \<le> Suc 0" by (rule reg_inv_le[OF assms(1)])
  then show ?thesis
    using assms(2,3) by (cases p) (auto simp: mock_setStatus_def conflict_active_count active_count_retired split: option.splits)
qed

lemma mock_dead_stays:
  "\<not> conflict m k \<Longrightarrow> \<not> op_adds p k \<Longrightarrow> \<not> conflict (snd (mock_apply m p)) k"
  by (cases p)
     (auto simp: mock_Register_def mock_Replace_def mock_setStatus_def conflict_active_count active_count_retired
        recs_append_rec split: sum.splits option.splits)

lemma lookup_recs_live: "lookup_recs m t iss role = Inr r \<Longrightarrow> conflict m (iss, role)"
  using best_record_spec[of t None "recs m (iss, role)" r]
  by (auto simp: lookup_recs_def conflict_def list_ex_iff IsCurrentlyValid_def split: option.splits if_splits)

lemma reg_lookup_sound:
  "reg_inv m \<Longrightarrow> lookup_recs m t iss role = Inr r \<Longrightarrow>
     tr_Iss r = iss \<and> tr_Role r = role \<and> IsCurrentlyValid r t \<and> length (tr_PublicKey r) = 32"
  using lookup_recs_sound[of m t iss role r] validated_key[of r] by (simp add: reg_inv_def)

interpretation mock: key_registry reg_inv mock_apply op_adds op_retires conflict mock_Lookup
  by unfold_locales
     (simp_all add: mock_apply_inv reg_lookup_sound lookup_recs_live mock_retired mock_dead_stays mock_Lookup_def)

section \<open>The file-backed registry refines it\<close>

lemma set_status_back:
  "first_active l = Some i \<Longrightarrow> set_status i StatusActive (set_status i st l) = l"
proof -
  assume "first_active l = Some i"
  then have "i < length l" "tr_Status (l ! i) = StatusActive" using first_active_spec by blast+
  then have "(l ! i)\<lparr>tr_Status := StatusActive\<rparr> = l ! i" by (cases "l ! i") simp
  with \<open>i < length l\<close> show ?thesis by (simp add: set_status_def)
qed

text \<open>A failed save: every key has the records it had.\<close>

lemma pers_rollback_recs:
  "recs (pr_records (snd (pers_apply r (False, p)))) k = recs (pr_records r) k \<and>
   pr_disk (snd (pers_apply r (False, p))) = pr_disk r"
proof (cases p)
  case (OpReplace rec)
  then show ?thesis
    by (simp add: pers_Replace_def drop_last_def recs_append_rec recs_retire set_status_back Let_def
        split: sum.split option.split)
next
  case (OpRevoke iss role)
  then show ?thesis
    using first_active_spec[of "recs (pr_records r) (iss, role)"] set_status_back[of "recs (pr_records r) (iss, role)"]
    by (simp add: pers_setStatus_def recs_retire Let_def split: option.split)
next
  case (OpSupersede iss role)
  then show ?thesis
    using first_active_spec[of "recs (pr_records r) (iss, role)"] set_status_back[of "recs (pr_records r) (iss, role)"]
    by (simp add: pers_setStatus_def recs_retire Let_def split: option.split)
qed (simp add: pers_Register_def drop_last_def recs_append_rec Let_def split: sum.split)

text \<open>A save that succeeds: the registry steps as the in-memory one, and the file holds the result.\<close>

lemma pers_ok_refines:
  "fst (pers_apply r (True, p)) = fst (mock_apply (pr_records r) p) \<and>
   pr_records (snd (pers_apply r (True, p))) = snd (mock_apply (pr_records r) p) \<and>
   (if is_ok (fst (pers_apply r (True, p)))
    then pr_disk (snd (pers_apply r (True, p))) = Some (flat (snd (mock_apply (pr_records r) p)))
    else snd (pers_apply r (True, p)) = r)"
  by (cases p)
     (simp_all add: pers_Register_def pers_Replace_def pers_setStatus_def mock_Register_def mock_Replace_def
        mock_setStatus_def saved_def Let_def split: sum.split option.split)

lemma reg_inv_recs: "(\<And>k. recs m k = recs m' k) \<Longrightarrow> reg_inv m = reg_inv m'"
  by (simp add: reg_inv_def store_inv_def)

lemma conflict_recs: "recs m k = recs m' k \<Longrightarrow> conflict m k = conflict m' k"
  by (simp add: conflict_def)

lemma pers_failed: "op_retires p k \<Longrightarrow> is_ok (fst (pers_apply r (ok, p))) \<Longrightarrow> ok"
  by (cases p) (auto simp: pers_setStatus_def Let_def split: option.splits if_splits)

interpretation pers: key_registry
  "\<lambda>r. reg_inv (pr_records r)" pers_apply "\<lambda>q. op_adds (snd q)" "\<lambda>q. op_retires (snd q)"
  "\<lambda>r. conflict (pr_records r)" pers_Lookup
proof (unfold_locales, goal_cases)
  case (1 s q)
  obtain ok p where q: "q = (ok, p)" by (cases q)
  show ?case
  proof (cases ok)
    case True
    with 1 q pers_ok_refines[of s p] mock_apply_inv show ?thesis by simp
  next
    case False
    with 1 q pers_rollback_recs[of s p] reg_inv_recs show ?thesis by (metis (full_types))
  qed
next
  case (2 s t iss role r)
  then show ?case by (auto simp: pers_Lookup_def split: sum.splits intro: reg_lookup_sound dest: reg_lookup_sound)
next
  case (3 s t iss role r)
  then show ?case by (auto simp: pers_Lookup_def split: sum.splits intro: lookup_recs_live)
next
  case (4 s q k)
  obtain ok p where q: "q = (ok, p)" by (cases q)
  have ok using pers_failed[of p k s ok] 4 q by simp
  with 4 q pers_ok_refines[of s p] mock_retired show ?case by simp
next
  case (5 s k q)
  obtain ok p where q: "q = (ok, p)" by (cases q)
  show ?case
  proof (cases ok)
    case True
    with 5 q pers_ok_refines[of s p] mock_dead_stays show ?thesis by simp
  next
    case False
    with 5 q pers_rollback_recs[of s p k] conflict_recs show ?thesis by (metis (full_types))
  qed
qed

section \<open>Properties\<close>

definition sample_key :: trecord where
  "sample_key = \<lparr>tr_Iss = ''tts'', tr_Role = RoleTTSIssuer, tr_PublicKey = replicate 32 CHR ''k'', tr_MlkemEncapKey = [],
     tr_KeyType = ''Ed25519'', tr_ValidFrom = 10, tr_ValidUntil = 1000, tr_Status = StatusActive, tr_Metadata = []\<rparr>"

definition sample_key2 :: trecord where
  "sample_key2 = sample_key\<lparr>tr_PublicKey := replicate 32 CHR ''n'', tr_ValidFrom := 20\<rparr>"

lemma reg_inv_empty: "reg_inv []"
  by (simp add: reg_inv_def store_inv_def recs_def active_count_def)

lemma sample_key_ok [simp]:
  "validateRecord sample_key = Inr ()" "validateRecord sample_key2 = Inr ()"
  "rkey sample_key = (''tts'', RoleTTSIssuer)" "rkey sample_key2 = (''tts'', RoleTTSIssuer)"
  by (simp_all add: validateRecord_def sample_key_def sample_key2_def role_IsValid_def RoleTTSIssuer_def rkey_def)

lemma sample_key_fields [simp]:
  "tr_Status sample_key = StatusActive" "tr_ValidFrom sample_key = 10" "tr_ValidUntil sample_key = 1000"
  "tr_Status sample_key2 = StatusActive" "tr_ValidFrom sample_key2 = 20" "tr_ValidUntil sample_key2 = 1000"
  by (simp_all add: sample_key_def sample_key2_def)

definition pers_runs :: "persistent \<Rightarrow> (bool \<times> reg_op) list \<Rightarrow> persistent" where
  "pers_runs r ps = foldl (\<lambda>s p. snd (pers_apply s p)) r ps"

lemma pers_runs_eq: "pers_runs r ps = pers.runs r ps"
  by (simp add: pers_runs_def pers.runs_def)

definition empty_store :: persistent where
  "empty_store = \<lparr>pr_records = [], pr_disk = None, pr_freshUntil = zero_time\<rparr>"

text \<open>Whatever operations ran on a new file-backed registry, with any of their saves failing, a
  key that a lookup returns was registered for exactly the issuer and role asked for, is active and
  within its validity window at the time of the lookup, and is 32 bytes long.\<close>

theorem registry_lookup_sound:
  assumes "pr_records r = []"
    and "pers_Lookup (pers_runs r ps) now iss role = Inr rec"
  shows "tr_Iss rec = iss \<and> tr_Role rec = role \<and> IsCurrentlyValid rec now \<and> length (tr_PublicKey rec) = 32"
  using pers.runs_find_sound[of r ps now iss role rec] assms by (simp add: reg_inv_empty pers_runs_eq)

lemmas registry_eval =
  pers_runs_def pers_Register_def pers_Replace_def pers_setStatus_def pers_Lookup_def lookup_recs_def fresh_def
  is_zero_time_def conflict_def append_rec_def retire_def set_recs_def recs_def saved_def drop_last_def
  set_status_def IsCurrentlyValid_def empty_store_def zero_time_def

theorem registry_lookup_sound_witness:
  "tr_Iss sample_key = ''tts'' \<and> tr_Role sample_key = RoleTTSIssuer \<and> IsCurrentlyValid sample_key 15 \<and>
   length (tr_PublicKey sample_key) = 32"
proof (rule registry_lookup_sound)
  show "pr_records empty_store = []" by (simp add: empty_store_def)
  show "pers_Lookup (pers_runs empty_store [(True, OpRegister sample_key), (False, OpReplace sample_key2)])
      15 ''tts'' RoleTTSIssuer = Inr sample_key"
    by (simp add: registry_eval Let_def)
qed



text \<open>C30: The file-backed registry implements the in-memory one. When the save of an operation
  succeeds, it returns what the in-memory operation returns and holds the same records; the file then
  holds them too, and an operation that returns an error has changed nothing. When the save fails, every issuer and role has exactly the records
  it had before and the file is unchanged.\<close>

theorem persistent_refines_memory:
  "fst (pers_apply r (True, p)) = fst (mock_apply (pr_records r) p) \<and>
   pr_records (snd (pers_apply r (True, p))) = snd (mock_apply (pr_records r) p) \<and>
   (if is_ok (fst (pers_apply r (True, p)))
    then pr_disk (snd (pers_apply r (True, p))) = Some (flat (snd (mock_apply (pr_records r) p)))
    else snd (pers_apply r (True, p)) = r) \<and>
   recs (pr_records (snd (pers_apply r (False, p)))) k = recs (pr_records r) k \<and>
   pr_disk (snd (pers_apply r (False, p))) = pr_disk r"
  using pers_ok_refines[of r p] pers_rollback_recs[of r p k] by simp

end
