(* ===== verification/ReplayCache.thy ===== *)
theory ReplayCache
  imports Prelude "HOL-Library.AList"
begin

text \<open>
  The single-use records of an enforcement point (src/internal/verifier/engine.go, type
  \<open>replayCache\<close>): record keys, expiries on two clocks, and the atomic check-and-record
  \<open>consumeAll\<close>. The locale \<open>single_use\<close> is the contract that the engine's steps rely on.

  A reading of \<open>time.Now()\<close> has a monotonic part and a wall part. A deadline made by \<open>now.Add\<close> is
  compared on the monotonic clock; a signed expiry made by \<open>time.Unix\<close> on the wall clock. The two may
  drift apart, and the wall clock may step back.
\<close>

section \<open>Records\<close>

record tnow =
  mono :: int
  wall :: gotime

record recordExpiry =
  re_mono :: int
  re_wall :: gotime

definition expired :: "recordExpiry \<Rightarrow> tnow \<Rightarrow> bool" where
  "expired e now =
     (if mono now < re_mono e then False
      else if \<not> is_zero_time (re_wall e) \<and> wall now < re_wall e then False
      else True)"

datatype recordKind = recordNone | recordProof | recordTxn | recordSlice | recordSettleTxn | recordSettleSlice

record recordKey =
  rk_kind :: recordKind
  rk_scope :: string
  rk_id :: string
  rk_leg :: int

definition proofRecord :: "string \<Rightarrow> string \<Rightarrow> recordKey" where
  "proofRecord jkt jti = \<lparr>rk_kind = recordProof, rk_scope = jkt, rk_id = jti, rk_leg = 0\<rparr>"

definition txnRecord :: "string \<Rightarrow> recordKey" where
  "txnRecord jti = \<lparr>rk_kind = recordTxn, rk_scope = [], rk_id = jti, rk_leg = 0\<rparr>"

definition sliceRecord :: "string \<Rightarrow> int \<Rightarrow> recordKey" where
  "sliceRecord rt leg = \<lparr>rk_kind = recordSlice, rk_scope = rt, rk_id = [], rk_leg = leg\<rparr>"

definition settleTxnRecord :: "string \<Rightarrow> recordKey" where
  "settleTxnRecord jti = \<lparr>rk_kind = recordSettleTxn, rk_scope = [], rk_id = jti, rk_leg = 0\<rparr>"

definition settleSliceRecord :: "string \<Rightarrow> int \<Rightarrow> recordKey" where
  "settleSliceRecord rt leg = \<lparr>rk_kind = recordSettleSlice, rk_scope = rt, rk_id = [], rk_leg = leg\<rparr>"

lemmas record_defs = proofRecord_def txnRecord_def sliceRecord_def settleTxnRecord_def settleSliceRecord_def

record consumption =
  cn_key :: recordKey
  cn_ttl :: int
  cn_wallExp :: gotime

type_synonym replayCache = "(recordKey \<times> recordExpiry) list"

definition newReplayCache :: replayCache where
  "newReplayCache = []"

section \<open>Check and record\<close>

definition prune :: "tnow \<Rightarrow> replayCache \<Rightarrow> replayCache" where
  "prune now seen = filter (\<lambda>(k, e). \<not> expired e now) seen"

definition refused :: "tnow \<Rightarrow> replayCache \<Rightarrow> consumption \<Rightarrow> bool" where
  "refused now seen it =
     (rk_kind (cn_key it) = recordNone \<or>
      (case map_of seen (cn_key it) of None \<Rightarrow> False | Some e \<Rightarrow> \<not> expired e now))"

definition expiry_of :: "tnow \<Rightarrow> consumption \<Rightarrow> recordExpiry" where
  "expiry_of now it = \<lparr>re_mono = mono now + cn_ttl it, re_wall = cn_wallExp it\<rparr>"

definition record_use :: "tnow \<Rightarrow> consumption \<Rightarrow> replayCache \<Rightarrow> replayCache" where
  "record_use now it seen = AList.update (cn_key it) (expiry_of now it) seen"

definition consumeAll :: "tnow \<Rightarrow> replayCache \<Rightarrow> consumption list \<Rightarrow> bool \<times> replayCache" where
  "consumeAll now seen items =
     (let seen1 = prune now seen in
      if list_ex (refused now seen1) items then (False, seen1)
      else (True, fold (record_use now) items seen1))"

text \<open>The record lifetime for a token that expires at \<open>exp\<close>: 64-bit seconds, and a 64-bit duration.\<close>

definition second :: int where
  "second = 10 ^ 9"

definition ttlUntil :: "int \<Rightarrow> int \<Rightarrow> int" where
  "ttlUntil ex now = (if ex \<le> now then second else wrap64 (wrap64 (ex - now) * second))"

section \<open>The single-use contract\<close>

text \<open>
  A use is refused while its key is held by a record that has not lapsed; a record that has not
  lapsed survives any later use; a use that succeeds leaves a record for each of its keys.
\<close>

locale single_use =
  fixes consume :: "'t \<Rightarrow> 's \<Rightarrow> 'i list \<Rightarrow> bool \<times> 's"
    and uses :: "'i \<Rightarrow> 'k"
    and held :: "'s \<Rightarrow> 'k \<Rightarrow> 'r option"
    and lapsed :: "'r \<Rightarrow> 't \<Rightarrow> bool"
    and record_of :: "'t \<Rightarrow> 'i \<Rightarrow> 'r"
  assumes refuses: "held s (uses i) = Some r \<Longrightarrow> \<not> lapsed r t \<Longrightarrow> i \<in> set items \<Longrightarrow> \<not> fst (consume t s items)"
    and keeps: "held s k = Some r \<Longrightarrow> \<not> lapsed r t \<Longrightarrow> held (snd (consume t s items)) k = Some r"
    and records: "fst (consume t s items) \<Longrightarrow> distinct (map uses items) \<Longrightarrow> i \<in> set items \<Longrightarrow>
      held (snd (consume t s items)) (uses i) = Some (record_of t i)"
begin

text \<open>A run: each request is a clock reading and the items it uses.\<close>

fun uses_run :: "'s \<Rightarrow> ('t \<times> 'i list) list \<Rightarrow> 's" where
  "uses_run s [] = s"
| "uses_run s ((t, items) # reqs) = uses_run (snd (consume t s items)) reqs"

lemma held_through:
  "held s k = Some r \<Longrightarrow> \<forall>(t, items) \<in> set reqs. \<not> lapsed r t \<Longrightarrow> held (uses_run s reqs) k = Some r"
  by (induction s reqs rule: uses_run.induct) (auto simp: keeps)

lemma used_once:
  assumes "fst (consume t s items)" and "distinct (map uses items)" and "i \<in> set items"
    and "\<forall>(t', items') \<in> set reqs. \<not> lapsed (record_of t i) t'"
    and "\<not> lapsed (record_of t i) t2" and "j \<in> set items2" and "uses j = uses i"
  shows "\<not> fst (consume t2 (uses_run (snd (consume t s items)) reqs) items2)"
proof -
  have "held (uses_run (snd (consume t s items)) reqs) (uses j) = Some (record_of t i)"
    using held_through[OF records[OF assms(1-3)] assms(4)] assms(7) by simp
  then show ?thesis by (rule refuses) (use assms in auto)
qed

end

section \<open>The cache meets it\<close>

lemma map_of_prune:
  "map_of seen k = Some e \<Longrightarrow> \<not> expired e now \<Longrightarrow> map_of (prune now seen) k = Some e"
  by (induction seen) (auto simp: prune_def split: if_splits)

lemma map_of_record_use [simp]:
  "map_of (record_use now it seen) = (map_of seen)(cn_key it \<mapsto> expiry_of now it)"
  by (simp add: record_use_def update_conv')

lemma record_uses_other:
  "k \<notin> cn_key ` set items \<Longrightarrow> map_of (fold (record_use now) items seen) k = map_of seen k"
  by (induction items arbitrary: seen) auto

lemma record_uses_own:
  "distinct (map cn_key items) \<Longrightarrow> it \<in> set items \<Longrightarrow>
   map_of (fold (record_use now) items seen) (cn_key it) = Some (expiry_of now it)"
  by (induction items arbitrary: seen) (auto simp: record_uses_other)

lemma consumeAll_ok:
  "fst (consumeAll now seen items) \<longleftrightarrow> \<not> list_ex (refused now (prune now seen)) items"
  by (simp add: consumeAll_def Let_def)

lemma consumeAll_refuses:
  "map_of seen (cn_key it) = Some e \<Longrightarrow> \<not> expired e now \<Longrightarrow> it \<in> set items \<Longrightarrow>
   \<not> fst (consumeAll now seen items)"
  by (auto simp: consumeAll_ok list_ex_iff refused_def map_of_prune intro!: bexI[of _ it])

lemma consumeAll_keeps:
  assumes "map_of seen k = Some e" and "\<not> expired e now"
  shows "map_of (snd (consumeAll now seen items)) k = Some e"
proof (cases "fst (consumeAll now seen items)")
  case True
  then have "k \<notin> cn_key ` set items" using consumeAll_refuses assms by blast
  with True assms show ?thesis
    by (simp add: consumeAll_def Let_def record_uses_other map_of_prune split: if_splits)
next
  case False
  with assms show ?thesis by (simp add: consumeAll_def Let_def map_of_prune split: if_splits)
qed

lemma consumeAll_records:
  "fst (consumeAll now seen items) \<Longrightarrow> distinct (map cn_key items) \<Longrightarrow> it \<in> set items \<Longrightarrow>
   map_of (snd (consumeAll now seen items)) (cn_key it) = Some (expiry_of now it)"
  by (simp add: consumeAll_def Let_def record_uses_own split: if_splits)

interpretation rc: single_use consumeAll cn_key map_of expired expiry_of
  by unfold_locales (simp_all add: consumeAll_refuses consumeAll_keeps consumeAll_records)

lemma consumeAll_refused_keeps_rest:
  "\<not> fst (consumeAll now seen items) \<Longrightarrow> snd (consumeAll now seen items) = prune now seen"
  by (simp add: consumeAll_def Let_def split: if_splits)

section \<open>Properties\<close>

fun consume_run :: "replayCache \<Rightarrow> (tnow \<times> consumption list) list \<Rightarrow> replayCache" where
  "consume_run seen [] = seen"
| "consume_run seen ((t, items) # reqs) = consume_run (snd (consumeAll t seen items)) reqs"

lemma consume_run_eq: "consume_run seen reqs = rc.uses_run seen reqs"
  by (induction seen reqs rule: consume_run.induct) simp_all

text \<open>A record is used once. After \<open>consumeAll\<close> has recorded an item, every later request that names
  the same key is refused, whatever other requests ran in between, as long as each of those readings
  of the clock is before the monotonic deadline or before the signed expiry. The wall clock may jump
  in either direction meanwhile, and a refused request records nothing.\<close>

theorem record_used_once:
  assumes "consumeAll s seen items = (True, seen')"
    and "distinct (map cn_key items)" and "it \<in> set items"
    and "\<forall>(t, its) \<in> set reqs. mono t < mono s + cn_ttl it \<or>
           \<not> is_zero_time (cn_wallExp it) \<and> wall t < cn_wallExp it"
    and "mono u < mono s + cn_ttl it \<or> \<not> is_zero_time (cn_wallExp it) \<and> wall u < cn_wallExp it"
    and "cn_key it \<in> cn_key ` set others"
  shows "consumeAll u (consume_run seen' reqs) others = (False, prune u (consume_run seen' reqs))"
proof -
  obtain j where j: "j \<in> set others" "cn_key j = cn_key it" using assms(6) by auto
  have "\<not> fst (consumeAll u (rc.uses_run (snd (consumeAll s seen items)) reqs) others)"
    by (rule rc.used_once[where i = it and j = j])
       (use assms j in \<open>auto simp: expired_def expiry_of_def split: if_splits\<close>)
  then show ?thesis
    using assms(1) consumeAll_refused_keeps_rest by (simp add: consume_run_eq prod_eq_iff)
qed

theorem record_used_once_witness:
  "consumeAll \<lparr>mono = 9, wall = 109\<rparr>
     (consume_run (snd (consumeAll \<lparr>mono = 5, wall = 105\<rparr> []
        [\<lparr>cn_key = txnRecord ''t'', cn_ttl = 10, cn_wallExp = 115\<rparr>,
         \<lparr>cn_key = sliceRecord ''r'' 2, cn_ttl = 10, cn_wallExp = 115\<rparr>]))
       [(\<lparr>mono = 7, wall = 900\<rparr>, [\<lparr>cn_key = txnRecord ''u'', cn_ttl = 1, cn_wallExp = 901\<rparr>])])
     [\<lparr>cn_key = sliceRecord ''r'' 2, cn_ttl = 3, cn_wallExp = 120\<rparr>] =
   (False, prune \<lparr>mono = 9, wall = 109\<rparr>
     (consume_run (snd (consumeAll \<lparr>mono = 5, wall = 105\<rparr> []
        [\<lparr>cn_key = txnRecord ''t'', cn_ttl = 10, cn_wallExp = 115\<rparr>,
         \<lparr>cn_key = sliceRecord ''r'' 2, cn_ttl = 10, cn_wallExp = 115\<rparr>]))
       [(\<lparr>mono = 7, wall = 900\<rparr>, [\<lparr>cn_key = txnRecord ''u'', cn_ttl = 1, cn_wallExp = 901\<rparr>])]))"
  by (rule record_used_once[where it = "\<lparr>cn_key = sliceRecord ''r'' 2, cn_ttl = 10, cn_wallExp = 115\<rparr>"
        and seen = "[]" and s = "\<lparr>mono = 5, wall = 105\<rparr>"
        and items = "[\<lparr>cn_key = txnRecord ''t'', cn_ttl = 10, cn_wallExp = 115\<rparr>,
                      \<lparr>cn_key = sliceRecord ''r'' 2, cn_ttl = 10, cn_wallExp = 115\<rparr>]"])
     (simp_all add: consumeAll_def prune_def refused_def record_defs Let_def)

text \<open>A signed expiry far beyond the calendar wraps in \<open>time.Unix\<close> and in the duration, so the record
  of such a token has lapsed at the moment it is made.\<close>

lemma far_expiry_lapses_at_once:
  assumes "cn_ttl it = ttlUntil (2 ^ 63 - 1024) 1763400000" and "cn_wallExp it = time_Unix (2 ^ 63 - 1024)"
    and "0 \<le> wall t"
  shows "expired (expiry_of t it) t"
proof -
  have "cn_ttl it \<le> 0" "cn_wallExp it < 0"
    using assms by (simp_all add: ttlUntil_def second_def time_Unix_def wrap64_def)
  with assms(3) show ?thesis by (simp add: expired_def expiry_of_def)
qed

end
