(* ===== verification/Engine.thy ===== *)
theory Engine
  imports Tokens StatusList TrustRegistry ReplayCache
begin

text \<open>
  The enforcement engine (src/internal/verifier/engine.go): the eight steps, the walk over the
  capability chain in clear and its zero-knowledge variant, the single-use step, and the verifier for
  settlers.

  The registry is the lookup function of a key registry. Each reading of the clock has its own
  \<open>site\<close>, so a run is checked for any readings, in any order. The zero-knowledge verifier and its
  proof system are outside; the injected function is a field of the engine.
\<close>

section \<open>Engine, input, decision\<close>

datatype site =
    S1Key | S2Now | S4Key | S4Status | S5Proof | S5Record
  | TokKey nat | TokExp nat | TokIat nat | TokNbf nat | TokStatus nat
  | LeafWindow | UseNow | UseRecord

type_synonym clocks = "site \<Rightarrow> tnow"

type_synonym chain_verifier = "bytes \<Rightarrow> int \<Rightarrow> int \<Rightarrow> 64 word \<Rightarrow> string \<Rightarrow> 64 word \<Rightarrow> bool"

record engine =
  eg_Lookup :: "gotime \<Rightarrow> string \<Rightarrow> string \<Rightarrow> tr_err + trecord"
  eg_replay :: replayCache
  eg_chainVerifier :: "chain_verifier option"
  eg_trustedIssuerRoot :: int
  eg_maxZKLeafWindow :: int
  eg_StatusResolver :: "resolver option"

record input =
  in_TxnToken :: string
  in_DPoPProof :: string
  in_HTM :: string
  in_HTU :: string
  in_CT :: string
  in_CTChain :: "string list"
  in_CAT :: string
  in_Txn :: txnctx
  in_Audience :: string
  in_ChainProof :: "bytes option"
  in_ChainH0 :: "int option"

datatype eng_err = EMsg string | TokErr tok_err | RegErr tr_err | StatErr sl_err | ScpErr scope_err | CmtErr commit_err | ZkUnbound string

datatype decision = Allow | Deny nat eng_err

definition stepNames :: "nat \<Rightarrow> string" where
  "stepNames n =
     (if n = 1 then ''signature'' else if n = 2 then ''expiry'' else if n = 3 then ''audience''
      else if n = 4 then ''revocation'' else if n = 5 then ''dpop'' else if n = 6 then ''chain''
      else if n = 7 then ''scope'' else if n = 8 then ''context'' else [])"

definition wallc :: "clocks \<Rightarrow> site \<Rightarrow> gotime" where
  "wallc clk s = wall (clk s)"

section \<open>Helpers\<close>

definition intClaim :: "claims \<Rightarrow> string \<Rightarrow> int option" where
  "intClaim cl k =
     (case float_claim cl k of
        Some (Fin r) \<Rightarrow>
          if r < - (2 ^ 63) \<or> r \<ge> 2 ^ 63 then None else Some (if 0 \<le> r then floor r else ceiling r)
      | Some NegZero \<Rightarrow> Some 0
      | _ \<Rightarrow> None)"

definition isAllZero :: "bytes \<Rightarrow> bool" where
  "isAllZero b = list_all (\<lambda>x. x = CHR 0x00) b"

definition resolveKey :: "engine \<Rightarrow> gotime \<Rightarrow> string \<Rightarrow> string \<Rightarrow> eng_err + bytes" where
  "resolveKey e now iss role =
     bindr (wrap_err RegErr (eg_Lookup e now iss role)) (\<lambda>rec.
     bindr (need (EMsg ''unusable key'') (tr_KeyType rec = ''Ed25519'' \<and> length (tr_PublicKey rec) = 32)) (\<lambda>_.
     bindr (need (EMsg ''all zero key'') (\<not> isAllZero (tr_PublicKey rec))) (\<lambda>_. Inr (tr_PublicKey rec))))"

definition unverifiedClaims :: "codec \<Rightarrow> string \<Rightarrow> eng_err + claims" where
  "unverifiedClaims c token =
     (case split_char CHR ''.'' token of
        [h, p, s] \<Rightarrow>
          bindr (some_or (EMsg ''payload encoding'') (jc_b64dec c p)) (\<lambda>body.
          some_or (EMsg ''payload json'') (jc_claims c body))
      | _ \<Rightarrow> Inl (EMsg ''malformed token''))"

definition scopeOf :: "claims \<Rightarrow> eng_err + scope" where
  "scopeOf cl = some_or (EMsg ''no scope'') (map_claim cl ''capability_scope'')"

definition checkStatus :: "codec \<Rightarrow> engine \<Rightarrow> gotime \<Rightarrow> claims \<Rightarrow> eng_err + unit" where
  "checkStatus c e now cl =
     (case eg_StatusResolver e of
        None \<Rightarrow> Inr ()
      | Some r \<Rightarrow>
          bindr (wrap_err StatErr (ReferenceFromClaims (jc_oob c) cl)) (\<lambda>ro.
          case ro of None \<Rightarrow> Inr () | Some ref \<Rightarrow> wrap_err StatErr (sl_Check r ref now)))"

text \<open>The overlay of a hop's scope on the effective scope. Nested objects are merged into a copy.\<close>

function overlayScope :: "scope \<Rightarrow> scope \<Rightarrow> scope" where
  "overlayScope dst [] = dst"
| "overlayScope dst ((k, v) # src) =
     overlayScope
       (put k
         (case asObject v of
            None \<Rightarrow> v
          | Some sn \<Rightarrow>
              (case map_of dst k of
                 None \<Rightarrow> v
               | Some dv \<Rightarrow> (case asObject dv of None \<Rightarrow> v | Some dn \<Rightarrow> GMap (overlayScope dn sn)))) dst) src"
  by pat_completeness auto
termination
  by (relation "measure (\<lambda>(d, s). size_list (size_prod (\<lambda>x. 0) size) s)") (auto dest: asObject_size[of _ _ _ "[(_, _)]"])

section \<open>Steps 1 to 5\<close>

definition step1Signature :: "codec \<Rightarrow> engine \<Rightarrow> clocks \<Rightarrow> string \<Rightarrow> eng_err + claims" where
  "step1Signature c e clk token =
     bindr (unverifiedClaims c token) (\<lambda>routing.
     bindr (need (EMsg ''no iss'') (claimStr routing ''iss'' \<noteq> [])) (\<lambda>_.
     bindr (resolveKey e (wallc clk S1Key) (claimStr routing ''iss'') RoleTTSIssuer) (\<lambda>key.
     wrap_err TokErr (ParseVerify c token key))))"

definition iatSkew :: int where
  "iatSkew = 60"

definition step2Expiry :: "codec \<Rightarrow> gotime \<Rightarrow> claims \<Rightarrow> eng_err + unit" where
  "step2Expiry c t tx =
     bindr (some_or (EMsg ''missing exp claim'') (float_claim tx ''exp'')) (\<lambda>ef.
     let ex = float_to_int (jc_oob c) ef; now = unix t in
     bindr (need (EMsg ''txn expired'') (\<not> now \<ge> ex)) (\<lambda>_.
     bindr (some_or (EMsg ''missing iat'') (float_claim tx ''iat'')) (\<lambda>jf.
     let iat = float_to_int (jc_oob c) jf in
     bindr (need (EMsg ''exp not after iat'') (\<not> ex \<le> iat)) (\<lambda>_.
     need (EMsg ''iat in future'') (\<not> iat > now + iatSkew)))))"

definition step3Audience :: "claims \<Rightarrow> string \<Rightarrow> eng_err + unit" where
  "step3Audience tx expected =
     bindr (need (EMsg ''no audience configured'') (expected \<noteq> [])) (\<lambda>_.
     bindr (need (EMsg ''no aud'') (has_key tx ''aud'')) (\<lambda>_.
     bindr (some_or (EMsg ''aud not string'') (str_claim tx ''aud'')) (\<lambda>aud.
     need (EMsg ''aud mismatch'') (aud = expected))))"

definition step4Revocation :: "engine \<Rightarrow> clocks \<Rightarrow> claims \<Rightarrow> eng_err + unit" where
  "step4Revocation e clk tx =
     bindr (resolveKey e (wallc clk S4Key) (claimStr tx ''iss'') RoleTTSIssuer) (\<lambda>_. Inr ())"

definition proofMaxAge :: int where
  "proofMaxAge = DefaultMaxAge"

definition proofRecordTTL :: int where
  "proofRecordTTL = proofMaxAge + MaxFutureSkew + second"

text \<open>A step that uses the cache returns the engine after it.\<close>

definition consume :: "engine \<Rightarrow> tnow \<Rightarrow> consumption list \<Rightarrow> bool \<times> engine" where
  "consume e now items = (let (ok, rc) = consumeAll now (eg_replay e) items in (ok, e\<lparr>eg_replay := rc\<rparr>))"

definition check_proof :: "codec \<Rightarrow> clocks \<Rightarrow> claims \<Rightarrow> string \<Rightarrow> string \<Rightarrow> string \<Rightarrow> string \<Rightarrow> eng_err + recordKey" where
  "check_proof c clk tx token proof htm htu =
     bindr (need (EMsg ''no binding'') (ATH c token \<noteq> [])) (\<lambda>_.
     bindr (wrap_err TokErr (dpop_Verify c (wallc clk S5Proof) proof htm htu (ATH c token) proofMaxAge)) (\<lambda>(jkt, jti).
     bindr (wrap_err TokErr (CheckSenderConstraint tx jkt)) (\<lambda>_. Inr (proofRecord jkt jti))))"

definition zero_instant :: gotime where
  "zero_instant = - 62135596800 * 10 ^ 9"

definition step5DPoP ::
  "codec \<Rightarrow> engine \<Rightarrow> clocks \<Rightarrow> claims \<Rightarrow> string \<Rightarrow> string \<Rightarrow> string \<Rightarrow> string \<Rightarrow> (eng_err + unit) \<times> engine" where
  "step5DPoP c e clk tx token proof htm htu =
     (case check_proof c clk tx token proof htm htu of
        Inl er \<Rightarrow> (Inl er, e)
      | Inr key \<Rightarrow>
          (let (ok, e1) = consume e (clk S5Record)
             [\<lparr>cn_key = key, cn_ttl = proofRecordTTL, cn_wallExp = zero_instant\<rparr>] in
           (need (EMsg ''proof replayed'') ok, e1)))"

section \<open>Step 6: the chain in clear\<close>

definition checkChainTokenTemporal :: "clocks \<Rightarrow> nat \<Rightarrow> claims \<Rightarrow> eng_err + unit" where
  "checkChainTokenTemporal clk i cl =
     bindr (some_or (EMsg ''missing or non-numeric iat'') (intClaim cl ''iat'')) (\<lambda>iat.
     bindr (some_or (EMsg ''missing or non-numeric exp'') (intClaim cl ''exp'')) (\<lambda>ex.
     bindr (need (EMsg ''exp is not after iat'') (\<not> ex \<le> iat)) (\<lambda>_.
     bindr (need (EMsg ''iat is in the future'') (\<not> iat > unix (wallc clk (TokIat i)) + iatSkew)) (\<lambda>_.
     if has_key cl ''nbf'' then
       bindr (some_or (EMsg ''nbf cannot be evaluated'') (intClaim cl ''nbf'')) (\<lambda>nbf.
       bindr (need (EMsg ''window is empty'') (\<not> nbf \<ge> ex)) (\<lambda>_.
       need (EMsg ''not yet valid'') (\<not> unix (wallc clk (TokNbf i)) < nbf)))
     else Inr ()))))"

definition nbfAttenuates :: "claims \<Rightarrow> claims \<Rightarrow> eng_err + unit" where
  "nbfAttenuates parent child =
     (if \<not> has_key parent ''nbf'' then Inr ()
      else
        bindr (some_or (EMsg ''parent nbf cannot be evaluated'') (intClaim parent ''nbf'')) (\<lambda>p.
        bindr (some_or (EMsg ''drops the nbf window'') (intClaim child ''nbf'')) (\<lambda>n.
        need (EMsg ''opens before its parent'') (\<not> n < p))))"

text \<open>Claims the verifier adds for itself are in a reserved namespace, stripped from every token.\<close>

definition reservedClaimPrefix :: string where
  "reservedClaimPrefix = ''__spt_''"

definition effectiveScopeClaim :: string where
  "effectiveScopeClaim = reservedClaimPrefix @ ''effective_scope''"

definition leafSliceClaim :: string where
  "leafSliceClaim = reservedClaimPrefix @ ''leaf_slice''"

definition strip_reserved :: "claims \<Rightarrow> claims" where
  "strip_reserved cl = filter (\<lambda>(k, v). \<not> has_prefix reservedClaimPrefix k) cl"

definition verifyChainToken ::
  "codec \<Rightarrow> engine \<Rightarrow> clocks \<Rightarrow> nat \<Rightarrow> string \<Rightarrow> (gotime \<Rightarrow> string \<Rightarrow> bytes \<Rightarrow> tok_err + claims) \<Rightarrow> eng_err + claims" where
  "verifyChainToken c e clk i token verify =
     bindr (unverifiedClaims c token) (\<lambda>routing.
     bindr (resolveKey e (wallc clk (TokKey i)) (claimStr routing ''iss'') RoleCTIssuer) (\<lambda>key.
     bindr (wrap_err TokErr (verify (wallc clk (TokExp i)) token key)) (\<lambda>cl.
     Inr (strip_reserved cl))))"

text \<open>Interface comparison: two maps or two slices are not comparable, which panics.\<close>

definition iface_eq :: "gval \<Rightarrow> gval \<Rightarrow> eng_err + bool" where
  "iface_eq a b =
     (case (a, b) of
        (GMap _, GMap _) \<Rightarrow> Inl (EMsg ''panic: uncomparable'')
      | (GList _, GList _) \<Rightarrow> Inl (EMsg ''panic: uncomparable'')
      | _ \<Rightarrow> Inr (a = b))"

definition checkHolderBinding :: "codec \<Rightarrow> claims \<Rightarrow> claims \<Rightarrow> eng_err + unit" where
  "checkHolderBinding c tx ct =
     bindr (some_or (EMsg ''CT holder key malformed'') (hex_decode (claimStr ct ''holder_key''))) (\<lambda>b.
     bindr (need (EMsg ''CT holder key malformed'') (length b = 32)) (\<lambda>_.
     let cnf = (case map_claim tx ''cnf'' of None \<Rightarrow> [] | Some m \<Rightarrow> m) in
     need (EMsg ''cnf.jkt does not commit to the CT holder key'') (claimStr cnf ''jkt'' = Thumbprint c b)))"

record sliceIdentity =
  si_root :: string
  si_legIndex :: int
  si_expiry :: int

definition parse_path :: "gval list \<Rightarrow> eng_err + bytes list" where
  "parse_path raw =
     map_err (\<lambda>ph.
       bindr (some_or (EMsg ''malformed subband path element'') (hex_decode (as_string ph))) (\<lambda>b.
       bindr (need (EMsg ''malformed subband path element'') (length b = 32)) (\<lambda>_. Inr b))) raw"

definition raw_path :: "claims \<Rightarrow> gval list option" where
  "raw_path cl = (case map_of cl ''subband_merkle_path'' of Some (GList l) \<Rightarrow> Some l | _ \<Rightarrow> None)"

definition checkSubbandMembership ::
  "codec \<Rightarrow> claims \<Rightarrow> scope \<Rightarrow> claims \<Rightarrow> scope \<Rightarrow> eng_err + sliceIdentity option" where
  "checkSubbandMembership c parentClaims parentScope childClaims childScope =
     (let parentRoot = claimStr parentClaims ''subband_group_root'';
          parentBudgeted = (DeclaresCumulativeBudget parentScope \<or> parentRoot \<noteq> []);
          childBudgeted = DeclaresCumulativeBudget childScope in
      if \<not> parentBudgeted then
        (if childBudgeted then Inl (EMsg ''self-granted budget'') else Inr None)
      else
        bindr (need (EMsg ''child of a budgeted parent declares no budget'') childBudgeted) (\<lambda>_.
        bindr (need (EMsg ''parent committed no division'') (parentRoot \<noteq> [])) (\<lambda>_.
        bindr (need (EMsg ''group root does not match'') (claimStr childClaims ''subband_group_root'' = parentRoot)) (\<lambda>_.
        let suite = claimStr childClaims ''subband_hash_suite'' in
        bindr (some_or (EMsg ''invalid group size'') (intClaim childClaims ''subband_group_size'')) (\<lambda>groupSize.
        bindr (need (EMsg ''invalid group size'') (\<not> (groupSize \<le> 0 \<or> groupSize > 0xFFFFFFFF))) (\<lambda>_.
        bindr (some_or (EMsg ''invalid leg index'') (intClaim childClaims ''subband_leg_index'')) (\<lambda>legIndex.
        bindr (need (EMsg ''invalid leg index'') (\<not> (legIndex < 0 \<or> legIndex \<ge> groupSize))) (\<lambda>_.
        bindr (some_or (EMsg ''missing merkle path'') (raw_path childClaims)) (\<lambda>raw.
        bindr (parse_path raw) (\<lambda>path.
        bindr (some_or (EMsg ''malformed group root'') (hex_decode parentRoot)) (\<lambda>rt.
        bindr (need (EMsg ''malformed group root'') (length rt = 32)) (\<lambda>_.
        bindr (wrap_err CmtErr (SubbandParentCommit (jc_sha3 c) suite parentScope)) (\<lambda>parentCommit.
        bindr (some_or (EMsg ''child missing exp'') (intClaim childClaims ''exp'')) (\<lambda>childExp.
        let childNbf = (case intClaim childClaims ''nbf'' of None \<Rightarrow> 0 | Some n \<Rightarrow> n);
            b = \<lparr>bd_Scope = childScope, bd_NotBefore = childNbf, bd_Expiry = childExp\<rparr> in
        bindr (wrap_err CmtErr (SubbandLeaf (jc_sha3 c) suite parentCommit b (word_of_int legIndex) (word_of_int groupSize))) (\<lambda>leaf.
        bindr (wrap_err CmtErr (SubbandVerifyMembership (jc_sha3 c) suite leaf (word_of_int legIndex)
                 (word_of_int groupSize) path rt)) (\<lambda>_.
        Inr (Some \<lparr>si_root = parentRoot, si_legIndex = legIndex, si_expiry = childExp\<rparr>)))))))))))))))))"

text \<open>The loop state: the last token walked, its remaining depth, the effective scope, and the slice of
  that token. After the loop the last token is the leaf.\<close>

record walk =
  wk_claims :: claims
  wk_token :: string
  wk_budget :: int
  wk_effective :: scope
  wk_slice :: "sliceIdentity option"

definition check_link :: "codec \<Rightarrow> string \<Rightarrow> nat \<Rightarrow> walk \<Rightarrow> claims \<Rightarrow> eng_err + unit" where
  "check_link c catJTI i w ct =
     bindr (need (EMsg ''spt_parent_hash does not match'')
       (str_claim ct ''spt_parent_hash'' = Some (jc_b64enc c (jc_sha256 c (wk_token w))))) (\<lambda>_.
     if i = 0 then need (EMsg ''spt_cat_ref does not match'') (str_claim ct ''spt_cat_ref'' = Some catJTI)
     else
       bindr (need (EMsg ''spt_parent_ref does not match'')
         (str_claim ct ''spt_parent_ref'' = Some (claimStr (wk_claims w) ''jti''))) (\<lambda>_.
       need (EMsg ''spt_cat_ref does not match'') (str_claim ct ''spt_cat_ref'' = Some catJTI)))"

definition check_anchor :: "string \<Rightarrow> claims \<Rightarrow> bool" where
  "check_anchor anchor cl = (str_claim cl ''human_anchor'' = Some anchor \<and> anchor \<noteq> [])"

definition check_lifetime :: "claims \<Rightarrow> claims \<Rightarrow> eng_err + unit" where
  "check_lifetime parent ct =
     bindr (some_or (EMsg ''CT missing exp'') (intClaim ct ''exp'')) (\<lambda>ctExp.
     bindr (some_or (EMsg ''parent missing exp'') (intClaim parent ''exp'')) (\<lambda>parentExp.
     need (EMsg ''outlives its parent'') (\<not> ctExp > parentExp)))"

definition check_depth :: "int \<Rightarrow> claims \<Rightarrow> eng_err + int" where
  "check_depth budget ct =
     bindr (some_or (EMsg ''delegation depth violated'') (intClaim ct ''delegation_depth_remaining'')) (\<lambda>ctRem.
     bindr (need (EMsg ''delegation depth violated'') (ctRem = wrap64 (budget - 1) \<and> \<not> ctRem < 0)) (\<lambda>_. Inr ctRem))"

definition chain_hop ::
  "codec \<Rightarrow> engine \<Rightarrow> clocks \<Rightarrow> string \<Rightarrow> string \<Rightarrow> nat \<Rightarrow> string \<Rightarrow> walk \<Rightarrow> eng_err + walk" where
  "chain_hop c e clk catJTI anchor i ctTok w =
     bindr (verifyChainToken c e clk (Suc i) ctTok (ct_Verify c)) (\<lambda>ct.
     bindr (check_link c catJTI i w ct) (\<lambda>_.
     bindr (need (EMsg ''humanAnchor not propagated'') (check_anchor anchor ct)) (\<lambda>_.
     bindr (scopeOf (wk_claims w)) (\<lambda>parentScope.
     bindr (scopeOf ct) (\<lambda>ctScope.
     bindr (wrap_err ScpErr (Contains parentScope ctScope)) (\<lambda>_.
     bindr (checkSubbandMembership c (wk_claims w) parentScope ct ctScope) (\<lambda>slice.
     bindr (check_depth (wk_budget w) ct) (\<lambda>ctRem.
     bindr (check_lifetime (wk_claims w) ct) (\<lambda>_.
     bindr (nbfAttenuates (wk_claims w) ct) (\<lambda>_.
     bindr (checkChainTokenTemporal clk (Suc i) ct) (\<lambda>_.
     bindr (checkStatus c e (wallc clk (TokStatus (Suc i))) ct) (\<lambda>_.
     Inr \<lparr>wk_claims = ct, wk_token = ctTok, wk_budget = ctRem,
          wk_effective = overlayScope (wk_effective w) ctScope, wk_slice = slice\<rparr>))))))))))))"

fun chain_walk ::
  "codec \<Rightarrow> engine \<Rightarrow> clocks \<Rightarrow> string \<Rightarrow> string \<Rightarrow> nat \<Rightarrow> string list \<Rightarrow> walk \<Rightarrow> eng_err + walk" where
  "chain_walk c e clk catJTI anchor i [] w = Inr w"
| "chain_walk c e clk catJTI anchor i (t # ts) w =
     bindr (chain_hop c e clk catJTI anchor i t w) (\<lambda>w1. chain_walk c e clk catJTI anchor (Suc i) ts w1)"

definition bind_txn :: "codec \<Rightarrow> string \<Rightarrow> claims \<Rightarrow> claims \<Rightarrow> eng_err + unit" where
  "bind_txn c anchor tx leaf =
     bindr (iface_eq (lookup_val tx ''spt_ct_ref'') (lookup_val leaf ''jti'')) (\<lambda>same.
     bindr (need (EMsg ''spt_ct_ref does not reference the leaf CT'') same) (\<lambda>_.
     bindr (need (EMsg ''SPT-Txn humanAnchor does not match the chain'') (check_anchor anchor tx)) (\<lambda>_.
     checkHolderBinding c tx leaf)))"

definition put_slice :: "sliceIdentity option \<Rightarrow> claims \<Rightarrow> claims" where
  "put_slice so cl =
     (case so of
        None \<Rightarrow> cl
      | Some sl \<Rightarrow> put leafSliceClaim (GSlice (si_root sl) (si_legIndex sl) (si_expiry sl)) cl)"

definition chain_tokens :: "string \<Rightarrow> string list \<Rightarrow> eng_err + string list" where
  "chain_tokens ctToken ctChain =
     (if ctChain \<noteq> [] then Inr ctChain
      else if ctToken = [] then Inl (EMsg ''the capability chain must be presented'') else Inr [ctToken])"

definition walk_root :: "codec \<Rightarrow> engine \<Rightarrow> clocks \<Rightarrow> string \<Rightarrow> eng_err + string \<times> string \<times> walk" where
  "walk_root c e clk catToken =
     bindr (verifyChainToken c e clk 0 catToken (cat_Verify c)) (\<lambda>cat.
     bindr (need (EMsg ''CAT missing humanAnchor'') (claimStr cat ''human_anchor'' \<noteq> [])) (\<lambda>_.
     bindr (some_or (EMsg ''CAT missing delegation_depth_max'') (intClaim cat ''delegation_depth_max'')) (\<lambda>catMax.
     bindr (checkChainTokenTemporal clk 0 cat) (\<lambda>_.
     bindr (checkStatus c e (wallc clk (TokStatus 0)) cat) (\<lambda>_.
     Inr (claimStr cat ''jti'', claimStr cat ''human_anchor'',
       \<lparr>wk_claims = cat, wk_token = catToken, wk_budget = catMax,
        wk_effective = (case scopeOf cat of Inl _ \<Rightarrow> [] | Inr s \<Rightarrow> s), wk_slice = None\<rparr>))))))"

definition step6Chain ::
  "codec \<Rightarrow> engine \<Rightarrow> clocks \<Rightarrow> claims \<Rightarrow> string \<Rightarrow> string \<Rightarrow> string list \<Rightarrow> eng_err + claims" where
  "step6Chain c e clk tx ctToken catToken ctChain =
     bindr (chain_tokens ctToken ctChain) (\<lambda>cts.
     bindr (need (EMsg ''the root CAT must be presented'') (catToken \<noteq> [])) (\<lambda>_.
     bindr (walk_root c e clk catToken) (\<lambda>(catJTI, anchor, w0).
     bindr (chain_walk c e clk catJTI anchor 0 cts w0) (\<lambda>w.
     let leaf = put_slice (wk_slice w) (put effectiveScopeClaim (GMap (wk_effective w)) (wk_claims w)) in
     bindr (bind_txn c anchor tx leaf) (\<lambda>_. Inr leaf)))))"

section \<open>Step 6 with a zero-knowledge proof\<close>

definition be_val :: "bytes \<Rightarrow> int" where
  "be_val bs = foldl (\<lambda>a b. a * 256 + of_char b) 0 bs"

fun ratOf :: "gval \<Rightarrow> rat option" where
  "ratOf (GFloat64 f) = float_rat f"
| "ratOf (GInt I n) = Some (of_int n)"
| "ratOf (GInt I64 n) = Some (of_int n)"
| "ratOf (GInt U64 n) = Some (of_int n)"
| "ratOf (GNum s) = (case ParseAmount s of Inl _ \<Rightarrow> None | Inr _ \<Rightarrow> rat_set_string s)"
| "ratOf _ = None"

definition uint64Ceiling :: "gval \<Rightarrow> eng_err + 64 word" where
  "uint64Ceiling v =
     bindr (need (EMsg ''missing'') (v \<noteq> GNil)) (\<lambda>_.
     bindr (some_or (EMsg ''not a number'') (ratOf v)) (\<lambda>r.
     bindr (need (EMsg ''must not be negative'') (\<not> r < 0)) (\<lambda>_.
     bindr (need (EMsg ''must be a whole number of base units'') (r = of_int (floor r))) (\<lambda>_.
     bindr (need (EMsg ''does not fit in 64 bits'') (floor r < 2 ^ 64)) (\<lambda>_.
     Inr (word_of_int (floor r)))))))"

definition uint64Depth :: "int \<Rightarrow> eng_err + 64 word" where
  "uint64Depth n = (if n < 1 then Inl (EMsg ''must be at least 1'') else Inr (word_of_int n))"

definition zk_budget_free :: "claims \<Rightarrow> scope \<Rightarrow> eng_err + unit" where
  "zk_budget_free cat leafScope =
     bindr (need (EMsg ''CAT declares a cumulative budget'')
       (case scopeOf cat of Inl _ \<Rightarrow> True | Inr cs \<Rightarrow> \<not> DeclaresCumulativeBudget cs)) (\<lambda>_.
     bindr (need (EMsg ''CAT committed a division'') (\<not> has_key cat ''subband_group_root'')) (\<lambda>_.
     need (EMsg ''leaf declares a cumulative budget'') (\<not> DeclaresCumulativeBudget leafScope)))"

definition zk_root :: "codec \<Rightarrow> engine \<Rightarrow> clocks \<Rightarrow> string \<Rightarrow> int \<Rightarrow> eng_err + claims \<times> string" where
  "zk_root c e clk catTok h0 =
     bindr (verifyChainToken c e clk 0 catTok (cat_Verify c)) (\<lambda>cat.
     bindr (checkChainTokenTemporal clk 0 cat) (\<lambda>_.
     let anchor = claimStr cat ''human_anchor'' in
     bindr (need (EMsg ''CAT missing humanAnchor'') (anchor \<noteq> [])) (\<lambda>_.
     bindr (some_or (EMsg ''CAT humanAnchor is not a commitment'') (hex_decode anchor)) (\<lambda>ab.
     bindr (need (EMsg ''CAT humanAnchor is not a commitment'') (length ab = 32)) (\<lambda>_.
     bindr (need (EMsg ''H0 does not equal the CAT humanAnchor'') (be_val ab = h0)) (\<lambda>_.
     Inr (cat, anchor)))))))"

definition zk_leaf :: "codec \<Rightarrow> engine \<Rightarrow> clocks \<Rightarrow> string \<Rightarrow> eng_err + claims" where
  "zk_leaf c e clk ctTok =
     bindr (verifyChainToken c e clk 1 ctTok (ct_Verify c)) (\<lambda>leaf.
     bindr (checkChainTokenTemporal clk 1 leaf) (\<lambda>_.
     bindr (some_or (EMsg ''leaf CT missing exp'') (intClaim leaf ''exp'')) (\<lambda>leafExp.
     bindr (need (EMsg ''leaf window too long'')
       (\<not> sat64 (time_Unix leafExp - wallc clk LeafWindow) > eg_maxZKLeafWindow e)) (\<lambda>_. Inr leaf))))"

definition step6ChainZK :: "codec \<Rightarrow> engine \<Rightarrow> clocks \<Rightarrow> claims \<Rightarrow> input \<Rightarrow> eng_err + claims" where
  "step6ChainZK c e clk tx inp =
     bindr (some_or (EMsg ''ZK chain mode is not enabled'') (eg_chainVerifier e)) (\<lambda>cv.
     bindr (some_or (EMsg ''ZK chain mode requires H0'') (in_ChainH0 inp)) (\<lambda>h0.
     bindr (need (EMsg ''ZK chain mode requires the CAT and the leaf CT'') (in_CAT inp \<noteq> [] \<and> in_CT inp \<noteq> [])) (\<lambda>_.
     bindr (zk_root c e clk (in_CAT inp) h0) (\<lambda>(cat, anchor).
     bindr (zk_leaf c e clk (in_CT inp)) (\<lambda>leaf.
     bindr (scopeOf leaf) (\<lambda>scp.
     bindr (zk_budget_free cat scp) (\<lambda>_.
     bindr (uint64Ceiling (lookup_val scp ''max_amount'')) (\<lambda>maxAmt.
     bindr (some_or (EMsg ''leaf CT scope missing currency'') (str_claim scp ''currency'')) (\<lambda>cur.
     bindr (some_or (EMsg ''CAT missing delegation_depth_max'') (intClaim cat ''delegation_depth_max'')) (\<lambda>catMax.
     bindr (uint64Depth catMax) (\<lambda>depth.
     bindr (need (EMsg ''ZK chain proof invalid'')
       (cv (case in_ChainProof inp of None \<Rightarrow> [] | Some pr \<Rightarrow> pr) h0 (eg_trustedIssuerRoot e) maxAmt cur depth)) (\<lambda>_.
     bindr (need (EMsg ''humanAnchor not propagated to the leaf CT'') (str_claim leaf ''human_anchor'' = Some anchor)) (\<lambda>_.
     bindr (bind_txn c anchor tx leaf) (\<lambda>_.
     Inr (put effectiveScopeClaim (GMap scp) leaf)))))))))))))))"

section \<open>Steps 7 and 8, and single use\<close>

definition checkTxnLifetime :: "claims \<Rightarrow> claims \<Rightarrow> eng_err + unit" where
  "checkTxnLifetime tx leaf =
     bindr (some_or (EMsg ''SPT-Txn missing or non-integral exp'') (intClaim tx ''exp'')) (\<lambda>txExp.
     bindr (some_or (EMsg ''leaf CT missing or non-integral exp'') (intClaim leaf ''exp'')) (\<lambda>leafExp.
     need (EMsg ''SPT-Txn outlives its leaf capability'') (\<not> txExp > leafExp)))"

definition step7Scope :: "claims \<Rightarrow> txnctx \<Rightarrow> eng_err + unit" where
  "step7Scope ct tc =
     bindr (some_or (EMsg ''CT missing capability_scope'')
       (case map_claim ct effectiveScopeClaim of Some m \<Rightarrow> Some m | None \<Rightarrow> map_claim ct ''capability_scope'')) (\<lambda>parent.
     bindr (wrap_err ScpErr (TxnScope parent tc)) (\<lambda>txnScope.
     wrap_err ScpErr (Contains parent txnScope)))"

definition step8Context :: "codec \<Rightarrow> claims \<Rightarrow> txnctx \<Rightarrow> eng_err + unit" where
  "step8Context c tx tc = wrap_err TokErr (VerifyContextHash c tx tc)"

datatype consumeRole = roleNone | roleGate | roleSettle

fun txn_key :: "consumeRole \<Rightarrow> string \<Rightarrow> recordKey option" where
  "txn_key roleGate jti = Some (txnRecord jti)"
| "txn_key roleSettle jti = Some (settleTxnRecord jti)"
| "txn_key roleNone jti = None"

fun slice_key :: "consumeRole \<Rightarrow> string \<Rightarrow> int \<Rightarrow> recordKey" where
  "slice_key roleSettle rt leg = settleSliceRecord rt leg"
| "slice_key _ rt leg = sliceRecord rt leg"

definition use_items :: "consumeRole \<Rightarrow> int \<Rightarrow> claims \<Rightarrow> claims \<Rightarrow> eng_err + consumption list" where
  "use_items role now tx ct =
     bindr (need (EMsg ''SPT-Txn has no jti'') (claimStr tx ''jti'' \<noteq> [])) (\<lambda>_.
     bindr (some_or (EMsg ''SPT-Txn has no readable exp'') (intClaim tx ''exp'')) (\<lambda>ex.
     bindr (some_or (EMsg ''no consuming role given'') (txn_key role (claimStr tx ''jti''))) (\<lambda>tk.
     let it = \<lparr>cn_key = tk, cn_ttl = ttlUntil ex now, cn_wallExp = time_Unix ex\<rparr> in
     Inr (case map_of ct leafSliceClaim of
        Some (GSlice rt leg sx) \<Rightarrow>
          [it, \<lparr>cn_key = slice_key role rt leg, cn_ttl = ttlUntil sx now, cn_wallExp = time_Unix sx\<rparr>]
      | _ \<Rightarrow> [it]))))"

definition consumeOnAllow :: "engine \<Rightarrow> clocks \<Rightarrow> consumeRole \<Rightarrow> claims \<Rightarrow> claims \<Rightarrow> (eng_err + unit) \<times> engine" where
  "consumeOnAllow e clk role tx ct =
     (case use_items role (unix (wallc clk UseNow)) tx ct of
        Inl er \<Rightarrow> (Inl er, e)
      | Inr items \<Rightarrow>
          (let (ok, e1) = consume e (clk UseRecord) items in
           (need (EMsg ''already used'') ok, e1)))"

section \<open>The two verifiers\<close>

text \<open>A failed step is a denial with its number. \<open>admit\<close> is steps 1 to 4, \<open>authorize\<close> is the chain, its
  lifetime, the scope and the context.\<close>

definition at_step :: "nat \<Rightarrow> eng_err + 'a \<Rightarrow> (nat \<times> eng_err) + 'a" where
  "at_step n r = wrap_err (Pair n) r"

definition admit :: "codec \<Rightarrow> engine \<Rightarrow> clocks \<Rightarrow> input \<Rightarrow> (nat \<times> eng_err) + claims" where
  "admit c e clk inp =
     bindr (at_step 1 (step1Signature c e clk (in_TxnToken inp))) (\<lambda>tx.
     bindr (at_step 2 (step2Expiry c (wallc clk S2Now) tx)) (\<lambda>_.
     bindr (at_step 3 (step3Audience tx (in_Audience inp))) (\<lambda>_.
     bindr (at_step 4 (step4Revocation e clk tx)) (\<lambda>_.
     bindr (at_step 4 (checkStatus c e (wallc clk S4Status) tx)) (\<lambda>_. Inr tx)))))"

definition step6 :: "codec \<Rightarrow> engine \<Rightarrow> clocks \<Rightarrow> claims \<Rightarrow> input \<Rightarrow> eng_err + claims" where
  "step6 c e clk tx inp =
     (case in_ChainProof inp of
        Some _ \<Rightarrow> step6ChainZK c e clk tx inp
      | None \<Rightarrow> step6Chain c e clk tx (in_CT inp) (in_CAT inp) (in_CTChain inp))"

definition authorize :: "codec \<Rightarrow> engine \<Rightarrow> clocks \<Rightarrow> claims \<Rightarrow> input \<Rightarrow> (nat \<times> eng_err) + claims" where
  "authorize c e clk tx inp =
     bindr (at_step 6 (step6 c e clk tx inp)) (\<lambda>ct.
     bindr (at_step 6 (checkTxnLifetime tx ct)) (\<lambda>_.
     bindr (at_step 7 (step7Scope ct (in_Txn inp))) (\<lambda>_.
     bindr (at_step 8 (step8Context c tx (in_Txn inp))) (\<lambda>_. Inr ct))))"

definition deny :: "nat \<times> eng_err \<Rightarrow> decision" where
  "deny ne = Deny (fst ne) (snd ne)"

definition Verify :: "codec \<Rightarrow> engine \<Rightarrow> clocks \<Rightarrow> input \<Rightarrow> decision \<times> engine" where
  "Verify c e clk inp =
     (case admit c e clk inp of
        Inl ne \<Rightarrow> (deny ne, e)
      | Inr tx \<Rightarrow>
          (case step5DPoP c e clk tx (in_TxnToken inp) (in_DPoPProof inp) (in_HTM inp) (in_HTU inp) of
             (Inl er, e1) \<Rightarrow> (Deny 5 er, e1)
           | (Inr _, e1) \<Rightarrow>
               (case authorize c e1 clk tx inp of
                  Inl ne \<Rightarrow> (deny ne, e1)
                | Inr ct \<Rightarrow>
                    (case consumeOnAllow e1 clk roleGate tx ct of
                       (Inl er, e2) \<Rightarrow> (Deny 8 er, e2)
                     | (Inr _, e2) \<Rightarrow> (Allow, e2)))))"

record facts =
  fa_HumanAnchor :: string
  fa_MaxAmount :: string
  fa_MaxCumulative :: string
  fa_Currency :: string
  fa_NotAfter :: int

definition no_facts :: facts where
  "no_facts = \<lparr>fa_HumanAnchor = [], fa_MaxAmount = [], fa_MaxCumulative = [], fa_Currency = [], fa_NotAfter = 0\<rparr>"

text \<open>The decimal text of a float and of a value of any other type is the standard library's \<open>fmt\<close>.\<close>

definition decimalString :: "(gval \<Rightarrow> string) \<Rightarrow> gval \<Rightarrow> string" where
  "decimalString fmt v = (case v of GNum s \<Rightarrow> s | GStr s \<Rightarrow> s | _ \<Rightarrow> fmt v)"

definition fact_scope :: "claims \<Rightarrow> scope option" where
  "fact_scope ct =
     (case map_claim ct effectiveScopeClaim of Some m \<Rightarrow> Some m | None \<Rightarrow> map_claim ct ''capability_scope'')"

definition extract_facts :: "(gval \<Rightarrow> string) \<Rightarrow> claims \<Rightarrow> claims \<Rightarrow> facts" where
  "extract_facts fmt tx ct =
     (let dec = (\<lambda>k. case fact_scope ct of None \<Rightarrow> [] | Some m \<Rightarrow> (case map_of m k of None \<Rightarrow> [] | Some v \<Rightarrow> decimalString fmt v)) in
      \<lparr>fa_HumanAnchor = claimStr tx ''human_anchor'', fa_MaxAmount = dec ''max_amount'',
       fa_MaxCumulative = dec ''max_cumulative'',
       fa_Currency = (case fact_scope ct of None \<Rightarrow> [] | Some m \<Rightarrow> claimStr m ''currency''),
       fa_NotAfter = (case intClaim tx ''exp'' of None \<Rightarrow> 0 | Some n \<Rightarrow> n)\<rparr>)"

definition VerifyForSettlement ::
  "(gval \<Rightarrow> string) \<Rightarrow> codec \<Rightarrow> engine \<Rightarrow> clocks \<Rightarrow> input \<Rightarrow> facts \<times> decision \<times> engine" where
  "VerifyForSettlement fmt c e clk inp =
     (case admit c e clk inp of
        Inl ne \<Rightarrow> (no_facts, deny ne, e)
      | Inr tx \<Rightarrow>
          (case authorize c e clk tx inp of
             Inl ne \<Rightarrow> (no_facts, deny ne, e)
           | Inr ct \<Rightarrow>
               (case consumeOnAllow e clk roleSettle tx ct of
                  (Inl er, e1) \<Rightarrow> (no_facts, Deny 8 er, e1)
                | (Inr _, e1) \<Rightarrow> (extract_facts fmt tx ct, Allow, e1))))"

section \<open>Enabling the zero-knowledge mode\<close>

record selftest =
  st_Proof :: bytes
  st_H0 :: "int option"
  st_LeafMaxAmount :: "64 word"
  st_LeafCurrency :: string
  st_MaxDepth :: "64 word"

definition flip_low_bit :: "char \<Rightarrow> char" where
  "flip_low_bit b = (let n = of_char b :: nat in char_of (if even n then n + 1 else n - 1))"

definition bad_proof :: "bytes \<Rightarrow> bytes" where
  "bad_proof p = p[length p div 2 := flip_low_bit (p ! (length p div 2))]"

definition probes :: "chain_verifier \<Rightarrow> int \<Rightarrow> selftest \<Rightarrow> int \<Rightarrow> (string \<times> bool) list" where
  "probes cv rt v h0 =
     [(''H0'', cv (st_Proof v) (h0 + 1) rt (st_LeafMaxAmount v) (st_LeafCurrency v) (st_MaxDepth v)),
      (''RegRoot'', cv (st_Proof v) h0 (rt + 1) (st_LeafMaxAmount v) (st_LeafCurrency v) (st_MaxDepth v)),
      (''leafMaxAmount'', cv (st_Proof v) h0 rt (st_LeafMaxAmount v + 1) (st_LeafCurrency v) (st_MaxDepth v)),
      (''leafCurrency'', cv (st_Proof v) h0 rt (st_LeafMaxAmount v) (st_LeafCurrency v @ ''X'') (st_MaxDepth v)),
      (''maxDepth'', cv (st_Proof v) h0 rt (st_LeafMaxAmount v) (st_LeafCurrency v) (st_MaxDepth v + 1)),
      (''proof bytes'', cv (bad_proof (st_Proof v)) h0 rt (st_LeafMaxAmount v) (st_LeafCurrency v) (st_MaxDepth v))]"

definition EnableChainZK ::
  "engine \<Rightarrow> chain_verifier option \<Rightarrow> int option \<Rightarrow> int \<Rightarrow> selftest \<Rightarrow> (eng_err + unit) \<times> engine" where
  "EnableChainZK e cvo rto window v =
     (case
        bindr (some_or (EMsg ''nil ChainVerifierFunc'') cvo) (\<lambda>cv.
        bindr (some_or (EMsg ''no trusted issuer root'') rto) (\<lambda>rt.
        bindr (need (EMsg ''maxLeafWindow must be positive'') (\<not> window \<le> 0)) (\<lambda>_.
        bindr (need (EMsg ''self-test vector is incomplete'') (st_Proof v \<noteq> [])) (\<lambda>_.
        bindr (some_or (EMsg ''self-test vector is incomplete'') (st_H0 v)) (\<lambda>h0.
        bindr (need (EMsg ''self-test vector does not verify'')
          (cv (st_Proof v) h0 rt (st_LeafMaxAmount v) (st_LeafCurrency v) (st_MaxDepth v))) (\<lambda>_.
        bindr (first_err (\<lambda>(name, accepted). need (ZkUnbound name) (\<not> accepted)) (probes cv rt v h0)) (\<lambda>_.
        Inr (cv, rt)))))))) of
        Inl er \<Rightarrow> (Inl er, e)
      | Inr (cv, rt) \<Rightarrow>
          (Inr (), e\<lparr>eg_chainVerifier := Some cv, eg_trustedIssuerRoot := rt, eg_maxZKLeafWindow := window\<rparr>))"

end
