(* ===== verification/EngineChain.thy ===== *)
theory EngineChain
  imports Engine
begin

text \<open>
  What the chain walk of the engine establishes: the overlay keeps every constraint any token of the
  chain declared (\<open>narrows\<close>), and the walk keeps the linkage, the depth, the lifetimes and the
  anchors of every hop.
\<close>

section \<open>Narrowing\<close>

text \<open>\<open>narrows d v w\<close>: in dimension \<open>d\<close> the value \<open>w\<close> is as tight as \<open>v\<close>. It is \<open>v\<close> itself, or it is
  contained in \<open>v\<close>, or both are objects and every entry of \<open>v\<close> is narrowed by an entry of \<open>w\<close>.\<close>

fun narrows :: "string \<Rightarrow> gval \<Rightarrow> gval \<Rightarrow> bool" where
  "narrows d v w =
     (v = w \<or>
      (case v of
         GMap m \<Rightarrow>
           (case w of
              GMap m' \<Rightarrow> list_all (\<lambda>(k, u). case map_of m' k of None \<Rightarrow> False | Some u' \<Rightarrow> narrows k u u') m
            | _ \<Rightarrow> False)
       | _ \<Rightarrow> is_ok (valueContained d v w)))"

text \<open>\<open>embeds v w\<close>: the entries of \<open>v\<close> stand unchanged in \<open>w\<close>.\<close>

fun embeds :: "gval \<Rightarrow> gval \<Rightarrow> bool" where
  "embeds v w =
     (v = w \<or>
      (case v of
         GMap m \<Rightarrow>
           (case w of
              GMap m' \<Rightarrow> list_all (\<lambda>(k, u). case map_of m' k of None \<Rightarrow> False | Some u' \<Rightarrow> embeds u u') m
            | _ \<Rightarrow> False)
       | _ \<Rightarrow> False))"

declare narrows.simps [simp del] embeds.simps [simp del]

definition covers :: "scope \<Rightarrow> scope \<Rightarrow> bool" where
  "covers s eff = list_all (\<lambda>(d, v). case map_of eff d of None \<Rightarrow> False | Some w \<Rightarrow> narrows d v w) s"

definition embedded :: "scope \<Rightarrow> scope \<Rightarrow> bool" where
  "embedded s eff = list_all (\<lambda>(d, v). case map_of eff d of None \<Rightarrow> False | Some w \<Rightarrow> embeds v w) s"

lemma list_all_entries:
  "list_all (\<lambda>(k, u). case f k of None \<Rightarrow> False | Some u' \<Rightarrow> P k u u') m \<longleftrightarrow>
     (\<forall>k u. (k, u) \<in> set m \<longrightarrow> (\<exists>u'. f k = Some u' \<and> P k u u'))"
  by (fastforce simp: list_all_iff split: option.splits)

lemma narrows_refl [simp]: "narrows d v v"
  by (simp add: narrows.simps)

lemma embeds_refl [simp]: "embeds v v"
  by (simp add: embeds.simps)

lemma narrows_GMap: "narrows d (GMap m) w \<longleftrightarrow> w = GMap m \<or> (\<exists>m'. w = GMap m' \<and> covers m m')"
  unfolding covers_def by (subst narrows.simps) (auto split: gval.split)

lemma embeds_GMap: "embeds (GMap m) w \<longleftrightarrow> w = GMap m \<or> (\<exists>m'. w = GMap m' \<and> embedded m m')"
  unfolding embedded_def by (subst embeds.simps) (auto split: gval.split)

lemma narrows_leaf: "\<forall>m. v \<noteq> GMap m \<Longrightarrow> narrows d v w \<longleftrightarrow> v = w \<or> is_ok (valueContained d v w)"
  by (subst narrows.simps) (auto split: gval.split)

lemma embeds_leaf: "\<forall>m. v \<noteq> GMap m \<Longrightarrow> embeds v w \<longleftrightarrow> v = w"
  by (subst embeds.simps) (auto split: gval.split)

lemma covers_iff: "covers s eff \<longleftrightarrow> (\<forall>d v. (d, v) \<in> set s \<longrightarrow> (\<exists>w. map_of eff d = Some w \<and> narrows d v w))"
  unfolding covers_def by (rule list_all_entries)

lemma embedded_iff: "embedded s eff \<longleftrightarrow> (\<forall>d v. (d, v) \<in> set s \<longrightarrow> (\<exists>w. map_of eff d = Some w \<and> embeds v w))"
  unfolding embedded_def by (rule list_all_entries)

lemma covers_refl: "wf_map s \<Longrightarrow> covers s s"
  by (auto simp: covers_iff wf_map_lookup)

lemma embedded_refl: "wf_map s \<Longrightarrow> embedded s s"
  by (auto simp: embedded_iff wf_map_lookup)

lemma embeds_narrows: "embeds v w \<Longrightarrow> narrows d v w"
proof (induction v arbitrary: w d rule: measure_induct_rule[where f = size])
  case (less v)
  show ?case
  proof (cases "\<exists>m m'. v = GMap m \<and> w = GMap m' \<and> embedded m m'")
    case True
    then obtain m m' where m: "v = GMap m" "w = GMap m'" "embedded m m'" by blast
    have "narrows k u u'" if "(k, u) \<in> set m" "embeds u u'" for k u u'
      using less.IH[of u u' k] that size_list_pair_lt[of k u m size] by (simp add: m)
    with m(3) have "covers m m'" by (fastforce simp: covers_iff embedded_iff)
    then show ?thesis by (simp add: m narrows_GMap)
  next
    case False
    with less.prems have "v = w" by (cases "\<exists>m. v = GMap m") (auto simp: embeds_GMap embeds_leaf)
    then show ?thesis by simp
  qed
qed

lemma contained_not_GMap: "is_ok (valueContained d v w) \<Longrightarrow> \<forall>m. v \<noteq> GMap m \<Longrightarrow> \<forall>m. w \<noteq> GMap m"
  using contained_in_GMap by blast

section \<open>The overlay\<close>

definition overlay_val :: "gval option \<Rightarrow> gval \<Rightarrow> gval" where
  "overlay_val dv v =
     (case asObject v of
        None \<Rightarrow> v
      | Some sn \<Rightarrow>
          (case dv of
             None \<Rightarrow> v
           | Some x \<Rightarrow> (case asObject x of None \<Rightarrow> v | Some dn \<Rightarrow> GMap (overlayScope dn sn))))"

lemma overlay_Cons:
  "overlayScope dst ((k, v) # src) = overlayScope (put k (overlay_val (map_of dst k) v) dst) src"
  by (simp add: overlay_val_def)

declare overlayScope.simps(2) [simp del]

lemma map_of_overlay:
  "wf_map src \<Longrightarrow>
   map_of (overlayScope dst src) k =
     (case map_of src k of None \<Rightarrow> map_of dst k | Some v \<Rightarrow> Some (overlay_val (map_of dst k) v))"
proof (induction src arbitrary: dst)
  case (Cons x src)
  obtain k' v where x: "x = (k', v)" by (cases x)
  with Cons.prems have "k' \<notin> fst ` set src" "wf_map src" by (simp_all add: wf_map_Cons)
  moreover from this have "map_of src k' = None" by (simp add: map_of_eq_None_iff)
  ultimately show ?case by (simp add: x overlay_Cons Cons.IH split: option.split)
qed simp

lemma wf_map_overlay: "wf_map dst \<Longrightarrow> wf_map (overlayScope dst src)"
  by (induction src arbitrary: dst) (auto simp: overlay_Cons)

lemma json_scope_lookup: "json_scope s \<longleftrightarrow> wf_map s \<and> (\<forall>k v. map_of s k = Some v \<longrightarrow> json_val v)"
  by (auto simp: json_scope_def list_all_iff wf_map_lookup)

lemma json_GMap: "json_val (GMap m) \<longleftrightarrow> json_scope m"
  by (simp add: json_scope_def)

lemma json_overlay:
  "json_scope dst \<Longrightarrow> json_scope src \<Longrightarrow> json_scope (overlayScope dst src)"
proof (induction dst src rule: overlayScope.induct)
  case (2 dst k v src)
  have src: "json_scope src" "json_val v" using "2.prems"(2) by (auto simp: json_scope_def wf_map_Cons)
  have dst: "json_val x" if "map_of dst k = Some x" for x
    using that "2.prems"(1) by (auto simp: json_scope_lookup)
  have "json_val (overlay_val (map_of dst k) v)"
  proof (cases "\<exists>sn x dn. asObject v = Some sn \<and> map_of dst k = Some x \<and> asObject x = Some dn")
    case True
    then obtain sn x dn where o: "asObject v = Some sn" "map_of dst k = Some x" "asObject x = Some dn" by blast
    then have "json_scope sn" "json_scope dn"
      using src(2) dst[OF o(2)] by (auto simp: json_object json_GMap simp del: json_val.simps)
    with "2.IH"(1)[OF o(1) o(2) o(3)] show ?thesis
      by (simp add: overlay_val_def o json_GMap del: json_val.simps)
  next
    case False
    then show ?thesis using src(2) by (auto simp: overlay_val_def split: option.split)
  qed
  then have "json_scope (put k (overlay_val (map_of dst k) v) dst)"
    using "2.prems"(1) by (auto simp: json_scope_lookup)
  then show ?case using "2.IH"(2) src(1) unfolding overlay_Cons by (simp add: overlay_val_def)
qed simp

lemma overlay_val_leaf: "json_val cv \<Longrightarrow> \<forall>m. cv \<noteq> GMap m \<Longrightarrow> overlay_val dv cv = cv"
  by (cases "asObject cv") (auto simp: overlay_val_def json_object)

lemma overlay_val_GMap: "overlay_val (Some (GMap em)) (GMap cm) = GMap (overlayScope em cm)"
  by (simp add: overlay_val_def)

text \<open>One hop, at one value: the parent's value stands in the effective scope, the child's is contained
  in it, so overlaying the child keeps what any ancestor required, and the child's value then stands
  there.\<close>

lemma overlay_narrows:
  "json_val cv \<Longrightarrow> json_val ev \<Longrightarrow> embeds pv ev \<Longrightarrow> is_ok (valueContained d pv cv) \<Longrightarrow>
   (\<forall>sv. narrows d sv ev \<longrightarrow> narrows d sv (overlay_val (Some ev) cv)) \<and> embeds cv (overlay_val (Some ev) cv)"
proof (induction cv arbitrary: d pv ev rule: measure_induct_rule[where f = size])
  case (less cv)
  show ?case
  proof (cases "\<exists>cm. cv = GMap cm")
    case False
    then have leaf: "\<forall>m. cv \<noteq> GMap m" by blast
    then have pv: "\<forall>m. pv \<noteq> GMap m" using less.prems(4) by (auto simp: valueContained_shapes)
    with less.prems(3) have ev: "ev = pv" by (simp add: embeds_leaf)
    have "narrows d sv cv" if "narrows d sv pv" for sv
    proof -
      have "\<forall>m. sv \<noteq> GMap m" using that pv by (auto simp: narrows_GMap)
      with that less.prems(4) valueContained_trans show ?thesis by (auto simp: narrows_leaf)
    qed
    with ev less.prems(1) leaf show ?thesis by (simp add: overlay_val_leaf)
  next
    case True
    then obtain cm where cv: "cv = GMap cm" by blast
    from less.prems(4) contained_in_GMap obtain pm where pm: "pv = GMap pm" "is_ok (Contains pm cm)"
      unfolding cv by blast
    from less.prems(3) obtain em where em: "ev = GMap em" "pm = em \<or> embedded pm em"
      by (auto simp: pm embeds_GMap)
    have wf: "wf_map cm" "wf_map em" "json_scope cm" "json_scope em"
      using less.prems(1,2) by (simp_all add: cv em json_GMap json_scope_def)
    have hop: "(\<forall>sv. narrows k sv eu \<longrightarrow> narrows k sv (overlay_val (Some eu) cu)) \<and> embeds cu (overlay_val (Some eu) cu)"
      if k: "map_of cm k = Some cu" "map_of em k = Some eu" for k cu eu
    proof -
      obtain pu where pu: "map_of pm k = Some pu" "is_ok (valueContained k pu cu)"
        using Contains_lookup[OF pm(2) k(1)] by blast
      have "embeds pu eu"
        using em(2) k(2) map_of_SomeD[OF pu(1)] pu(1) by (fastforce simp: embedded_iff)
      moreover have "size cu < size cv"
        using map_of_SomeD[OF k(1)] size_list_pair_lt[of k cu cm size] by (simp add: cv)
      moreover have "json_val cu" "json_val eu" using wf k by (auto simp: json_scope_lookup)
      ultimately show "(\<forall>sv. narrows k sv eu \<longrightarrow> narrows k sv (overlay_val (Some eu) cu)) \<and> embeds cu (overlay_val (Some eu) cu)"
        using less.IH[of cu eu pu k] pu(2) by blast
    qed
    have has: "\<exists>eu. map_of em k = Some eu" if "map_of cm k = Some cu" for k cu
      using Contains_lookup[OF pm(2) that] em(2) map_of_SomeD by (fastforce simp: embedded_iff)
    have cov: "\<exists>w. map_of (overlayScope em cm) k = Some w \<and> (\<forall>sv. narrows k sv eu \<longrightarrow> narrows k sv w)"
      if "map_of em k = Some eu" for k eu
      using hop that by (cases "map_of cm k") (auto simp: map_of_overlay wf)
    have "embedded cm (overlayScope em cm)"
      using hop has by (fastforce simp: embedded_iff map_of_overlay wf wf_map_lookup)
    moreover have "narrows d sv (GMap (overlayScope em cm))" if n: "narrows d sv ev" for sv
    proof (cases "\<exists>m. sv = GMap m")
      case False
      with n em show ?thesis by (auto simp: narrows_leaf dest: contained_not_GMap)
    next
      case True
      then obtain m where m: "sv = GMap m" "m = em \<or> covers m em" using n em by (auto simp: narrows_GMap)
      then have "covers m em" using covers_refl wf by auto
      then have "covers m (overlayScope em cm)" using cov by (fastforce simp: covers_iff)
      then show ?thesis by (simp add: m narrows_GMap)
    qed
    ultimately show ?thesis by (simp add: cv em overlay_val_GMap embeds_GMap)
  qed
qed

lemma overlay_hop:
  assumes "json_scope eff" and "json_scope ct" and "embedded p eff" and "is_ok (Contains p ct)"
  shows "embedded ct (overlayScope eff ct)" and "covers s eff \<Longrightarrow> covers s (overlayScope eff ct)"
    and "covers ct (overlayScope eff ct)"
proof -
  have b: "narrows d (GMap eff) (GMap (overlayScope eff ct)) \<and> embeds (GMap ct) (GMap (overlayScope eff ct)) \<and>
      (narrows d (GMap s) (GMap eff) \<longrightarrow> narrows d (GMap s) (GMap (overlayScope eff ct)))" for d
    using overlay_narrows[of "GMap ct" "GMap eff" "GMap p" d] assms
    by (simp add: json_GMap embeds_GMap valueContained_shapes overlay_val_GMap del: json_val.simps) 
  show emb: "embedded ct (overlayScope eff ct)"
    using b[of "[]"] assms(2) embedded_refl[of ct] by (simp add: embeds_GMap json_scope_def) metis
  show "covers s eff \<Longrightarrow> covers s (overlayScope eff ct)"
    using b covers_refl assms(1) wf_map_overlay by (fastforce simp: narrows_GMap json_scope_def)
  show "covers ct (overlayScope eff ct)"
    using emb embeds_narrows by (fastforce simp: covers_iff embedded_iff)
qed

section \<open>Verified claims\<close>

text \<open>What the code relies on of the JSON decoder: it builds JSON values.\<close>

definition codec_json :: "codec \<Rightarrow> bool" where
  "codec_json c = (\<forall>b cl. jc_claims c b = Some cl \<longrightarrow> json_scope cl)"

lemma verifyJWT_ok:
  "verifyJWT c tok pub = Inr cl \<Longrightarrow>
   \<exists>h p s sig cb. split_char CHR ''.'' tok = [h, p, s] \<and> jc_b64dec c s = Some sig \<and>
     jc_edverify c pub (h @ ''.'' @ p) sig \<and> jc_b64dec c p = Some cb \<and> jc_claims c cb = Some cl"
  by (auto simp: verifyJWT_def split: list.splits)

lemma verify_json:
  assumes "codec_json c" and "verifyJWT c tok pub = Inr cl"
  shows "json_scope cl"
  using verifyJWT_ok[OF assms(2)] assms(1) by (auto simp: codec_json_def)

lemma ct_Verify_jwt: "ct_Verify c now tok pub = Inr cl \<Longrightarrow> verifyJWT c tok pub = Inr cl"
  by (auto simp: ct_Verify_def)

lemma cat_Verify_jwt: "cat_Verify c now tok pub = Inr cl \<Longrightarrow> verifyJWT c tok pub = Inr cl"
  by (auto simp: cat_Verify_def)

lemma wf_map_filter: "wf_map m \<Longrightarrow> wf_map (filter P m)"
  unfolding wf_map_def by (induction m) auto

lemma json_strip: "json_scope cl \<Longrightarrow> json_scope (strip_reserved cl)"
  by (auto simp: json_scope_def strip_reserved_def wf_map_filter list_all_iff)

lemma verifyChainToken_json:
  assumes "codec_json c" and "\<And>now t k cl. ver now t k = Inr cl \<Longrightarrow> verifyJWT c t k = Inr cl"
    and "verifyChainToken c e clk i tok ver = Inr cl"
  shows "json_scope cl"
  using assms(3) verify_json[OF assms(1)] assms(2) json_strip
  by (auto simp: verifyChainToken_def) blast

lemma scopeOf_json:
  assumes "json_scope cl" and "scopeOf cl = Inr s"
  shows "json_scope s"
proof -
  have "map_of cl ''capability_scope'' = Some (GMap s)"
    using assms(2) by (auto simp: scopeOf_def map_claim_def split: option.splits gval.splits)
  with assms(1) have "json_val (GMap s)" unfolding json_scope_lookup by blast
  then show ?thesis by (simp add: json_GMap del: json_val.simps)
qed

section \<open>The walk\<close>

text \<open>The rule of one hop, and a chain of them: each token with its claims, below a parent token with its
  claims and its remaining depth.\<close>

definition nbf_ok :: "claims \<Rightarrow> claims \<Rightarrow> bool" where
  "nbf_ok parent ct =
     (\<not> has_key parent ''nbf'' \<or>
      (case intClaim parent ''nbf'' of
         None \<Rightarrow> False
       | Some p \<Rightarrow> (case intClaim ct ''nbf'' of None \<Rightarrow> False | Some n \<Rightarrow> p \<le> n)))"

definition exp_ok :: "claims \<Rightarrow> claims \<Rightarrow> bool" where
  "exp_ok parent ct =
     (case intClaim parent ''exp'' of
        None \<Rightarrow> False
      | Some p \<Rightarrow> (case intClaim ct ''exp'' of None \<Rightarrow> False | Some n \<Rightarrow> n \<le> p))"

definition scope_ok :: "claims \<Rightarrow> claims \<Rightarrow> bool" where
  "scope_ok parent ct =
     (case scopeOf parent of
        Inl _ \<Rightarrow> False
      | Inr p \<Rightarrow> (case scopeOf ct of Inl _ \<Rightarrow> False | Inr s \<Rightarrow> is_ok (Contains p s)))"

definition hop_ok :: "codec \<Rightarrow> string \<Rightarrow> string \<Rightarrow> int \<Rightarrow> claims \<Rightarrow> claims \<Rightarrow> bool" where
  "hop_ok c anchor ptok budget parent ct =
     (str_claim ct ''spt_parent_hash'' = Some (jc_b64enc c (jc_sha256 c ptok)) \<and>
      check_anchor anchor ct \<and> scope_ok parent ct \<and>
      intClaim ct ''delegation_depth_remaining'' = Some (wrap64 (budget - 1)) \<and> 0 \<le> wrap64 (budget - 1) \<and>
      exp_ok parent ct \<and> nbf_ok parent ct)"

fun linked :: "codec \<Rightarrow> string \<Rightarrow> string \<Rightarrow> int \<Rightarrow> claims \<Rightarrow> (string \<times> claims) list \<Rightarrow> bool" where
  "linked c anchor ptok budget parent [] = True"
| "linked c anchor ptok budget parent ((t, ct) # rest) =
     (hop_ok c anchor ptok budget parent ct \<and> linked c anchor t (wrap64 (budget - 1)) ct rest)"

lemma chain_hop_ok:
  assumes "chain_hop c e clk catJTI anchor i t w = Inr w1"
  shows "verifyChainToken c e clk (Suc i) t (ct_Verify c) = Inr (wk_claims w1)"
    and "hop_ok c anchor (wk_token w) (wk_budget w) (wk_claims w) (wk_claims w1)"
    and "wk_token w1 = t" and "wk_budget w1 = wrap64 (wk_budget w - 1)"
    and "checkChainTokenTemporal clk (Suc i) (wk_claims w1) = Inr ()"
    and "checkStatus c e (wallc clk (TokStatus (Suc i))) (wk_claims w1) = Inr ()"
    and "\<exists>p s. scopeOf (wk_claims w) = Inr p \<and> scopeOf (wk_claims w1) = Inr s \<and> is_ok (Contains p s) \<and>
      wk_effective w1 = overlayScope (wk_effective w) s \<and>
      checkSubbandMembership c (wk_claims w) p (wk_claims w1) s = Inr (wk_slice w1)"
  using assms
  by (auto simp: chain_hop_def hop_ok_def check_link_def check_depth_def check_lifetime_def nbfAttenuates_def
      nbf_ok_def exp_ok_def scope_ok_def is_ok_unit not_less split: if_splits)

lemma chain_walk_ok:
  "chain_walk c e clk catJTI anchor i ts w = Inr w1 \<Longrightarrow>
   \<exists>cls. length cls = length ts \<and>
     (\<forall>n < length ts. verifyChainToken c e clk (Suc (i + n)) (ts ! n) (ct_Verify c) = Inr (cls ! n) \<and>
        checkChainTokenTemporal clk (Suc (i + n)) (cls ! n) = Inr () \<and>
        checkStatus c e (wallc clk (TokStatus (Suc (i + n)))) (cls ! n) = Inr ()) \<and>
     linked c anchor (wk_token w) (wk_budget w) (wk_claims w) (zip ts cls) \<and>
     wk_claims w1 = last (wk_claims w # cls)"
proof (induction ts arbitrary: i w)
  case (Cons t ts)
  then obtain w2 where hop: "chain_hop c e clk catJTI anchor i t w = Inr w2"
    and rest: "chain_walk c e clk catJTI anchor (Suc i) ts w2 = Inr w1" by auto
  from Cons.IH[OF rest] obtain cls where cls: "length cls = length ts"
    "\<forall>n < length ts. verifyChainToken c e clk (Suc (Suc i + n)) (ts ! n) (ct_Verify c) = Inr (cls ! n) \<and>
        checkChainTokenTemporal clk (Suc (Suc i + n)) (cls ! n) = Inr () \<and>
        checkStatus c e (wallc clk (TokStatus (Suc (Suc i + n)))) (cls ! n) = Inr ()"
    "linked c anchor (wk_token w2) (wk_budget w2) (wk_claims w2) (zip ts cls)"
    "wk_claims w1 = last (wk_claims w2 # cls)" by blast
  note h = chain_hop_ok[OF hop]
  show ?case
  proof (intro exI[of _ "wk_claims w2 # cls"] conjI allI impI)
    fix n assume "n < length (t # ts)"
    then show "verifyChainToken c e clk (Suc (i + n)) ((t # ts) ! n) (ct_Verify c) = Inr ((wk_claims w2 # cls) ! n)"
      "checkChainTokenTemporal clk (Suc (i + n)) ((wk_claims w2 # cls) ! n) = Inr ()"
      "checkStatus c e (wallc clk (TokStatus (Suc (i + n)))) ((wk_claims w2 # cls) ! n) = Inr ()"
      using h(1,5,6) cls(2) by (cases n; simp)+
  qed (use h(2-4) cls in auto)
qed simp

text \<open>The effective scope covers every scope of the chain.\<close>

lemma chain_walk_covers:
  assumes "codec_json c" and "chain_walk c e clk catJTI anchor i ts w = Inr w1"
    and "json_scope (wk_claims w)" and "json_scope (wk_effective w)"
    and "\<forall>p. scopeOf (wk_claims w) = Inr p \<longrightarrow> embedded p (wk_effective w)"
    and "covers s (wk_effective w)"
  shows "covers s (wk_effective w1) \<and>
    (\<forall>n < length ts. \<forall>ct sc. verifyChainToken c e clk (Suc (i + n)) (ts ! n) (ct_Verify c) = Inr ct \<longrightarrow>
       scopeOf ct = Inr sc \<longrightarrow> covers sc (wk_effective w1))"
  using assms(2-6)
proof (induction ts arbitrary: i w s)
  case (Cons t ts)
  then obtain w2 where hop: "chain_hop c e clk catJTI anchor i t w = Inr w2"
    and rest: "chain_walk c e clk catJTI anchor (Suc i) ts w2 = Inr w1" by auto
  note h = chain_hop_ok[OF hop]
  from h(7) obtain p sc where ps: "scopeOf (wk_claims w) = Inr p" "scopeOf (wk_claims w2) = Inr sc"
    "is_ok (Contains p sc)" "wk_effective w2 = overlayScope (wk_effective w) sc" by (elim exE conjE)
  have j: "json_scope (wk_claims w2)"
    using verifyChainToken_json[OF assms(1) ct_Verify_jwt h(1)] .
  have jsc: "json_scope sc" by (rule scopeOf_json[OF j ps(2)])
  have je: "json_scope (wk_effective w2)" using json_overlay[OF Cons.prems(3) jsc] ps(4) by simp
  note step = overlay_hop[OF Cons.prems(3) jsc Cons.prems(4)[rule_format, OF ps(1)] ps(3), folded ps(4)]
  have emb: "\<forall>q. scopeOf (wk_claims w2) = Inr q \<longrightarrow> embedded q (wk_effective w2)"
    using ps(2) step(1) by simp
  note IH = Cons.IH[OF rest j je emb]
  have "covers sc (wk_effective w1)" using IH[OF step(3)] by blast
  moreover note IH[OF step(2)[OF Cons.prems(5)]]
  ultimately show ?case
  proof (intro conjI allI impI)
    fix n ct sc'
    assume n: "n < length (t # ts)" "verifyChainToken c e clk (Suc (i + n)) ((t # ts) ! n) (ct_Verify c) = Inr ct"
      "scopeOf ct = Inr sc'"
      and now: "covers sc (wk_effective w1)" and later: "covers s (wk_effective w1) \<and>
        (\<forall>n < length ts. \<forall>ct sc. verifyChainToken c e clk (Suc (Suc i + n)) (ts ! n) (ct_Verify c) = Inr ct \<longrightarrow>
           scopeOf ct = Inr sc \<longrightarrow> covers sc (wk_effective w1))"
    show "covers sc' (wk_effective w1)"
    proof (cases n)
      case 0
      with n h(1) ps(2) now show ?thesis by simp
    next
      case (Suc m)
      with n have "m < length ts" "verifyChainToken c e clk (Suc (Suc i + m)) (ts ! m) (ct_Verify c) = Inr ct" by simp_all
      with later n(3) show ?thesis by blast
    qed
  qed simp
qed simp

end
