(* ===== verification/EngineProps.thy ===== *)
theory EngineProps
  imports EngineChain
begin

text \<open>
  The parts of a decision: the steps that an \<open>Allow\<close> of the engine went through, the claims of the
  presented chain, and what its links give by position.
\<close>

section \<open>Decomposition of a decision\<close>

lemma at_step_Inr [simp]: "at_step n r = Inr x \<longleftrightarrow> r = Inr x"
  by (simp add: at_step_def)

lemma resolveKey_replay [simp]: "resolveKey (e\<lparr>eg_replay := r\<rparr>) = resolveKey e"
  by (simp add: resolveKey_def fun_eq_iff)

lemma checkStatus_replay [simp]: "checkStatus c (e\<lparr>eg_replay := r\<rparr>) = checkStatus c e"
  by (simp add: checkStatus_def fun_eq_iff)

lemma verifyChainToken_replay [simp]: "verifyChainToken c (e\<lparr>eg_replay := r\<rparr>) = verifyChainToken c e"
  by (simp add: verifyChainToken_def fun_eq_iff)

lemma chain_hop_replay [simp]: "chain_hop c (e\<lparr>eg_replay := r\<rparr>) = chain_hop c e"
  by (simp add: chain_hop_def fun_eq_iff)

lemma chain_walk_replay [simp]: "chain_walk c (e\<lparr>eg_replay := r\<rparr>) clk j a i ts = chain_walk c e clk j a i ts"
proof (induction ts arbitrary: i)
  case (Cons t ts)
  show ?case by (rule ext) (simp add: Cons.IH)
qed (rule ext, simp)

lemma admit_replay [simp]: "admit c (e\<lparr>eg_replay := r\<rparr>) = admit c e"
  by (simp add: admit_def step1Signature_def step4Revocation_def fun_eq_iff)

lemma authorize_replay [simp]: "authorize c (e\<lparr>eg_replay := r\<rparr>) = authorize c e"
  by (simp add: authorize_def step6_def step6Chain_def walk_root_def step6ChainZK_def zk_root_def zk_leaf_def
      fun_eq_iff split: option.split)

lemma consume_eq:
  "consume e now items =
     (fst (consumeAll now (eg_replay e) items), e\<lparr>eg_replay := snd (consumeAll now (eg_replay e) items)\<rparr>)"
  by (simp add: consume_def split_beta Let_def)

lemma step5_replay: "\<exists>r. snd (step5DPoP c e clk tx tok pr htm htu) = e\<lparr>eg_replay := r\<rparr>"
proof -
  have "e = e\<lparr>eg_replay := eg_replay e\<rparr>" by simp
  then show ?thesis
    by (auto simp: step5DPoP_def consume_eq Let_def simp del: engine.surjective split: sum.split)
       (metis engine.surjective engine.update_convs(2))+
qed

lemma Verify_Allow:
  assumes "Verify c e clk inp = (Allow, e2)"
  obtains tx ct e1 where "admit c e clk inp = Inr tx"
    and "step5DPoP c e clk tx (in_TxnToken inp) (in_DPoPProof inp) (in_HTM inp) (in_HTU inp) = (Inr (), e1)"
    and "authorize c e clk tx inp = Inr ct"
    and "consumeOnAllow e1 clk roleGate tx ct = (Inr (), e2)"
proof -
  from assms obtain tx where tx: "admit c e clk inp = Inr tx"
    by (auto simp: Verify_def deny_def split: sum.splits)
  obtain r5 e1 where s5: "step5DPoP c e clk tx (in_TxnToken inp) (in_DPoPProof inp) (in_HTM inp) (in_HTU inp) = (r5, e1)"
    by fastforce
  from step5_replay[of c e clk tx "in_TxnToken inp" "in_DPoPProof inp" "in_HTM inp" "in_HTU inp"] s5
  obtain r where "e1 = e\<lparr>eg_replay := r\<rparr>" by auto
  then have au: "authorize c e1 = authorize c e" by simp
  from assms tx s5 au that show ?thesis
    by (auto simp: Verify_def deny_def split: sum.splits prod.splits)
qed

lemma authorize_ok:
  "authorize c e clk tx inp = Inr ct \<longleftrightarrow>
     step6 c e clk tx inp = Inr ct \<and> checkTxnLifetime tx ct = Inr () \<and>
     step7Scope ct (in_Txn inp) = Inr () \<and> step8Context c tx (in_Txn inp) = Inr ()"
  by (auto simp: authorize_def)

section \<open>The chain of an allowed presentation\<close>

text \<open>The claims of the presented tokens, root first, as the engine verifies them.\<close>

definition chain_claims :: "codec \<Rightarrow> engine \<Rightarrow> clocks \<Rightarrow> string \<Rightarrow> string list \<Rightarrow> eng_err + claims list" where
  "chain_claims c e clk catTok cts =
     bindr (verifyChainToken c e clk 0 catTok (cat_Verify c)) (\<lambda>cat.
     bindr (map_err (\<lambda>i. verifyChainToken c e clk (Suc i) (cts ! i) (ct_Verify c)) [0..<length cts]) (\<lambda>cs.
     Inr (cat # cs)))"

lemma chain_claimsI:
  assumes "verifyChainToken c e clk 0 catTok (cat_Verify c) = Inr cat" and "length cs = length cts"
    and "\<forall>n < length cts. verifyChainToken c e clk (Suc n) (cts ! n) (ct_Verify c) = Inr (cs ! n)"
  shows "chain_claims c e clk catTok cts = Inr (cat # cs)"
  using assms by (auto simp: chain_claims_def map_err_Inr list_all2_conv_all_nth)

lemma step6_clear:
  "in_ChainProof inp = None \<Longrightarrow>
   step6 c e clk tx inp = step6Chain c e clk tx (in_CT inp) (in_CAT inp) (in_CTChain inp)"
  by (simp add: step6_def)

lemma step6Chain_ok:
  assumes "step6Chain c e clk tx ctTok catTok ctChain = Inr leaf"
  obtains cts cat cs w anchor catMax where
    "chain_tokens ctTok ctChain = Inr cts" and "cts \<noteq> []"
    and "chain_claims c e clk catTok cts = Inr (cat # cs)" and "length cs = length cts"
    and "anchor = claimStr cat ''human_anchor''" and "anchor \<noteq> []"
    and "intClaim cat ''delegation_depth_max'' = Some catMax"
    and "linked c anchor catTok catMax cat (zip cts cs)"
    and "wk_claims w = last cs"
    and "leaf = put_slice (wk_slice w) (put effectiveScopeClaim (GMap (wk_effective w)) (wk_claims w))"
    and "bind_txn c anchor tx leaf = Inr ()"
    and "\<forall>i < length (cat # cs). checkChainTokenTemporal clk i ((cat # cs) ! i) = Inr () \<and>
           checkStatus c e (wallc clk (TokStatus i)) ((cat # cs) ! i) = Inr ()"
    and "chain_walk c e clk (claimStr cat ''jti'') anchor 0 cts
          \<lparr>wk_claims = cat, wk_token = catTok, wk_budget = catMax,
           wk_effective = (case scopeOf cat of Inl _ \<Rightarrow> [] | Inr s \<Rightarrow> s), wk_slice = None\<rparr> = Inr w"
proof -
  from assms obtain cts catJTI anchor w0 w where ct: "chain_tokens ctTok ctChain = Inr cts"
    and root: "walk_root c e clk catTok = Inr (catJTI, anchor, w0)"
    and wk: "chain_walk c e clk catJTI anchor 0 cts w0 = Inr w"
    and leaf: "leaf = put_slice (wk_slice w) (put effectiveScopeClaim (GMap (wk_effective w)) (wk_claims w))"
    and b: "bind_txn c anchor tx leaf = Inr ()"
    by (auto simp: step6Chain_def Let_def)
  from root obtain cat catMax where r: "verifyChainToken c e clk 0 catTok (cat_Verify c) = Inr cat"
    "anchor = claimStr cat ''human_anchor''" "anchor \<noteq> []" "intClaim cat ''delegation_depth_max'' = Some catMax"
    "catJTI = claimStr cat ''jti''" "checkChainTokenTemporal clk 0 cat = Inr ()"
    "checkStatus c e (wallc clk (TokStatus 0)) cat = Inr ()"
    "w0 = \<lparr>wk_claims = cat, wk_token = catTok, wk_budget = catMax,
        wk_effective = (case scopeOf cat of Inl _ \<Rightarrow> [] | Inr s \<Rightarrow> s), wk_slice = None\<rparr>"
    by (auto simp: walk_root_def)
  from chain_walk_ok[OF wk] obtain cs where cs: "length cs = length cts"
    "\<forall>n < length cts. verifyChainToken c e clk (Suc n) (cts ! n) (ct_Verify c) = Inr (cs ! n) \<and>
        checkChainTokenTemporal clk (Suc n) (cs ! n) = Inr () \<and>
        checkStatus c e (wallc clk (TokStatus (Suc n))) (cs ! n) = Inr ()"
    "linked c anchor catTok catMax cat (zip cts cs)" "wk_claims w = last (cat # cs)"
    by (auto simp: r(8))
  have ne: "cts \<noteq> []" using ct by (auto simp: chain_tokens_def split: if_splits)
  show thesis
  proof (rule that[OF ct ne chain_claimsI[OF r(1) cs(1)] cs(1) r(2,3,4) cs(3) _ leaf b])
    show "wk_claims w = last cs" using cs(1,4) ne by auto
    show "\<forall>i < length (cat # cs). checkChainTokenTemporal clk i ((cat # cs) ! i) = Inr () \<and>
           checkStatus c e (wallc clk (TokStatus i)) ((cat # cs) ! i) = Inr ()"
    proof (intro allI impI)
      fix i assume "i < length (cat # cs)"
      then show "checkChainTokenTemporal clk i ((cat # cs) ! i) = Inr () \<and>
           checkStatus c e (wallc clk (TokStatus i)) ((cat # cs) ! i) = Inr ()"
        using cs(1,2) r(6,7) by (cases i) simp_all
    qed
  qed (use cs(2) wk r(5,8) in auto)
qed

lemma narrows_amount:
  assumes "narrows d v w" and "toRat w = Some y"
  shows "\<exists>x. toRat v = Some x \<and> y \<le> x"
proof (cases v rule: gval_shape_cases)
  case (Map m)
  with assms show ?thesis by (auto simp: narrows_GMap)
next
  case (Num x)
  then have "\<forall>m. v \<noteq> GMap m" by auto
  with assms Num show ?thesis by (auto simp: narrows_leaf valueContained_numeric)
next
  case Opaque
  then have "\<forall>m. v \<noteq> GMap m" by (auto simp: opaque_def)
  with assms Opaque have "toRat v = Some y"
    by (auto simp: narrows_leaf valueContained_opaque dest: deep_equal_toRat)
  then show ?thesis by simp
qed (use assms in \<open>auto simp: narrows_leaf valueContained_shapes\<close>)

lemma narrows_string: "narrows d v (GStr s) \<Longrightarrow> v = GStr s"
  by (cases "\<exists>m. v = GMap m") (auto simp: narrows_GMap narrows_leaf dest: contained_string)

lemma map_claim_put [simp]:
  "map_claim (put k v cl) k' = (if k = k' then (case v of GMap m \<Rightarrow> Some m | _ \<Rightarrow> None) else map_claim cl k')"
  by (simp add: map_claim_def)

lemma effective_leaf:
  "map_claim (put_slice so (put effectiveScopeClaim (GMap m) cl)) effectiveScopeClaim = Some m"
  by (cases so) (simp_all add: put_slice_def effectiveScopeClaim_def leafSliceClaim_def)

lemma leaf_claim:
  assumes "k \<noteq> effectiveScopeClaim" and "k \<noteq> leafSliceClaim"
  shows "map_of (put_slice so (put effectiveScopeClaim v cl)) k = map_of cl k"
  using assms by (cases so) (simp_all add: put_slice_def)

text \<open>Every token's scope is covered by the scope that step 7 checks the transaction against.\<close>

lemma step6Chain_covers:
  assumes "codec_json c" and "step6Chain c e clk tx ctTok catTok ctChain = Inr leaf"
    and "chain_tokens ctTok ctChain = Inr cts" and "chain_claims c e clk catTok cts = Inr cls"
  shows "\<exists>eff. map_claim leaf effectiveScopeClaim = Some eff \<and>
    (\<forall>cl \<in> set cls. \<exists>s. scopeOf cl = Inr s \<and> json_scope s \<and> covers s eff)"
proof -
  obtain cts' cat cs w anchor catMax where k0: "chain_tokens ctTok ctChain = Inr cts'"
    "chain_claims c e clk catTok cts' = Inr (cat # cs)"
    "length cs = length cts'" "cts' \<noteq> []" "linked c anchor catTok catMax cat (zip cts' cs)"
    "leaf = put_slice (wk_slice w) (put effectiveScopeClaim (GMap (wk_effective w)) (wk_claims w))"
    "chain_walk c e clk (claimStr cat ''jti'') anchor 0 cts'
          \<lparr>wk_claims = cat, wk_token = catTok, wk_budget = catMax,
           wk_effective = (case scopeOf cat of Inl _ \<Rightarrow> [] | Inr s \<Rightarrow> s), wk_slice = None\<rparr> = Inr w"
    by (rule step6Chain_ok[OF assms(2)]) (rule that, assumption+)
  have cts': "cts' = cts" using k0(1) assms(3) by simp
  note k = k0(2-7)[unfolded cts']
  have cls: "cls = cat # cs" using k(1) assms(4) by simp
  have ver: "verifyChainToken c e clk 0 catTok (cat_Verify c) = Inr cat"
    "\<forall>n < length cts. verifyChainToken c e clk (Suc n) (cts ! n) (ct_Verify c) = Inr (cs ! n)"
    using k(1) by (auto simp: chain_claims_def map_err_Inr list_all2_conv_all_nth)
  obtain t ts ct rest where z: "cts = t # ts" "cs = ct # rest" using k(2,3) by (cases cts; cases cs) auto
  obtain sc where sc: "scopeOf cat = Inr sc" using k(4) by (auto simp: z hop_ok_def scope_ok_def split: sum.splits)
  have jcat: "json_scope cat" by (rule verifyChainToken_json[OF assms(1) cat_Verify_jwt ver(1)])
  have jsc: "json_scope sc" by (rule scopeOf_json[OF jcat sc])
  have wf: "wf_map sc" using jsc by (simp add: json_scope_def)
  have cov: "covers sc (wk_effective w) \<and>
    (\<forall>n < length cts. \<forall>ct s. verifyChainToken c e clk (Suc (0 + n)) (cts ! n) (ct_Verify c) = Inr ct \<longrightarrow>
       scopeOf ct = Inr s \<longrightarrow> covers s (wk_effective w))"
    by (rule chain_walk_covers[OF assms(1) k(6)]) (simp_all add: sc jcat jsc covers_refl[OF wf] embedded_refl[OF wf])
  have ok: "\<exists>s. scopeOf cl = Inr s \<and> json_scope s \<and> covers s (wk_effective w)" if cl: "cl \<in> set cs" for cl
  proof -
    obtain n where n: "n < length cts" "cl = cs ! n" using cl k(2) by (auto simp: in_set_conv_nth)
    have "\<exists>s. scopeOf cl = Inr s"
    proof -
      have "linked c a pt b p (zip us ds) \<Longrightarrow> length ds = length us \<Longrightarrow> d \<in> set ds \<Longrightarrow> \<exists>s. scopeOf d = Inr s"
        for a pt b p us ds d
      proof (induction us arbitrary: ds pt b p)
        case (Cons u us)
        then show ?case by (cases ds) (auto simp: hop_ok_def scope_ok_def split: sum.splits)
      qed simp
      from this[OF k(4,2) cl] show ?thesis .
    qed
    then obtain s where s: "scopeOf cl = Inr s" ..
    have v: "verifyChainToken c e clk (Suc n) (cts ! n) (ct_Verify c) = Inr cl" using ver(2) n by simp
    have "json_scope cl" by (rule verifyChainToken_json[OF assms(1) ct_Verify_jwt v])
    from scopeOf_json[OF this s] cov v n(1) s show ?thesis by auto
  qed
  show ?thesis
    using ok sc jsc cov by (intro exI[of _ "wk_effective w"]) (simp add: cls k(5) effective_leaf)
qed

section \<open>Chains by position\<close>

lemma linked_links:
  "linked c a pt b p (zip us ds) \<Longrightarrow> length ds = length us \<Longrightarrow> i < length us \<Longrightarrow>
   str_claim (ds ! i) ''spt_parent_hash'' = Some (jc_b64enc c (jc_sha256 c ((pt # us) ! i))) \<and>
   str_claim (ds ! i) ''human_anchor'' = Some a \<and>
   scope_ok ((p # ds) ! i) (ds ! i) \<and> exp_ok ((p # ds) ! i) (ds ! i) \<and> nbf_ok ((p # ds) ! i) (ds ! i)"
proof (induction us arbitrary: pt b p ds i)
  case (Cons u us)
  then obtain d ds' where ds: "ds = d # ds'" by (cases ds) auto
  show ?case
  proof (cases i)
    case 0
    with Cons.prems ds show ?thesis by (simp add: hop_ok_def check_anchor_def)
  next
    case (Suc j)
    with Cons.prems ds Cons.IH[of u "wrap64 (b - 1)" d ds' j] show ?thesis by simp
  qed
qed simp

lemma wrap64_pred: "- (2 ^ 63) < b \<Longrightarrow> b < 2 ^ 63 \<Longrightarrow> wrap64 (b - 1) = b - 1"
  by simp

lemma linked_depth:
  "linked c a pt b p (zip us ds) \<Longrightarrow> length ds = length us \<Longrightarrow> - (2 ^ 63) < b \<Longrightarrow> b < 2 ^ 63 \<Longrightarrow> us \<noteq> [] \<Longrightarrow>
   int (length us) \<le> b \<and> (\<forall>i < length us. intClaim (ds ! i) ''delegation_depth_remaining'' = Some (b - 1 - int i))"
proof (induction us arbitrary: pt b p ds)
  case (Cons u us)
  then obtain d ds' where ds: "ds = d # ds'" by (cases ds) auto
  have w: "wrap64 (b - 1) = b - 1" by (rule wrap64_pred[OF Cons.prems(3,4)])
  have hop: "intClaim d ''delegation_depth_remaining'' = Some (b - 1)" "0 \<le> b - 1"
    and rest: "linked c a u (b - 1) d (zip us ds')"
    using Cons.prems(1) by (simp_all add: ds hop_ok_def w)
  show ?case
  proof (cases "us = []")
    case True
    with hop ds show ?thesis by simp
  next
    case False
    have "int (length us) \<le> b - 1 \<and>
      (\<forall>i < length us. intClaim (ds' ! i) ''delegation_depth_remaining'' = Some (b - 1 - 1 - int i))"
      by (rule Cons.IH[OF rest]) (use Cons.prems ds hop False in auto)
    then show ?thesis using hop(1) by (auto simp: ds nth_Cons split: nat.split)
  qed
qed simp

lemma linked_exp:
  "linked c a pt b p (zip us ds) \<Longrightarrow> length ds = length us \<Longrightarrow> us \<noteq> [] \<Longrightarrow> cl \<in> set (p # ds) \<Longrightarrow>
   \<exists>x l. intClaim cl ''exp'' = Some x \<and> intClaim (last ds) ''exp'' = Some l \<and> l \<le> x"
proof (induction us arbitrary: pt b p ds cl)
  case (Cons u us)
  then obtain d ds' where ds: "ds = d # ds'" by (cases ds) auto
  obtain pe de where e: "intClaim p ''exp'' = Some pe" "intClaim d ''exp'' = Some de" "de \<le> pe"
    using Cons.prems(1) by (auto simp: ds hop_ok_def exp_ok_def split: option.splits)
  show ?case
  proof (cases "us = []")
    case True
    with e ds Cons.prems show ?thesis by auto
  next
    case False
    then have ne: "ds' \<noteq> []" using Cons.prems(2) ds by auto
    have IH: "\<exists>x l. intClaim y ''exp'' = Some x \<and> intClaim (last ds') ''exp'' = Some l \<and> l \<le> x" if "y \<in> set (d # ds')" for y
      by (rule Cons.IH[of u "wrap64 (b - 1)" d]) (use Cons.prems ds False that in auto)
    then show ?thesis
      using Cons.prems(4) e IH[of d] ne by (auto simp: ds)
  qed
qed simp

lemma intClaim_range: "intClaim cl k = Some n \<Longrightarrow> - (2 ^ 63) \<le> n \<and> n < 2 ^ 63"
proof -
  assume "intClaim cl k = Some n"
  then have "n = 0 \<or> (\<exists>r. \<not> (r < - (2 ^ 63) \<or> r \<ge> (2 ^ 63 :: rat)) \<and> n = (if 0 \<le> r then floor r else ceiling r))"
    by (auto simp: intClaim_def split: option.splits gofloat.splits if_split_asm)
  then obtain r where "\<not> (r < - (2 ^ 63) \<or> r \<ge> (2 ^ 63 :: rat))" and n: "n = (if 0 \<le> r then floor r else ceiling r)"
    by (elim disjE exE conjE) (rule that[of 0], simp_all)
  then have r: "- (2 ^ 63) \<le> r" "r < (2 ^ 63 :: rat)" "n = (if 0 \<le> r then floor r else ceiling r)" by auto
  show ?thesis
  proof (cases "0 \<le> r")
    case True
    then have "0 \<le> floor r" by simp
    moreover have "floor r < 2 ^ 63" using r(2) by (simp add: floor_less_iff)
    ultimately show ?thesis using r True by simp
  next
    case False
    then have "ceiling r \<le> 0" by (simp add: ceiling_le_iff)
    moreover have "- (2 ^ 63) \<le> ceiling r" using r(1) by (simp add: le_ceiling_iff)
    ultimately show ?thesis using r False by simp
  qed
qed

section \<open>Signatures\<close>

text \<open>The token carries a signature that verifies under the Ed25519 key the registry returns, at that
  time, for the issuer the token names in the given role.\<close>

definition signed_token :: "codec \<Rightarrow> engine \<Rightarrow> gotime \<Rightarrow> string \<Rightarrow> string \<Rightarrow> bool" where
  "signed_token c e now role tok =
     (case split_char CHR ''.'' tok of
        [h, p, s] \<Rightarrow>
          (case (unverifiedClaims c tok, jc_b64dec c s) of
             (Inr cl, Some sig) \<Rightarrow>
               (case eg_Lookup e now (claimStr cl ''iss'') role of
                  Inl _ \<Rightarrow> False
                | Inr rec \<Rightarrow> tr_KeyType rec = ''Ed25519'' \<and> jc_edverify c (tr_PublicKey rec) (h @ ''.'' @ p) sig)
           | _ \<Rightarrow> False)
      | _ \<Rightarrow> False)"

lemma resolveKey_ok:
  "resolveKey e now iss role = Inr key \<longleftrightarrow>
     (\<exists>rec. eg_Lookup e now iss role = Inr rec \<and> tr_KeyType rec = ''Ed25519'' \<and> length (tr_PublicKey rec) = 32 \<and>
        \<not> isAllZero (tr_PublicKey rec) \<and> key = tr_PublicKey rec)"
  by (auto simp: resolveKey_def)

lemma signed_tokenI:
  assumes "unverifiedClaims c tok = Inr cl" and "resolveKey e now (claimStr cl ''iss'') role = Inr key"
    and "verifyJWT c tok key = Inr cl'"
  shows "signed_token c e now role tok"
  using assms verifyJWT_ok[OF assms(3)] by (auto simp: signed_token_def resolveKey_ok)

lemma verifyChainToken_signed:
  assumes "verifyChainToken c e clk i tok ver = Inr cl"
    and "\<And>now t k cl. ver now t k = Inr cl \<Longrightarrow> verifyJWT c t k = Inr cl"
  shows "signed_token c e (wallc clk (TokKey i)) RoleCTIssuer tok"
  using assms(1) assms(2) by (auto simp: verifyChainToken_def intro: signed_tokenI)

text \<open>The claims of a token are decoded from its own text.\<close>

lemma verifyJWT_unverified: "verifyJWT c tok key = Inr cl \<Longrightarrow> unverifiedClaims c tok = Inr cl"
  by (auto simp: verifyJWT_def unverifiedClaims_def split: list.splits)

lemma step1_ok:
  assumes "step1Signature c e clk tok = Inr tx"
  shows "unverifiedClaims c tok = Inr tx" and "signed_token c e (wallc clk S1Key) RoleTTSIssuer tok"
proof -
  from assms obtain cl key where cl: "unverifiedClaims c tok = Inr cl"
    "resolveKey e (wallc clk S1Key) (claimStr cl ''iss'') RoleTTSIssuer = Inr key" "ParseVerify c tok key = Inr tx"
    by (auto simp: step1Signature_def)
  then have j: "verifyJWT c tok key = Inr tx" by (auto simp: ParseVerify_def)
  then show "unverifiedClaims c tok = Inr tx" by (rule verifyJWT_unverified)
  show "signed_token c e (wallc clk S1Key) RoleTTSIssuer tok" by (rule signed_tokenI[OF cl(1,2) j])
qed

lemma admit_ok:
  "admit c e clk inp = Inr tx \<longleftrightarrow>
     step1Signature c e clk (in_TxnToken inp) = Inr tx \<and> step2Expiry c (wallc clk S2Now) tx = Inr () \<and>
     step3Audience tx (in_Audience inp) = Inr () \<and> step4Revocation e clk tx = Inr () \<and>
     checkStatus c e (wallc clk S4Status) tx = Inr ()"
  by (auto simp: admit_def)

section \<open>Facts of verified claims\<close>

lemma map_of_strip: "map_of (strip_reserved cl) k = (if has_prefix reservedClaimPrefix k then None else map_of cl k)"
  by (induction cl) (auto simp: strip_reserved_def)

lemma float_to_int_intClaim:
  "float_claim cl k = Some f \<Longrightarrow> intClaim cl k = Some n \<Longrightarrow> float_to_int oob f = n"
  by (auto simp: intClaim_def float_to_int_def split: gofloat.splits if_splits)

lemma check_exp_window:
  assumes "check_exp c now cl = Inr u" and "intClaim cl ''exp'' = Some x"
  shows "unix now < x"
proof -
  obtain f where "float_claim cl ''exp'' = Some f" "unix now < float_to_int (jc_oob c) f"
    using assms(1) by (auto simp: check_exp_def)
  with float_to_int_intClaim[OF this(1) assms(2)] show ?thesis by simp
qed

lemma verifyChainToken_window:
  assumes "verifyChainToken c e clk i tok ver = Inr cl"
    and "\<forall>now t k cl. ver now t k = Inr cl \<longrightarrow> check_exp c now cl = Inr ()"
    and "intClaim cl ''exp'' = Some x"
  shows "unix (wallc clk (TokExp i)) < x"
proof -
  obtain cl0 key where v: "ver (wallc clk (TokExp i)) tok key = Inr cl0" "cl = strip_reserved cl0"
    using assms(1) by (auto simp: verifyChainToken_def)
  have "intClaim cl0 ''exp'' = Some x"
    using assms(3) by (simp add: v(2) intClaim_def float_claim_def map_of_strip has_prefix_def reservedClaimPrefix_def)
  with check_exp_window assms(2) v(1) show ?thesis by blast
qed

lemma cat_Verify_exp: "cat_Verify c now t k = Inr cl \<longrightarrow> check_exp c now cl = Inr ()"
  and ct_Verify_exp: "ct_Verify c now t k = Inr cl \<longrightarrow> check_exp c now cl = Inr ()"
  by (auto simp: cat_Verify_def ct_Verify_def)

lemma chain_claims_token:
  assumes "chain_claims c e clk catTok cts = Inr cls" and "i < length cls"
  shows "\<exists>ver. verifyChainToken c e clk i ((catTok # cts) ! i) ver = Inr (cls ! i) \<and>
     (ver = cat_Verify c \<or> ver = ct_Verify c)"
proof (cases i)
  case 0
  with assms show ?thesis by (auto simp: chain_claims_def)
next
  case (Suc j)
  with assms have "verifyChainToken c e clk i ((catTok # cts) ! i) (ct_Verify c) = Inr (cls ! i)"
    by (auto simp: chain_claims_def map_err_Inr list_all2_conv_all_nth)
  then show ?thesis by blast
qed

lemma chain_claims_length: "chain_claims c e clk catTok cts = Inr cls \<Longrightarrow> length cls = Suc (length cts)"
  by (auto simp: chain_claims_def map_err_Inr dest: list_all2_lengthD)

lemma temporal_ok:
  "checkChainTokenTemporal clk i cl = Inr () \<Longrightarrow>
   \<exists>iat ex. intClaim cl ''iat'' = Some iat \<and> intClaim cl ''exp'' = Some ex \<and> iat < ex \<and>
     iat \<le> unix (wallc clk (TokIat i)) + 60 \<and>
     (has_key cl ''nbf'' \<longrightarrow> (\<exists>nbf. intClaim cl ''nbf'' = Some nbf \<and> nbf < ex \<and> nbf \<le> unix (wallc clk (TokNbf i))))"
  by (auto simp: checkChainTokenTemporal_def iatSkew_def not_le not_less split: if_splits)

lemma chain_token_window:
  assumes "chain_claims c e clk catTok cts = Inr cls" and "i < length cls"
    and "checkChainTokenTemporal clk i (cls ! i) = Inr ()"
  shows "\<exists>iat ex. intClaim (cls ! i) ''iat'' = Some iat \<and> intClaim (cls ! i) ''exp'' = Some ex \<and> iat < ex \<and>
     iat \<le> unix (wallc clk (TokIat i)) + 60 \<and> unix (wallc clk (TokExp i)) < ex \<and>
     (has_key (cls ! i) ''nbf'' \<longrightarrow> (\<exists>nbf. intClaim (cls ! i) ''nbf'' = Some nbf \<and> nbf \<le> unix (wallc clk (TokNbf i))))"
proof -
  obtain ver where v: "verifyChainToken c e clk i ((catTok # cts) ! i) ver = Inr (cls ! i)"
    "\<forall>now t k cl. ver now t k = Inr cl \<longrightarrow> check_exp c now cl = Inr ()"
    using chain_claims_token[OF assms(1,2)] cat_Verify_exp ct_Verify_exp by blast
  from temporal_ok[OF assms(3)] verifyChainToken_window[OF v] show ?thesis by blast
qed

lemma step2_ok:
  assumes "step2Expiry c t tx = Inr ()" and "intClaim tx ''exp'' = Some x"
  shows "unix t < x"
proof -
  obtain f where "float_claim tx ''exp'' = Some f" "unix t < float_to_int (jc_oob c) f"
    using assms(1) by (auto simp: step2Expiry_def Let_def)
  with float_to_int_intClaim[OF this(1) assms(2)] show ?thesis by simp
qed

lemma intClaim_cong: "map_of a k = map_of b k \<Longrightarrow> intClaim a k = intClaim b k"
  by (simp add: intClaim_def float_claim_def)

lemma bind_txn_ok:
  "bind_txn c anchor tx leaf = Inr () \<longleftrightarrow>
     iface_eq (lookup_val tx ''spt_ct_ref'') (lookup_val leaf ''jti'') = Inr True \<and> check_anchor anchor tx \<and>
     checkHolderBinding c tx leaf = Inr ()"
  by (auto simp: bind_txn_def)

lemma iface_eq_True: "iface_eq a b = Inr True \<Longrightarrow> a = b"
  by (auto simp: iface_eq_def split: gval.splits prod.splits)

text \<open>The presentation in clear, decomposed once for the properties below.\<close>

lemma allowed_clear:
  assumes "Verify c e clk inp = (Allow, e2)" and "in_ChainProof inp = None"
  obtains tx leaf cts cat cs anchor catMax where
    "admit c e clk inp = Inr tx"
    and "step6Chain c e clk tx (in_CT inp) (in_CAT inp) (in_CTChain inp) = Inr leaf"
    and "checkTxnLifetime tx leaf = Inr ()" and "step7Scope leaf (in_Txn inp) = Inr ()"
    and "chain_tokens (in_CT inp) (in_CTChain inp) = Inr cts" and "cts \<noteq> []"
    and "chain_claims c e clk (in_CAT inp) cts = Inr (cat # cs)" and "length cs = length cts"
    and "anchor = claimStr cat ''human_anchor''"
    and "intClaim cat ''delegation_depth_max'' = Some catMax"
    and "linked c anchor (in_CAT inp) catMax cat (zip cts cs)"
    and "\<forall>k. k \<noteq> effectiveScopeClaim \<longrightarrow> k \<noteq> leafSliceClaim \<longrightarrow> map_of leaf k = map_of (last cs) k"
    and "bind_txn c anchor tx leaf = Inr ()"
    and "\<forall>i < length (cat # cs). checkChainTokenTemporal clk i ((cat # cs) ! i) = Inr ()"
    and "\<forall>i < length (cat # cs). checkStatus c e (wallc clk (TokStatus i)) ((cat # cs) ! i) = Inr ()"
proof -
  obtain tx leaf where a: "admit c e clk inp = Inr tx" "authorize c e clk tx inp = Inr leaf"
    by (rule Verify_Allow[OF assms(1)])
  then have s: "step6Chain c e clk tx (in_CT inp) (in_CAT inp) (in_CTChain inp) = Inr leaf"
    "checkTxnLifetime tx leaf = Inr ()" "step7Scope leaf (in_Txn inp) = Inr ()"
    using step6_clear[OF assms(2)] by (simp_all add: authorize_ok)
  show thesis
    by (rule step6Chain_ok[OF s(1)], rule that[OF a(1) s]) (auto simp: leaf_claim)
qed

text \<open>The transaction that step 7 accepts is within every ceiling of the chain.\<close>

lemma chain_bounds_amount:
  assumes "codec_json c" and "step6Chain c e clk tx ctTok catTok ctChain = Inr leaf" and "step7Scope leaf tc = Inr ()"
    and "chain_tokens ctTok ctChain = Inr cts" and "chain_claims c e clk catTok cts = Inr cls"
    and "cl \<in> set cls" and "scopeOf cl = Inr s" and "d \<in> set money_dims" and "map_of s d = Some v"
  shows "\<exists>x y. ParseAmount (tc_Amount tc) = Inr x \<and> 0 < x \<and> toRat v = Some y \<and> x \<le> y \<and>
    (\<forall>cv. map_of s ''currency'' = Some cv \<longrightarrow> cv = GStr (tc_Currency tc))"
proof -
  obtain eff where eff: "map_claim leaf effectiveScopeClaim = Some eff" and
    cov: "\<forall>cl \<in> set cls. \<exists>s. scopeOf cl = Inr s \<and> json_scope s \<and> covers s eff"
    using step6Chain_covers[OF assms(1,2,4,5)] by blast
  from cov assms(6,7) have "covers s eff" by auto
  then have nw: "\<exists>w. map_of eff k = Some w \<and> narrows k u w" if "map_of s k = Some u" for k u
    using map_of_SomeD[OF that] by (simp add: covers_iff)
  obtain w where w: "map_of eff d = Some w" "narrows d v w" using nw[OF assms(9)] by blast
  obtain ts where ts: "TxnScope eff tc = Inr ts" "is_ok (Contains eff ts)"
    using assms(3) by (auto simp: step7Scope_def eff is_ok_unit)
  from contained_transaction_bounded[OF ts assms(8) w(1)] obtain x y where xy:
    "ParseAmount (tc_Amount tc) = Inr x" "0 < x" "toRat w = Some y" "x \<le> y"
    "map_of eff ''currency'' = Some (GStr (tc_Currency tc))" by blast
  obtain y' where y': "toRat v = Some y'" "y \<le> y'" using narrows_amount[OF w(2) xy(3)] by blast
  have "cv = GStr (tc_Currency tc)" if "map_of s ''currency'' = Some cv" for cv
    using nw[OF that] xy(5) narrows_string by auto
  with xy y' show ?thesis by force
qed

text \<open>The signatures behind an allowed presentation.\<close>

lemma allowed_signed:
  assumes "Verify c e clk inp = (Allow, e2)" and "in_ChainProof inp = None"
    and "chain_tokens (in_CT inp) (in_CTChain inp) = Inr cts"
  shows "signed_token c e (wallc clk S1Key) RoleTTSIssuer (in_TxnToken inp) \<and>
    (\<forall>i \<le> length cts. signed_token c e (wallc clk (TokKey i)) RoleCTIssuer ((in_CAT inp # cts) ! i))"
proof -
  obtain tx cts' cat cs where k: "admit c e clk inp = Inr tx"
    "chain_tokens (in_CT inp) (in_CTChain inp) = Inr cts'"
    "chain_claims c e clk (in_CAT inp) cts' = Inr (cat # cs)"
    by (rule allowed_clear[OF assms(1,2)])
  have cc: "chain_claims c e clk (in_CAT inp) cts = Inr (cat # cs)" using k(2,3) assms(3) by simp
  have "signed_token c e (wallc clk (TokKey i)) RoleCTIssuer ((in_CAT inp # cts) ! i)" if "i \<le> length cts" for i
  proof -
    have "i < length (cat # cs)" using chain_claims_length[OF cc] that by simp
    from chain_claims_token[OF cc this] show ?thesis
      using verifyChainToken_signed cat_Verify_jwt ct_Verify_jwt by blast
  qed
  moreover have "signed_token c e (wallc clk S1Key) RoleTTSIssuer (in_TxnToken inp)"
    using k(1) by (auto simp: admit_ok dest: step1_ok(2))
  ultimately show ?thesis by blast
qed

end
