(* ===== verification/EngineSample.thy ===== *)
theory EngineSample
  imports EngineProps
begin

text \<open>
  A concrete presentation: a root capability, two delegations below it (the second one drops the
  amount ceiling) and a transaction token for an XRPL payment of 25.50 USD. It is allowed, so the
  hypotheses of the properties of an allowed presentation can hold together.
\<close>

section \<open>Tokens\<close>

definition smp_holder :: bytes where
  "smp_holder = replicate 32 CHR ''k''"

definition smp_pre :: bytes where
  "smp_pre = projr (ad_canonicalize XRPL sample_txn)"

definition smp_jwk :: string where
  "smp_jwk = ''{\"crv\":\"Ed25519\",\"kty\":\"OKP\",\"x\":\"'' @ smp_holder @ ''\"}''"

definition smp_num :: "int \<Rightarrow> gval" where
  "smp_num n = GFloat64 (Fin (of_int n))"

definition smp_s0 :: scope where
  "smp_s0 = [(''max_amount'', smp_num 100), (''currency'', GStr ''USD'')]"

definition smp_s1 :: scope where
  "smp_s1 = [(''max_amount'', smp_num 50), (''currency'', GStr ''USD'')]"

definition smp_s2 :: scope where
  "smp_s2 = [(''currency'', GStr ''USD'')]"

definition smp_cat :: claims where
  "smp_cat =
     [(''iss'', GStr ''ct''), (''txn_token_type'', GStr ''CAT''), (''jti'', GStr ''c1''), (''human_anchor'', GStr ''a''),
      (''iat'', smp_num 90), (''exp'', smp_num 500), (''delegation_depth_max'', smp_num 2),
      (''capability_scope'', GMap [(''max_amount'', smp_num 100), (''currency'', GStr ''USD'')])]"

definition smp_ct1 :: claims where
  "smp_ct1 =
     [(''iss'', GStr ''ct''), (''txn_token_type'', GStr ''CT''), (''jti'', GStr ''k1''), (''human_anchor'', GStr ''a''),
      (''iat'', smp_num 90), (''exp'', smp_num 400), (''delegation_depth_remaining'', smp_num 1),
      (''spt_parent_hash'', GStr ''h.c.s''), (''spt_cat_ref'', GStr ''c1''),
      (''capability_scope'', GMap [(''max_amount'', smp_num 50), (''currency'', GStr ''USD'')])]"

definition smp_ct2 :: claims where
  "smp_ct2 =
     [(''iss'', GStr ''ct''), (''txn_token_type'', GStr ''CT''), (''jti'', GStr ''l1''), (''human_anchor'', GStr ''a''),
      (''iat'', smp_num 95), (''exp'', smp_num 300), (''delegation_depth_remaining'', smp_num 0),
      (''spt_parent_hash'', GStr ''h.k.s''), (''spt_parent_ref'', GStr ''k1''), (''spt_cat_ref'', GStr ''c1''),
      (''holder_key'', GStr (hex_encode smp_holder)),
      (''capability_scope'', GMap [(''currency'', GStr ''USD'')])]"

definition smp_tx :: claims where
  "smp_tx =
     [(''iss'', GStr ''tts''), (''txn_token_type'', GStr ''TXN''), (''jti'', GStr ''t1''), (''human_anchor'', GStr ''a''),
      (''aud'', GStr ''shop''), (''iat'', smp_num 98), (''exp'', smp_num 200), (''spt_ct_ref'', GStr ''l1''),
      (''cnf'', GMap [(''jkt'', GStr smp_jwk)]),
      (''spt_txn_chain'', GStr ''xrpl''), (''spt_txn_context_hash'', GStr (hex_encode smp_pre))]"

definition smp_codec :: codec where
  "smp_codec = \<lparr>jc_b64dec = Some, jc_b64enc = (\<lambda>b. b), jc_alg = (\<lambda>_. ''EdDSA''),
     jc_claims = map_of [(''t'', smp_tx), (''c'', smp_cat), (''k'', smp_ct1), (''l'', smp_ct2)],
     jc_marshal = (\<lambda>_. None), jc_edverify = (\<lambda>_ _ _. True), jc_sha256 = (\<lambda>b. b), jc_sha3 = (\<lambda>b. b),
     jc_dpop_header = (\<lambda>_. Some \<lparr>dh_typ = ''dpop+jwt'', dh_alg = ''EdDSA'', dh_kty = ''OKP'', dh_crv = ''Ed25519'',
        dh_x = smp_holder\<rparr>),
     jc_dpop_claims = (\<lambda>b. Some \<lparr>dc_jti = b, dc_htm = ''POST'', dc_htu = ''u'', dc_ath = ''h.t.s'', dc_iat = 99\<rparr>),
     jc_url_parse = (\<lambda>_. None), jc_url_string = (\<lambda>_. []), jc_lower = (\<lambda>s. s), jc_oob = (\<lambda>_. 0)\<rparr>"

definition smp_rec :: "string \<Rightarrow> string \<Rightarrow> trecord" where
  "smp_rec iss role = \<lparr>tr_Iss = iss, tr_Role = role, tr_PublicKey = replicate 32 CHR ''i'', tr_MlkemEncapKey = [],
     tr_KeyType = ''Ed25519'', tr_ValidFrom = 0, tr_ValidUntil = 1000 * 10 ^ 9, tr_Status = StatusActive, tr_Metadata = []\<rparr>"

definition smp_engine :: engine where
  "smp_engine = \<lparr>eg_Lookup = (\<lambda>_ iss role. Inr (smp_rec iss role)), eg_replay = newReplayCache,
     eg_chainVerifier = None, eg_trustedIssuerRoot = 0, eg_maxZKLeafWindow = 0, eg_StatusResolver = None\<rparr>"

definition smp_clk :: clocks where
  "smp_clk s = \<lparr>mono = 7, wall = 100 * 10 ^ 9\<rparr>"

definition smp_input :: "char \<Rightarrow> input" where
  "smp_input p = \<lparr>in_TxnToken = ''h.t.s'', in_DPoPProof = [CHR ''h'', CHR ''.'', p, CHR ''.'', CHR ''s''], in_HTM = ''POST'', in_HTU = ''u'', in_CT = [],
     in_CTChain = [''h.k.s'', ''h.l.s''], in_CAT = ''h.c.s'', in_Txn = sample_txn, in_Audience = ''shop'',
     in_ChainProof = None, in_ChainH0 = None\<rparr>"

section \<open>The run\<close>

lemma smp_wall [simp]: "wallc smp_clk s = 100000000000" "unix 100000000000 = 100"
  by (simp_all add: wallc_def smp_clk_def unix_def)

lemma smp_numbers [simp]:
  "intClaim ((k, smp_num n) # m) k = (if - (2 ^ 63) \<le> n \<and> n < 2 ^ 63 then Some n else None)"
  "k \<noteq> k' \<Longrightarrow> intClaim ((k', v) # m) k = intClaim m k" "intClaim [] k = None"
  by (simp_all add: intClaim_def float_claim_def smp_num_def not_less linorder_not_le)

lemma smp_codec_simps [simp]:
  "jc_b64dec smp_codec s = Some s" "jc_b64enc smp_codec b = b" "jc_alg smp_codec b = ''EdDSA''"
  "jc_edverify smp_codec k m sg" "jc_sha256 smp_codec b = b" "jc_sha3 smp_codec b = b"
  "jc_claims smp_codec ''t'' = Some smp_tx" "jc_claims smp_codec ''c'' = Some smp_cat"
  "jc_claims smp_codec ''k'' = Some smp_ct1" "jc_claims smp_codec ''l'' = Some smp_ct2"
  by (simp_all add: smp_codec_def)

lemma smp_jwt:
  "split_char CHR ''.'' [CHR ''h'', CHR ''.'', p, CHR ''.'', CHR ''s''] = [''h'', [p], ''s'']" if "p \<noteq> CHR ''.''" for p
  using that by simp

lemma smp_unverified:
  "unverifiedClaims smp_codec ''h.t.s'' = Inr smp_tx" "unverifiedClaims smp_codec ''h.c.s'' = Inr smp_cat"
  "unverifiedClaims smp_codec ''h.k.s'' = Inr smp_ct1" "unverifiedClaims smp_codec ''h.l.s'' = Inr smp_ct2"
  by (simp_all add: unverifiedClaims_def)

lemma smp_verify:
  "verifyJWT smp_codec ''h.t.s'' k = Inr smp_tx" "verifyJWT smp_codec ''h.c.s'' k = Inr smp_cat"
  "verifyJWT smp_codec ''h.k.s'' k = Inr smp_ct1" "verifyJWT smp_codec ''h.l.s'' k = Inr smp_ct2"
  by (simp_all add: verifyJWT_def)

lemma smp_key: "resolveKey smp_engine now iss role = Inr (replicate 32 CHR ''i'')"
  by (simp add: resolveKey_def smp_engine_def smp_rec_def isAllZero_def list_all_iff)

lemma smp_status: "checkStatus c smp_engine now cl = Inr ()"
  by (simp add: checkStatus_def smp_engine_def)

lemma smp_strip: "strip_reserved smp_cat = smp_cat" "strip_reserved smp_ct1 = smp_ct1" "strip_reserved smp_ct2 = smp_ct2"
  by (simp_all add: strip_reserved_def smp_cat_def smp_ct1_def smp_ct2_def reservedClaimPrefix_def has_prefix_def)

lemmas smp_claims = smp_cat_def smp_ct1_def smp_ct2_def smp_tx_def claimStr_def str_claim_def

lemma smp_chain_token:
  "verifyChainToken smp_codec smp_engine smp_clk i ''h.c.s'' (cat_Verify smp_codec) = Inr smp_cat"
  "verifyChainToken smp_codec smp_engine smp_clk i ''h.k.s'' (ct_Verify smp_codec) = Inr smp_ct1"
  "verifyChainToken smp_codec smp_engine smp_clk i ''h.l.s'' (ct_Verify smp_codec) = Inr smp_ct2"
proof -
  have v: "cat_Verify smp_codec 100000000000 ''h.c.s'' k = Inr smp_cat"
    "ct_Verify smp_codec 100000000000 ''h.k.s'' k = Inr smp_ct1"
    "ct_Verify smp_codec 100000000000 ''h.l.s'' k = Inr smp_ct2" for k
    by (simp_all add: cat_Verify_def ct_Verify_def smp_verify check_exp_def check_type_def smp_claims float_claim_def
        smp_num_def float_to_int_def)
  show "verifyChainToken smp_codec smp_engine smp_clk i ''h.c.s'' (cat_Verify smp_codec) = Inr smp_cat"
    "verifyChainToken smp_codec smp_engine smp_clk i ''h.k.s'' (ct_Verify smp_codec) = Inr smp_ct1"
    "verifyChainToken smp_codec smp_engine smp_clk i ''h.l.s'' (ct_Verify smp_codec) = Inr smp_ct2"
    by (simp_all add: verifyChainToken_def smp_unverified smp_key v smp_strip)
qed

lemma smp_scopes:
  "scopeOf smp_cat = Inr smp_s0"
  "scopeOf smp_ct1 = Inr smp_s1"
  "scopeOf smp_ct2 = Inr smp_s2"
  by (simp_all add: scopeOf_def map_claim_def smp_claims smp_s0_def smp_s1_def smp_s2_def)

lemma smp_contained:
  "Contains smp_s0
     smp_s1 = Inr ()"
  "Contains smp_s1 smp_s2 = Inr ()"
  by (simp_all add: smp_s0_def smp_s1_def smp_s2_def smp_num_def float_rat_def valueContained.simps directionOf_def numericDirection_def)

lemma smp_temporal:
  "checkChainTokenTemporal smp_clk i smp_cat = Inr ()" "checkChainTokenTemporal smp_clk i smp_ct1 = Inr ()"
  "checkChainTokenTemporal smp_clk i smp_ct2 = Inr ()"
  by (simp_all add: checkChainTokenTemporal_def smp_claims has_key_def iatSkew_def)

lemma smp_plain:
  "checkSubbandMembership smp_codec smp_cat smp_s0 smp_ct1
     smp_s1 = Inr None"
  "checkSubbandMembership smp_codec smp_ct1 smp_s1 smp_ct2
     smp_s2 = Inr None"
  by (simp_all add: checkSubbandMembership_def Let_def DeclaresCumulativeBudget_def smp_claims has_key_def cumulativeDim_def smp_s0_def smp_s1_def smp_s2_def)

lemma smp_link:
  "wk_token w = ''h.c.s'' \<Longrightarrow> check_link smp_codec ''c1'' 0 w smp_ct1 = Inr ()"
  "wk_token w = ''h.k.s'' \<Longrightarrow> wk_claims w = smp_ct1 \<Longrightarrow> check_link smp_codec ''c1'' (Suc 0) w smp_ct2 = Inr ()"
  by (simp_all add: check_link_def smp_claims)

lemma smp_hop_rules:
  "check_anchor ''a'' smp_ct1" "check_anchor ''a'' smp_ct2" 
  "check_depth 2 smp_ct1 = Inr 1" "check_depth 1 smp_ct2 = Inr 0"
  "check_lifetime smp_cat smp_ct1 = Inr ()" "check_lifetime smp_ct1 smp_ct2 = Inr ()"
  "nbfAttenuates smp_cat smp_ct1 = Inr ()" "nbfAttenuates smp_ct1 smp_ct2 = Inr ()"
  by (simp_all add: check_anchor_def check_depth_def check_lifetime_def nbfAttenuates_def has_key_def smp_claims)

lemma smp_overlay: "overlayScope smp_s0 smp_s1 = smp_s1" "overlayScope smp_s1 smp_s2 = smp_s1"
  by (simp_all add: smp_s0_def smp_s1_def smp_s2_def smp_num_def put_def overlayScope.simps)

lemma smp_walk:
  "chain_walk smp_codec smp_engine smp_clk ''c1'' ''a'' 0 [''h.k.s'', ''h.l.s'']
     \<lparr>wk_claims = smp_cat, wk_token = ''h.c.s'', wk_budget = 2,
      wk_effective = smp_s0, wk_slice = None\<rparr> =
   Inr \<lparr>wk_claims = smp_ct2, wk_token = ''h.l.s'', wk_budget = 0,
      wk_effective = smp_s1, wk_slice = None\<rparr>"
  by (simp add: chain_hop_def smp_chain_token smp_scopes smp_contained smp_temporal smp_plain smp_link smp_hop_rules
      smp_status smp_overlay)

lemma smp_input_fields [simp]:
  "in_TxnToken (smp_input p) = ''h.t.s''" "in_DPoPProof (smp_input p) = [CHR ''h'', CHR ''.'', p, CHR ''.'', CHR ''s'']"
  "in_HTM (smp_input p) = ''POST''" "in_HTU (smp_input p) = ''u''" "in_CT (smp_input p) = []"
  "in_CTChain (smp_input p) = [''h.k.s'', ''h.l.s'']" "in_CAT (smp_input p) = ''h.c.s''"
  "in_Txn (smp_input p) = sample_txn" "in_Audience (smp_input p) = ''shop''" "in_ChainProof (smp_input p) = None"
  by (simp_all add: smp_input_def)

definition smp_leaf :: claims where
  "smp_leaf = put effectiveScopeClaim (GMap smp_s1) smp_ct2"

lemma map_claim_put_same [simp]: "map_claim (put k (GMap m) cl) k = Some m"
  by simp

lemma smp_leaf_claim: "k \<noteq> effectiveScopeClaim \<Longrightarrow> map_of smp_leaf k = map_of smp_ct2 k"
  by (simp add: smp_leaf_def)

lemma smp_bind: "bind_txn smp_codec ''a'' smp_tx smp_leaf = Inr ()"
  by (simp add: bind_txn_def iface_eq_def lookup_val_def checkHolderBinding_def smp_leaf_claim claimStr_def str_claim_def
      effectiveScopeClaim_def reservedClaimPrefix_def)
     (simp add: smp_tx_def smp_ct2_def check_anchor_def str_claim_def map_claim_def Thumbprint_def jwk_text_def smp_jwk_def smp_holder_def, blast)

lemma smp_root:
  "walk_root smp_codec smp_engine smp_clk ''h.c.s'' = Inr (''c1'', ''a'',
     \<lparr>wk_claims = smp_cat, wk_token = ''h.c.s'', wk_budget = 2, wk_effective = smp_s0, wk_slice = None\<rparr>)"
  by (simp add: walk_root_def smp_chain_token smp_temporal smp_status smp_scopes)
     (simp add: smp_claims)

lemma smp_step6: "step6Chain smp_codec smp_engine smp_clk smp_tx [] ''h.c.s'' [''h.k.s'', ''h.l.s''] = Inr smp_leaf"
  by (simp add: step6Chain_def chain_tokens_def smp_root smp_walk put_slice_def smp_leaf_def [symmetric] smp_bind
      del: chain_walk.simps)

lemma smp_get: "Get registry ''xrpl'' = Inr XRPL"
  by (simp add: registry_get_iff sample_adapters) (simp add: XRPL_def)

lemma smp_step8: "step8Context smp_codec smp_tx sample_txn = Inr ()"
proof -
  have t: "tc_Chain sample_txn = ''xrpl''" by (simp add: sample_txn_def)
  have "ad_canonicalize XRPL sample_txn \<noteq> Inr []"
    by (simp add: XRPL_def sample_txn_def xrpl_fields_def canonicalEncode_def extra_fields_def
      int_str_def nat_str.simps digit_char_eval reserved_simps US_def RS_def)
  then have pre: "ad_canonicalize XRPL sample_txn = Inr smp_pre" "smp_pre \<noteq> []"
    using sample_txn_canonical by (auto simp: is_ok_iff smp_pre_def) 
  show ?thesis
    using pre sample_txn_valid
    by (simp add: step8Context_def VerifyContextHash_def t smp_get ContextHash_def)
       (use pre(2) hex_encode_inj[of smp_pre "[]"] in \<open>simp add: smp_tx_def claimStr_def str_claim_def\<close>)
qed

lemma smp_step7: "step7Scope smp_leaf sample_txn = Inr ()"
proof -
  have a: "TxnScope smp_s1 sample_txn = Inr [(''max_amount'', GNum ''25.50''), (''currency'', GStr ''USD'')]"
    by (simp add: TxnScope_def project_ceiling_def has_key_def cumulativeDim_def sample_txn_def parse_amount_eval smp_s1_def)
  have b: "Contains smp_s1 [(''max_amount'', GNum ''25.50''), (''currency'', GStr ''USD'')] = Inr ()"
    by (simp add: Contains_Inr scope_eval smp_s1_def smp_num_def)
  show ?thesis by (simp add: step7Scope_def smp_leaf_def a b del: Contains.simps)
qed

lemma smp_admit: "admit smp_codec smp_engine smp_clk (smp_input p) = Inr smp_tx"
  by (simp add: admit_ok step1Signature_def smp_unverified smp_key ParseVerify_def smp_verify smp_status
      step4Revocation_def)
     (simp add: smp_tx_def claimStr_def str_claim_def check_type_def step2Expiry_def step3Audience_def float_claim_def
      smp_num_def float_to_int_def iatSkew_def has_key_def)

lemma smp_authorize: "authorize smp_codec smp_engine smp_clk smp_tx (smp_input p) = Inr smp_leaf"
proof -
  have "checkTxnLifetime smp_tx smp_leaf = Inr ()"
    by (simp add: checkTxnLifetime_def intClaim_def float_claim_def smp_leaf_claim effectiveScopeClaim_def reservedClaimPrefix_def)
       (simp add: smp_tx_def smp_ct2_def smp_num_def)
  then show ?thesis
    by (simp add: authorize_ok step6_def smp_step6 smp_step7 smp_step8)
qed

lemma smp_proof:
  "check_proof smp_codec smp_clk smp_tx ''h.t.s'' [CHR ''h'', CHR ''.'', p, CHR ''.'', CHR ''s''] ''POST'' ''u'' =
     Inr (proofRecord smp_jwk [p])" if "p \<noteq> CHR ''.''"
  using that
  by (simp add: check_proof_def ATH_def dpop_Verify_def check_dpop_header_def check_dpop_claims_def proofMaxAge_def
      DefaultMaxAge_def MaxFutureSkew_def normalizeHTU_def sat64_def time_Unix_def smp_holder_def
      CheckSenderConstraint_def smp_codec_def Thumbprint_def jwk_text_def)
     (simp add: smp_tx_def map_claim_def claimStr_def str_claim_def smp_jwk_def smp_holder_def)

lemma smp_use:
  "use_items role 100 smp_tx smp_leaf = 
     (case txn_key role ''t1'' of
        None \<Rightarrow> Inl (EMsg ''no consuming role given'')
      | Some k \<Rightarrow> Inr [\<lparr>cn_key = k, cn_ttl = ttlUntil 200 100, cn_wallExp = time_Unix 200\<rparr>])"
  by (simp add: use_items_def smp_leaf_claim leafSliceClaim_def effectiveScopeClaim_def reservedClaimPrefix_def)
     (simp add: smp_tx_def smp_ct2_def claimStr_def str_claim_def split: option.split)

definition smp_records :: "char \<Rightarrow> replayCache" where
  "smp_records p =
     [(proofRecord smp_jwk [p], \<lparr>re_mono = 7 + proofRecordTTL, re_wall = zero_instant\<rparr>),
      (txnRecord ''t1'', \<lparr>re_mono = 7 + ttlUntil 200 100, re_wall = time_Unix 200\<rparr>)]"

lemma smp_allowed:
  assumes "p \<noteq> CHR ''.''"
  shows "Verify smp_codec smp_engine smp_clk (smp_input p) = (Allow, smp_engine\<lparr>eg_replay := smp_records p\<rparr>)"
proof -
  have "eg_replay smp_engine = []" by (simp add: smp_engine_def newReplayCache_def)
  then have "step5DPoP smp_codec smp_engine smp_clk smp_tx ''h.t.s'' [CHR ''h'', CHR ''.'', p, CHR ''.'', CHR ''s''] ''POST'' ''u'' =
      (Inr (), smp_engine\<lparr>eg_replay := take 1 (smp_records p)\<rparr>)"
    by (simp add: step5DPoP_def smp_proof[OF assms] consume_def consumeAll_def prune_def refused_def record_use_def expiry_of_def
        proofRecord_def smp_clk_def smp_records_def)
  moreover have "consumeOnAllow (smp_engine\<lparr>eg_replay := take 1 (smp_records p)\<rparr>) smp_clk roleGate smp_tx smp_leaf =
      (Inr (), smp_engine\<lparr>eg_replay := smp_records p\<rparr>)"
    by (simp add: consumeOnAllow_def smp_use consume_def consumeAll_def prune_def refused_def record_use_def expiry_of_def
        record_defs smp_clk_def smp_records_def expired_def proofRecordTTL_def proofMaxAge_def DefaultMaxAge_def
        MaxFutureSkew_def second_def)
  ultimately show ?thesis
    by (simp add: Verify_def smp_admit smp_authorize)
qed

lemma smp_json: "codec_json smp_codec"
proof -
  have "json_scope smp_tx" "json_scope smp_cat" "json_scope smp_ct1" "json_scope smp_ct2"
    by (simp_all add: json_scope_def smp_tx_def smp_cat_def smp_ct1_def smp_ct2_def smp_num_def wf_map_Cons)
  then show ?thesis by (simp add: codec_json_def smp_codec_def)
qed

end
