(* ===== verification/EngineDecisions.thy ===== *)
theory EngineDecisions
  imports EngineSample
begin

text \<open>
  What an \<open>Allow\<close> of the engine means: the transaction is within every capability of the presented
  chain, the chain is valid hop by hop, the presenter holds the leaf's key, and the token and its
  slice are used once.
\<close>

section \<open>Properties of an allowed presentation\<close>

lemma smp_chain_claims:
  "chain_claims smp_codec smp_engine smp_clk ''h.c.s'' [''h.k.s'', ''h.l.s''] = Inr [smp_cat, smp_ct1, smp_ct2]"
  by (simp add: chain_claims_def smp_chain_token upt_rec)

text \<open>C2: The engine never allows a transaction above any ceiling of the chain it was presented with.
  When \<open>Verify\<close> allows a presentation with a chain in clear, then in every token of the chain, the root
  included, each money ceiling the token declares is a number, the transaction's exact amount is
  positive and at most that number, and a currency declared beside it is the transaction's currency.
  A hop that leaves a ceiling out does not lift it. The JSON decoder yields JSON values.\<close>

theorem allowed_amount_within_every_ceiling:
  assumes "codec_json c" and "Verify c e clk inp = (Allow, e2)" and "in_ChainProof inp = None"
    and "chain_tokens (in_CT inp) (in_CTChain inp) = Inr cts"
    and "chain_claims c e clk (in_CAT inp) cts = Inr cls"
    and "cl \<in> set cls" and "scopeOf cl = Inr s" and "d \<in> set money_dims" and "map_of s d = Some v"
  shows "\<exists>x y. ParseAmount (tc_Amount (in_Txn inp)) = Inr x \<and> 0 < x \<and> toRat v = Some y \<and> x \<le> y \<and>
    (\<forall>cv. map_of s ''currency'' = Some cv \<longrightarrow> cv = GStr (tc_Currency (in_Txn inp)))"
proof -
  obtain tx leaf where st: "step6Chain c e clk tx (in_CT inp) (in_CAT inp) (in_CTChain inp) = Inr leaf"
    "step7Scope leaf (in_Txn inp) = Inr ()"
    by (rule allowed_clear[OF assms(2,3)])
  show ?thesis by (rule chain_bounds_amount[OF assms(1) st assms(4-9)])
qed

theorem allowed_amount_within_every_ceiling_witness:
  "\<exists>x y. ParseAmount (tc_Amount sample_txn) = Inr x \<and> 0 < x \<and> toRat (smp_num 50) = Some y \<and> x \<le> y"
proof -
  have "\<exists>x y. ParseAmount (tc_Amount (in_Txn (smp_input CHR ''d''))) = Inr x \<and> 0 < x \<and> toRat (smp_num 50) = Some y \<and> x \<le> y \<and>
    (\<forall>cv. map_of smp_s1 ''currency'' = Some cv \<longrightarrow> cv = GStr (tc_Currency (in_Txn (smp_input CHR ''d''))))"
    by (rule allowed_amount_within_every_ceiling[OF smp_json smp_allowed, where cl = smp_ct1 and d = "''max_amount''" and cls = "[smp_cat, smp_ct1, smp_ct2]"])
       (use smp_chain_claims in \<open>simp_all add: chain_tokens_def smp_scopes smp_s1_def money_dims_def\<close>)
  then show ?thesis by auto
qed













section \<open>Runs of one enforcement point\<close>

text \<open>The calls an engine serves, each with its own readings of the clock.\<close>

datatype call = Gate clocks input | Settle clocks input

fun call_clocks :: "call \<Rightarrow> clocks" where
  "call_clocks (Gate clk inp) = clk"
| "call_clocks (Settle clk inp) = clk"

fun serve1 :: "(gval \<Rightarrow> string) \<Rightarrow> codec \<Rightarrow> engine \<Rightarrow> call \<Rightarrow> engine" where
  "serve1 fmt c e (Gate clk inp) = snd (Verify c e clk inp)"
| "serve1 fmt c e (Settle clk inp) = snd (snd (VerifyForSettlement fmt c e clk inp))"

definition serve :: "(gval \<Rightarrow> string) \<Rightarrow> codec \<Rightarrow> engine \<Rightarrow> call list \<Rightarrow> engine" where
  "serve fmt c e calls = foldl (serve1 fmt c) e calls"

text \<open>A record is live throughout a call when it has lapsed at neither use of the cache.\<close>

definition live_in :: "recordExpiry \<Rightarrow> clocks \<Rightarrow> bool" where
  "live_in r clk = (\<not> expired r (clk S5Record) \<and> \<not> expired r (clk UseRecord))"

lemma consume_keeps:
  assumes "map_of (eg_replay e) k = Some r" and "\<not> expired r t"
  shows "map_of (eg_replay (snd (consume e t items))) k = Some r"
  using assms by (simp add: consume_eq consumeAll_keeps)

lemma step5_keeps:
  assumes "map_of (eg_replay e) k = Some r" and "\<not> expired r (clk S5Record)"
  shows "map_of (eg_replay (snd (step5DPoP c e clk tx tok pr htm htu))) k = Some r"
  using assms consume_keeps by (auto simp: step5DPoP_def split_beta Let_def split: sum.split)

lemma consumeOnAllow_keeps:
  assumes "map_of (eg_replay e) k = Some r" and "\<not> expired r (clk UseRecord)"
  shows "map_of (eg_replay (snd (consumeOnAllow e clk role tx ct))) k = Some r"
  using assms consume_keeps by (auto simp: consumeOnAllow_def split_beta Let_def split: sum.split)

lemma serve1_keeps:
  assumes "map_of (eg_replay e) k = Some r" and "live_in r (call_clocks cl)"
  shows "map_of (eg_replay (serve1 fmt c e cl)) k = Some r"
  using assms step5_keeps consumeOnAllow_keeps
  by (cases cl)
     (auto simp: Verify_def VerifyForSettlement_def live_in_def split: sum.split prod.split;
      metis (no_types, lifting) prod.sel(2))+

lemma serve1_replay: "\<exists>x. serve1 fmt c e cl = e\<lparr>eg_replay := x\<rparr>"
proof -
  have refl: "\<exists>x. e = e\<lparr>eg_replay := x\<rparr>" by (rule exI[of _ "eg_replay e"]) simp
  have use: "\<exists>x. snd (consumeOnAllow e' clk role tx ct) = e'\<lparr>eg_replay := x\<rparr>" for e' clk role tx ct
    by (auto simp: consumeOnAllow_def consume_eq Let_def split: sum.split intro: exI[of _ "eg_replay e'"])
  show ?thesis
  proof (cases cl)
    case (Gate clk inp)
    obtain x where "snd (step5DPoP c e clk tx tok pr htm htu) = e\<lparr>eg_replay := x tx tok pr htm htu\<rparr>" for tx tok pr htm htu
      using step5_replay[of c e clk] by metis
    with refl use show ?thesis
      by (auto simp: Gate Verify_def split: sum.split prod.split) (metis engine.update_convs(2) snd_conv engine.surjective)+
  next
    case (Settle clk inp)
    with refl use show ?thesis
      by (auto simp: VerifyForSettlement_def split: sum.split prod.split) (metis snd_conv)+
  qed
qed

lemma serve_keeps:
  assumes "map_of (eg_replay e) k = Some r" and "\<forall>cl \<in> set calls. live_in r (call_clocks cl)"
  shows "map_of (eg_replay (serve fmt c e calls)) k = Some r"
  using assms unfolding serve_def
  by (induction calls arbitrary: e) (simp_all add: serve1_keeps)

text \<open>A successful use records each of its keys; a use of a key that is held is refused.\<close>

lemma use_items_ok:
  assumes "use_items role now tx ct = Inr items"
  obtains ex tk more where "claimStr tx ''jti'' \<noteq> []" and "intClaim tx ''exp'' = Some ex"
    and "txn_key role (claimStr tx ''jti'') = Some tk"
    and "items = \<lparr>cn_key = tk, cn_ttl = ttlUntil ex now, cn_wallExp = time_Unix ex\<rparr> # more"
    and "more = [] \<or> (\<exists>rt leg sx.
      more = [\<lparr>cn_key = slice_key role rt leg, cn_ttl = ttlUntil sx now, cn_wallExp = time_Unix sx\<rparr>])"
proof -
  have split: "(case x of Some (GSlice rt leg sx) \<Rightarrow> [it, f rt leg sx] | _ \<Rightarrow> [it]) =
      it # (case x of Some (GSlice rt leg sx) \<Rightarrow> [f rt leg sx] | _ \<Rightarrow> [])"
    and rest: "(case x of Some (GSlice rt leg sx) \<Rightarrow> [f rt leg sx] | _ \<Rightarrow> []) = [] \<or>
      (\<exists>rt leg sx. (case x of Some (GSlice rt leg sx) \<Rightarrow> [f rt leg sx] | _ \<Rightarrow> []) = [f rt leg sx])"
    for it :: consumption and x f by (auto split: option.split gval.split)
  from assms that rest show thesis by (auto simp: use_items_def Let_def split)
qed

lemma use_items_distinct: "use_items role now tx ct = Inr items \<Longrightarrow> distinct (map cn_key items)"
  by (erule use_items_ok, cases role) (auto simp: record_defs)

lemma consumeOnAllow_records:
  assumes "consumeOnAllow e clk role tx ct = (Inr (), e2)"
    and "use_items role (unix (wallc clk UseNow)) tx ct = Inr items" and "it \<in> set items"
  shows "map_of (eg_replay e2) (cn_key it) = Some (expiry_of (clk UseRecord) it)"
proof -
  have ok: "fst (consumeAll (clk UseRecord) (eg_replay e) items)"
    and e2: "e2 = e\<lparr>eg_replay := snd (consumeAll (clk UseRecord) (eg_replay e) items)\<rparr>"
    using assms(1,2) by (auto simp: consumeOnAllow_def consume_eq Let_def)
  from consumeAll_records[OF ok use_items_distinct[OF assms(2)] assms(3)] show ?thesis by (simp add: e2)
qed

lemma consumeOnAllow_refuses:
  assumes "map_of (eg_replay e) (cn_key it) = Some r" and "\<not> expired r (clk UseRecord)"
    and "use_items role (unix (wallc clk UseNow)) tx ct = Inr items" and "it \<in> set items"
  shows "fst (consumeOnAllow e clk role tx ct) \<noteq> Inr ()"
  using consumeAll_refuses[OF assms(1,2,4)] assms(3) by (simp add: consumeOnAllow_def consume_eq Let_def)

lemma Verify_use:
  assumes "Verify c e clk inp = (Allow, e2)"
  obtains tx ct items e1 where "admit c e clk inp = Inr tx" and "authorize c e clk tx inp = Inr ct"
    and "use_items roleGate (unix (wallc clk UseNow)) tx ct = Inr items"
    and "consumeOnAllow e1 clk roleGate tx ct = (Inr (), e2)"
    and "e1 = snd (step5DPoP c e clk tx (in_TxnToken inp) (in_DPoPProof inp) (in_HTM inp) (in_HTU inp))"
proof (rule Verify_Allow[OF assms])
  fix tx ct e1
  assume a: "admit c e clk inp = Inr tx" "authorize c e clk tx inp = Inr ct"
    "consumeOnAllow e1 clk roleGate tx ct = (Inr (), e2)"
    and s5: "step5DPoP c e clk tx (in_TxnToken inp) (in_DPoPProof inp) (in_HTM inp) (in_HTU inp) = (Inr (), e1)"
  obtain items where "use_items roleGate (unix (wallc clk UseNow)) tx ct = Inr items"
    using a(3) by (auto simp: consumeOnAllow_def split: sum.splits)
  from that[OF a(1,2) this a(3)] s5 show thesis by simp
qed

lemma held_key_not_allowed:
  assumes "map_of (eg_replay e) k = Some r" and "live_in r clk"
    and "admit c e clk inp = Inr tx" and "authorize c e clk tx inp = Inr ct"
    and "use_items roleGate (unix (wallc clk UseNow)) tx ct = Inr items" and "k \<in> cn_key ` set items"
  shows "fst (Verify c e clk inp) \<noteq> Allow"
proof
  assume "fst (Verify c e clk inp) = Allow"
  then obtain e2 where "Verify c e clk inp = (Allow, e2)" by (cases "Verify c e clk inp") simp
  then show False
  proof (rule Verify_use)
    fix tx' ct' items' e1
    assume u: "admit c e clk inp = Inr tx'" "authorize c e clk tx' inp = Inr ct'"
      "use_items roleGate (unix (wallc clk UseNow)) tx' ct' = Inr items'"
      "consumeOnAllow e1 clk roleGate tx' ct' = (Inr (), e2)"
      "e1 = snd (step5DPoP c e clk tx' (in_TxnToken inp) (in_DPoPProof inp) (in_HTM inp) (in_HTU inp))"
    have eq: "tx' = tx" "ct' = ct" "items' = items" using u(1-3) assms(3-5) by auto
    obtain it where it: "it \<in> set items" "k = cn_key it" using assms(6) by auto
    have "map_of (eg_replay e1) (cn_key it) = Some r"
      using step5_keeps[OF assms(1)] assms(2) it(2) u(5) by (simp add: live_in_def)
    from consumeOnAllow_refuses[OF this _ assms(5) it(1)] assms(2) u(4) show False by (simp add: live_in_def eq)
  qed
qed

lemma use_items_txn:
  assumes "use_items roleGate now tx ct = Inr items"
  shows "\<exists>ex. intClaim tx ''exp'' = Some ex \<and> claimStr tx ''jti'' \<noteq> [] \<and>
    \<lparr>cn_key = txnRecord (claimStr tx ''jti''), cn_ttl = ttlUntil ex now, cn_wallExp = time_Unix ex\<rparr> \<in> set items"
  using assms by (rule use_items_ok) auto

lemma use_items_slice:
  assumes "use_items roleGate now tx ct = Inr items" and "map_of ct leafSliceClaim = Some (GSlice rt leg sx)"
  shows "\<lparr>cn_key = sliceRecord rt leg, cn_ttl = ttlUntil sx now, cn_wallExp = time_Unix sx\<rparr> \<in> set items"
  using assms by (auto simp: use_items_def Let_def)

text \<open>C3: A transaction token is allowed once. After a gate has allowed a token, no presentation of a
  token with the same identifier is allowed again, whatever calls to the gate or the settler the
  engine serves in between, as long as at each use of the cache the record of the first use has not
  lapsed: the monotonic clock has not reached its lifetime or the wall clock is before the token's
  signed expiry.\<close>

theorem token_allowed_once:
  assumes "Verify c e clk inp = (Allow, e1)" and "unverifiedClaims c (in_TxnToken inp) = Inr tx"
    and "intClaim tx ''exp'' = Some ex"
    and "r = \<lparr>re_mono = mono (clk UseRecord) + ttlUntil ex (unix (wallc clk UseNow)), re_wall = time_Unix ex\<rparr>"
    and "\<forall>cl \<in> set calls. live_in r (call_clocks cl)" and "live_in r clk2"
    and "unverifiedClaims c (in_TxnToken inp2) = Inr tx2" and "claimStr tx2 ''jti'' = claimStr tx ''jti''"
  shows "fst (Verify c (serve fmt c e1 calls) clk2 inp2) \<noteq> Allow"
proof
  let ?e = "serve fmt c e1 calls"
  assume "fst (Verify c ?e clk2 inp2) = Allow"
  then obtain e2 where again: "Verify c ?e clk2 inp2 = (Allow, e2)" by (cases "Verify c ?e clk2 inp2") simp
  obtain tx' ct items e0 where u: "admit c e clk inp = Inr tx'"
    "use_items roleGate (unix (wallc clk UseNow)) tx' ct = Inr items" "consumeOnAllow e0 clk roleGate tx' ct = (Inr (), e1)"
    by (rule Verify_use[OF assms(1)])
  have "tx' = tx" using u(1) assms(2) by (auto simp: admit_ok dest: step1_ok(1))
  with use_items_txn[OF u(2)] assms(3) have
    it: "\<lparr>cn_key = txnRecord (claimStr tx ''jti''), cn_ttl = ttlUntil ex (unix (wallc clk UseNow)), cn_wallExp = time_Unix ex\<rparr> \<in> set items"
    by auto
  from consumeOnAllow_records[OF u(3,2) it]
  have "map_of (eg_replay e1) (txnRecord (claimStr tx ''jti'')) = Some r" by (simp add: expiry_of_def assms(4))
  from serve_keeps[OF this assms(5)] have held: "map_of (eg_replay ?e) (txnRecord (claimStr tx ''jti'')) = Some r" .
  obtain tx2' ct2 items2 where v: "admit c ?e clk2 inp2 = Inr tx2'" "authorize c ?e clk2 tx2' inp2 = Inr ct2"
    "use_items roleGate (unix (wallc clk2 UseNow)) tx2' ct2 = Inr items2"
    by (rule Verify_use[OF again])
  have "tx2' = tx2" using v(1) assms(7) by (auto simp: admit_ok dest: step1_ok(1))
  with use_items_txn[OF v(3)] assms(8) have "txnRecord (claimStr tx ''jti'') \<in> cn_key ` set items2" by force
  from held_key_not_allowed[OF held assms(6) v this] again show False by simp
qed

theorem token_allowed_once_witness:
  "fst (Verify smp_codec
     (serve (\<lambda>_. []) smp_codec (smp_engine\<lparr>eg_replay := smp_records CHR ''d''\<rparr>) [Settle smp_clk (smp_input CHR ''x'')])
     smp_clk (smp_input CHR ''e'')) \<noteq> Allow"
proof (rule token_allowed_once[OF smp_allowed])
  show "unverifiedClaims smp_codec (in_TxnToken (smp_input CHR ''d'')) = Inr smp_tx"
    "unverifiedClaims smp_codec (in_TxnToken (smp_input CHR ''e'')) = Inr smp_tx" by (simp_all add: smp_unverified)
  show "intClaim smp_tx ''exp'' = Some 200" by (simp add: smp_tx_def)
  show "\<forall>cl \<in> set [Settle smp_clk (smp_input CHR ''x'')].
      live_in \<lparr>re_mono = mono (smp_clk UseRecord) + ttlUntil 200 (unix (wallc smp_clk UseNow)), re_wall = time_Unix 200\<rparr> (call_clocks cl)"
    "live_in \<lparr>re_mono = mono (smp_clk UseRecord) + ttlUntil 200 (unix (wallc smp_clk UseNow)), re_wall = time_Unix 200\<rparr> smp_clk"
    by (simp_all add: live_in_def expired_def smp_clk_def ttlUntil_def second_def)
qed simp_all

section \<open>Denials and settlement\<close>

lemma prune_subset: "set (prune t rs) \<subseteq> set rs"
  by (auto simp: prune_def)

lemma consumeAll_refused_subset: "\<not> fst (consumeAll t rs items) \<Longrightarrow> set (snd (consumeAll t rs items)) \<subseteq> set rs"
  using consumeAll_refused_keeps_rest prune_subset by metis

lemma record_use_set: "set (record_use t it rs) \<subseteq> insert (cn_key it, expiry_of t it) (set rs)"
  unfolding record_use_def by (induction rs) auto

lemma record_uses_set: "set (fold (record_use t) items rs) \<subseteq> (\<lambda>it. (cn_key it, expiry_of t it)) ` set items \<union> set rs"
proof (induction items arbitrary: rs)
  case (Cons it items)
  show ?case using Cons.IH[of "record_use t it rs"] record_use_set[of t it rs] by auto
qed simp

lemma consumeAll_set: "set (snd (consumeAll t rs items)) \<subseteq> (\<lambda>it. (cn_key it, expiry_of t it)) ` set items \<union> set rs"
  using record_uses_set[of t items "prune t rs"] prune_subset[of t rs] by (auto simp: consumeAll_def Let_def)

lemma check_proof_kind: "check_proof c clk tx tok pr htm htu = Inr key \<Longrightarrow> rk_kind key = recordProof"
  by (auto simp: check_proof_def proofRecord_def)

lemma step5_set:
  assumes "(k, r) \<in> set (eg_replay (snd (step5DPoP c e clk tx tok pr htm htu)))" and "rk_kind k \<noteq> recordProof"
  shows "(k, r) \<in> set (eg_replay e)"
proof (cases "check_proof c clk tx tok pr htm htu")
  case (Inr key)
  with assms consumeAll_set[of "clk S5Record" "eg_replay e" "[\<lparr>cn_key = key, cn_ttl = proofRecordTTL, cn_wallExp = zero_instant\<rparr>]"]
    check_proof_kind[OF Inr]
  show ?thesis by (auto simp: step5DPoP_def consume_eq Let_def)
qed (use assms in \<open>simp add: step5DPoP_def\<close>)

lemma consumeOnAllow_denied_set:
  assumes "consumeOnAllow e clk role tx ct = (Inl er, e2)"
  shows "set (eg_replay e2) \<subseteq> set (eg_replay e)"
proof -
  have no: "need er' b = Inl er \<Longrightarrow> \<not> b" for er' b by (cases b) simp_all
  show ?thesis
    using assms consumeAll_refused_subset no
    by (fastforce simp: consumeOnAllow_def consume_eq Let_def split: sum.splits)
qed

fun call_decision :: "(gval \<Rightarrow> string) \<Rightarrow> codec \<Rightarrow> engine \<Rightarrow> call \<Rightarrow> decision" where
  "call_decision fmt c e (Gate clk inp) = fst (Verify c e clk inp)"
| "call_decision fmt c e (Settle clk inp) = fst (snd (VerifyForSettlement fmt c e clk inp))"

lemma gate_denied_set:
  assumes "fst (Verify c e clk inp) \<noteq> Allow" and "(k, r) \<in> set (eg_replay (snd (Verify c e clk inp)))"
    and "rk_kind k \<noteq> recordProof"
  shows "(k, r) \<in> set (eg_replay e)"
proof (cases "admit c e clk inp")
  case (Inr tx)
  obtain r5 e1 where s5: "step5DPoP c e clk tx (in_TxnToken inp) (in_DPoPProof inp) (in_HTM inp) (in_HTU inp) = (r5, e1)"
    by fastforce
  have e1: "(k, r) \<in> set (eg_replay e)" if "(k, r) \<in> set (eg_replay e1)"
    using step5_set[of k r c e clk tx "in_TxnToken inp" "in_DPoPProof inp" "in_HTM inp" "in_HTU inp"] s5 that assms(3) by simp
  show ?thesis
  proof (cases "\<exists>u ct. r5 = Inr u \<and> authorize c e1 clk tx inp = Inr ct")
    case True
    then obtain u ct where au: "r5 = Inr u" "authorize c e1 clk tx inp = Inr ct" by blast
    obtain ru e2 where cu: "consumeOnAllow e1 clk roleGate tx ct = (ru, e2)" by fastforce
    with assms(1) Inr s5 au obtain er where "ru = Inl er" by (cases ru) (auto simp: Verify_def)
    with consumeOnAllow_denied_set[of e1 clk roleGate tx ct er e2] assms(2) Inr s5 au cu e1
    show ?thesis by (auto simp: Verify_def)
  qed (use assms(2) Inr s5 e1 in \<open>cases r5; cases "authorize c e1 clk tx inp"; auto simp: Verify_def\<close>)
qed (use assms in \<open>simp add: Verify_def\<close>)

lemma settle_denied_set:
  assumes "fst (snd (VerifyForSettlement fmt c e clk inp)) \<noteq> Allow"
  shows "set (eg_replay (snd (snd (VerifyForSettlement fmt c e clk inp)))) \<subseteq> set (eg_replay e)"
proof (cases "\<exists>tx ct. admit c e clk inp = Inr tx \<and> authorize c e clk tx inp = Inr ct")
  case True
  then obtain tx ct where au: "admit c e clk inp = Inr tx" "authorize c e clk tx inp = Inr ct" by blast
  obtain ru e2 where cu: "consumeOnAllow e clk roleSettle tx ct = (ru, e2)" by fastforce
  with assms au obtain er where "ru = Inl er" by (cases ru) (auto simp: VerifyForSettlement_def)
  with consumeOnAllow_denied_set[of e clk roleSettle tx ct er e2] au cu show ?thesis by (simp add: VerifyForSettlement_def)
qed (auto simp: VerifyForSettlement_def split: sum.split)

text \<open>C22: A denial uses nothing up. Whatever step denies a presentation, at the gate or at settlement, no
  transaction token and no slice is recorded as used: every record afterwards that is not the record
  of a proof of possession was there before. The denied token can be presented again.\<close>

theorem denial_uses_nothing:
  assumes "call_decision fmt c e cl \<noteq> Allow" and "(k, r) \<in> set (eg_replay (serve1 fmt c e cl))"
    and "rk_kind k \<noteq> recordProof"
  shows "(k, r) \<in> set (eg_replay e)"
  using assms gate_denied_set settle_denied_set by (cases cl) fastforce+

theorem denial_uses_nothing_witness:
  "(txnRecord ''t1'', \<lparr>re_mono = 7 + ttlUntil 200 100, re_wall = time_Unix 200\<rparr>) \<in>
     set (eg_replay (smp_engine\<lparr>eg_replay := smp_records CHR ''d''\<rparr>))"
proof (rule denial_uses_nothing[where cl = "Gate smp_clk ((smp_input CHR ''d'')\<lparr>in_TxnToken := []\<rparr>)" and fmt = "\<lambda>_. []" and c = smp_codec])
  have "Verify smp_codec (smp_engine\<lparr>eg_replay := smp_records CHR ''d''\<rparr>) smp_clk ((smp_input CHR ''d'')\<lparr>in_TxnToken := []\<rparr>) =
      (Deny 1 (EMsg ''malformed token''), smp_engine\<lparr>eg_replay := smp_records CHR ''d''\<rparr>)"
    by (simp add: Verify_def admit_def at_step_def step1Signature_def unverifiedClaims_def wrap_err_def deny_def)
  then show "call_decision (\<lambda>_. []) smp_codec (smp_engine\<lparr>eg_replay := smp_records CHR ''d''\<rparr>)
      (Gate smp_clk ((smp_input CHR ''d'')\<lparr>in_TxnToken := []\<rparr>)) \<noteq> Allow"
    "(txnRecord ''t1'', \<lparr>re_mono = 7 + ttlUntil 200 100, re_wall = time_Unix 200\<rparr>) \<in>
      set (eg_replay (serve1 (\<lambda>_. []) smp_codec (smp_engine\<lparr>eg_replay := smp_records CHR ''d''\<rparr>)
        (Gate smp_clk ((smp_input CHR ''d'')\<lparr>in_TxnToken := []\<rparr>))))"
    by (simp_all add: smp_records_def)
qed (simp add: txnRecord_def)

text \<open>The gate's records never stand in the way of a settlement.\<close>

definition settle_kind :: "recordKey \<Rightarrow> bool" where
  "settle_kind k = (rk_kind k = recordSettleTxn \<or> rk_kind k = recordSettleSlice)"

definition no_settle_records :: "engine \<Rightarrow> bool" where
  "no_settle_records e = list_all (\<lambda>(k, r). \<not> settle_kind k) (eg_replay e)"

lemma gate_set:
  assumes "(k, r) \<in> set (eg_replay (snd (Verify c e clk inp)))" and "settle_kind k"
  shows "(k, r) \<in> set (eg_replay e)"
proof (cases "fst (Verify c e clk inp)")
  case (Deny n er)
  then show ?thesis by (intro gate_denied_set[of c e clk inp]) (use assms in \<open>auto simp: settle_kind_def\<close>)
next
  case Allow
  then obtain e2 where a: "Verify c e clk inp = (Allow, e2)" by (cases "Verify c e clk inp") simp
  obtain tx ct items e1 where u: "use_items roleGate (unix (wallc clk UseNow)) tx ct = Inr items"
    "consumeOnAllow e1 clk roleGate tx ct = (Inr (), e2)"
    "e1 = snd (step5DPoP c e clk tx (in_TxnToken inp) (in_DPoPProof inp) (in_HTM inp) (in_HTU inp))"
    by (rule Verify_use[OF a])
  have "eg_replay e2 = snd (consumeAll (clk UseRecord) (eg_replay e1) items)"
    using u(1,2) by (auto simp: consumeOnAllow_def consume_eq Let_def)
  moreover have "\<forall>it \<in> set items. \<not> settle_kind (cn_key it)"
    using u(1) by (auto elim!: use_items_ok simp: settle_kind_def record_defs)
  ultimately have "(k, r) \<in> set (eg_replay e1)"
    using assms a consumeAll_set[of "clk UseRecord" "eg_replay e1" items] by auto
  with step5_set[of k r c e clk tx] assms(2) u(3) show ?thesis by (auto simp: settle_kind_def)
qed

lemma gates_no_settle:
  assumes "no_settle_records e" and "\<forall>cl \<in> set calls. \<exists>clk inp. cl = Gate clk inp"
  shows "no_settle_records (serve fmt c e calls) \<and> (\<exists>x. serve fmt c e calls = e\<lparr>eg_replay := x\<rparr>)"
  using assms
proof (induction calls arbitrary: e)
  case Nil
  then show ?case by (auto simp: serve_def intro!: exI[of _ "eg_replay e"])
next
  case (Cons cl calls)
  obtain clk inp where cl: "cl = Gate clk inp" using Cons.prems(2) by auto
  have "no_settle_records (serve1 fmt c e cl)"
    using Cons.prems(1) gate_set[of _ _ c e clk inp] by (fastforce simp: cl no_settle_records_def list_all_iff)
  with Cons.IH[of "serve1 fmt c e cl"] Cons.prems(2) have
    "no_settle_records (serve fmt c (serve1 fmt c e cl) calls) \<and> (\<exists>x. serve fmt c (serve1 fmt c e cl) calls = (serve1 fmt c e cl)\<lparr>eg_replay := x\<rparr>)"
    by simp
  then show ?case using serve1_replay[of fmt c e cl] by (auto simp: serve_def)
qed

lemma settle_use_ignores:
  assumes "no_settle_records e" and "use_items roleSettle now tx ct = Inr items"
  shows "fst (consumeAll t (eg_replay e) items)"
proof -
  have "map_of (prune t (eg_replay e)) k = None" if "settle_kind k" for k
    using that assms(1) by (fastforce simp: no_settle_records_def list_all_iff map_of_eq_None_iff prune_def)
  moreover have "\<forall>it \<in> set items. settle_kind (cn_key it) \<and> rk_kind (cn_key it) \<noteq> recordNone"
    using assms(2) by (auto elim!: use_items_ok simp: settle_kind_def record_defs)
  ultimately show ?thesis by (auto simp: consumeAll_ok list_ex_iff refused_def)
qed

lemma settlement_outcome:
  assumes "no_settle_records e"
  shows "(fst (VerifyForSettlement fmt c e clk inp), fst (snd (VerifyForSettlement fmt c e clk inp))) =
    (case admit c e clk inp of
       Inl ne \<Rightarrow> (no_facts, deny ne)
     | Inr tx \<Rightarrow>
         (case authorize c e clk tx inp of
            Inl ne \<Rightarrow> (no_facts, deny ne)
          | Inr ct \<Rightarrow>
              (case use_items roleSettle (unix (wallc clk UseNow)) tx ct of
                 Inl er \<Rightarrow> (no_facts, Deny 8 er)
               | Inr _ \<Rightarrow> (extract_facts fmt tx ct, Allow))))"
  using settle_use_ignores[OF assms]
  by (auto simp: VerifyForSettlement_def consumeOnAllow_def consume_eq Let_def split: sum.split)

text \<open>Gating a payment does not block its settlement on the same engine. After any gate calls on an
  engine that has settled nothing, a settlement returns the same decision and the same facts as on
  the engine before those calls: the gate's records are of other kinds, and pruning removes none that
  a settlement looks at.\<close>

theorem gating_leaves_settlement:
  assumes "no_settle_records e" and "\<forall>cl \<in> set calls. \<exists>gclk ginp. cl = Gate gclk ginp"
  shows "fst (VerifyForSettlement fmt c (serve fmt c e calls) clk inp) = fst (VerifyForSettlement fmt c e clk inp) \<and>
    fst (snd (VerifyForSettlement fmt c (serve fmt c e calls) clk inp)) = fst (snd (VerifyForSettlement fmt c e clk inp))"
proof -
  obtain x where x: "serve fmt c e calls = e\<lparr>eg_replay := x\<rparr>" and n: "no_settle_records (serve fmt c e calls)"
    using gates_no_settle[OF assms] by blast
  have same: "admit c (serve fmt c e calls) = admit c e" "authorize c (serve fmt c e calls) = authorize c e"
    by (simp_all add: x)
  from settlement_outcome[OF n, of fmt c clk inp, unfolded same] settlement_outcome[OF assms(1), of fmt c clk inp]
  show ?thesis by (metis prod.inject)
qed

theorem gating_leaves_settlement_witness:
  "fst (snd (VerifyForSettlement (\<lambda>_. []) smp_codec
     (serve (\<lambda>_. []) smp_codec smp_engine [Gate smp_clk (smp_input CHR ''d'')]) smp_clk (smp_input CHR ''e''))) = Allow"
proof -
  have n: "no_settle_records smp_engine" by (simp add: no_settle_records_def smp_engine_def newReplayCache_def)
  have "fst (snd (VerifyForSettlement (\<lambda>_. []) smp_codec smp_engine smp_clk (smp_input CHR ''e''))) = Allow"
    using settlement_outcome[OF n, of "\<lambda>_. []" smp_codec smp_clk "smp_input CHR ''e''"]
    by (simp add: smp_admit smp_authorize smp_use)
  with gating_leaves_settlement[OF n, of "[Gate smp_clk (smp_input CHR ''d'')]" "\<lambda>_. []" smp_codec smp_clk "smp_input CHR ''e''"]
  show ?thesis by simp
qed

end
