(* ===== verification/SliceBinding.thy ===== *)
theory SliceBinding
  imports SubbandCommit
begin

text \<open>
  Soundness of the membership check for any group size and any parent commitment
  (src/internal/tbac/subband_commit.go): a slice that verifies against the root of a committed division
  is the committed slice at its position. The hash is asked to be injective only on the inputs that
  the division and the check hash.
\<close>

section \<open>Any verified slice is a committed one\<close>

lemma level_pairs_members: "(l, r) \<in> level_pairs xs \<Longrightarrow> l \<in> set xs \<and> r \<in> set xs"
  by (induction xs rule: level_pairs.induct) auto

lemma next_level_members: "set (next_level node xs) \<subseteq> set xs \<union> (\<lambda>(l, r). node l r) ` level_pairs xs"
  by (induction node xs rule: next_level.induct) auto

definition tree_nodes :: "('h \<Rightarrow> 'h \<Rightarrow> 'h) \<Rightarrow> 'h list \<Rightarrow> 'h set" where
  "tree_nodes node xs = set xs \<union> (\<lambda>(l, r). node l r) ` tree_pairs node xs"

lemma tree_nodes_next:
  assumes "\<not> length xs \<le> 1"
  shows "tree_nodes node (next_level node xs) \<subseteq> tree_nodes node xs"
  using next_level_members[of node xs] assms
  by (auto simp: tree_nodes_def tree_pairs.simps[of node xs])

lemma tree_pairs_members: "(l, r) \<in> tree_pairs node xs \<Longrightarrow> l \<in> tree_nodes node xs \<and> r \<in> tree_nodes node xs"
proof (induction node xs rule: tree_pairs.induct)
  case (1 node xs)
  show ?case
  proof (cases "length xs \<le> 1")
    case True
    with 1(2) show ?thesis by (simp add: tree_pairs.simps)
  next
    case False
    then have "(l, r) \<in> level_pairs xs \<or> (l, r) \<in> tree_pairs node (next_level node xs)"
      using 1(2) by (simp add: tree_pairs.simps[of node xs])
    with 1(1)[OF False] tree_nodes_next[OF False, of node] level_pairs_members[of l r xs]
    show ?thesis by (auto simp: tree_nodes_def)
  qed
qed

lemma tree_root_member: "xs \<noteq> [] \<Longrightarrow> tree_root node xs \<in> tree_nodes node xs"
proof (induction node xs rule: tree_root.induct)
  case (1 node xs)
  show ?case
  proof (cases "length xs \<le> 1")
    case True
    with 1(2) show ?thesis by (cases xs) (simp_all add: tree_root.simps tree_nodes_def)
  next
    case False
    with 1 tree_nodes_next[OF False, of node] show ?thesis by (auto simp: tree_root.simps[of node xs])
  qed
qed

text \<open>The inputs hashed by the membership walk, whatever group size it is given.\<close>

definition node_preimage :: "bytes \<Rightarrow> bytes \<Rightarrow> bytes" where
  "node_preimage l r = CHR 0x01 # l @ r"

function walk_inputs :: "(bytes \<Rightarrow> bytes) \<Rightarrow> bytes \<Rightarrow> 32 word \<Rightarrow> 32 word \<Rightarrow> bytes list \<Rightarrow> bytes set" where
  "walk_inputs sha3 h pos levelLen path =
     (if levelLen > 1 then
        if pos XOR 1 < levelLen then
          (case path of
             [] \<Rightarrow> {}
           | p # ps \<Rightarrow>
               (let pre = (if pos mod 2 = 0 then node_preimage h p else node_preimage p h) in
                insert pre (walk_inputs sha3 (sha3 pre) (pos div 2) ((levelLen + 1) div 2) ps)))
        else walk_inputs sha3 h (pos div 2) ((levelLen + 1) div 2) path
      else {})"
  by pat_completeness auto
termination
  by (relation "measure (\<lambda>(h, d, p, l, q). unat l)") (auto intro: half_size_less)

declare walk_inputs.simps [simp del]

definition closed_under_nodes :: "(bytes \<Rightarrow> bytes) \<Rightarrow> bytes set \<Rightarrow> bytes set \<Rightarrow> bool" where
  "closed_under_nodes sha3 H N =
     (\<forall>l r. length l = 32 \<longrightarrow> length r = 32 \<longrightarrow> node_preimage l r \<in> H \<longrightarrow> sha3 (node_preimage l r) \<in> N \<longrightarrow> l \<in> N \<and> r \<in> N)"

lemma suite_node_preimage: "suite_node sha3 SuiteSHA3_256 l r = Inr (sha3 (node_preimage l r))"
  by (simp add: sb_node_def node_preimage_def)

lemma membership_walk_descends:
  "membership_walk sha3 s h pos n path = Inr (rt, rest) \<Longrightarrow> s = SuiteSHA3_256 \<Longrightarrow> \<forall>d. length (sha3 d) = 32 \<Longrightarrow>
   closed_under_nodes sha3 H N \<Longrightarrow> length h = 32 \<Longrightarrow> \<forall>p \<in> set path. length p = 32 \<Longrightarrow>
   walk_inputs sha3 h pos n path \<subseteq> H \<Longrightarrow> rt \<in> N \<Longrightarrow> h \<in> N"
proof (induction sha3 s h pos n path rule: membership_walk.induct)
  case (1 sha3 s h pos n path)
  consider (stop) "\<not> 1 < n" | (skip) "1 < n" "\<not> pos XOR 1 < n" | (pair) "1 < n" "pos XOR 1 < n" by blast
  then show ?case
  proof cases
    case stop
    with 1(3,10) show ?thesis by (simp add: membership_walk.simps[of _ _ _ _ n])
  next
    case skip
    show ?thesis
      by (rule 1(2)[OF skip]) (use 1(3-10) skip in \<open>simp_all add: membership_walk.simps[of _ _ _ _ n] walk_inputs.simps[of _ _ _ n]\<close>)
  next
    case pair
    with 1(3) obtain p ps where path: "path = p # ps"
      by (cases path) (simp_all add: membership_walk.simps[of _ _ _ _ n])
    let ?pre = "if pos mod 2 = 0 then node_preimage h p else node_preimage p h"
    have node: "(if pos mod 2 = 0 then suite_node sha3 s h p else suite_node sha3 s p h) = Inr (sha3 ?pre)"
      using 1(4) suite_node_preimage by simp
    have inp: "?pre \<in> H" "walk_inputs sha3 (sha3 ?pre) (pos div 2) ((n + 1) div 2) ps \<subseteq> H"
      using 1(9) pair by (auto simp: path walk_inputs.simps[of _ _ _ n] Let_def)
    have walk: "membership_walk sha3 s (sha3 ?pre) (pos div 2) ((n + 1) div 2) ps = Inr (rt, rest)"
      using 1(3) pair by (subst (asm) membership_walk.simps) (simp only: path if_True list.case node sum.case)
    have "sha3 ?pre \<in> N"
      by (rule 1(1)[OF pair path node walk 1(4-6)]) (use 1(5,8,10) inp(2) in \<open>auto simp: path\<close>)
    with 1(6-8) inp(1) path show ?thesis by (auto simp: closed_under_nodes_def split: if_splits)
  qed
qed


text \<open>The inputs hashed by a committed division, and by the check of one slice against it.\<close>

definition division_inputs :: "(bytes \<Rightarrow> bytes) \<Rightarrow> bytes \<Rightarrow> band list \<Rightarrow> bytes list \<Rightarrow> bytes set" where
  "division_inputs sha3 pc bands leaves =
     (\<lambda>i. band_leaf_preimage pc (bands ! i) (of_nat i) (of_nat (length bands))) ` {..<length bands} \<union>
     (\<lambda>(l, r). node_preimage l r) ` tree_pairs (sb_node sha3) leaves"

definition slice_inputs :: "(bytes \<Rightarrow> bytes) \<Rightarrow> bytes \<Rightarrow> band \<Rightarrow> 32 word \<Rightarrow> 32 word \<Rightarrow> bytes list \<Rightarrow> bytes set" where
  "slice_inputs sha3 pc b leg n path =
     insert (band_leaf_preimage pc b leg n) (walk_inputs sha3 (sha3 (band_leaf_preimage pc b leg n)) leg n path)"

lemma leaf_hash:
  "SubbandLeaf sha3 suite pc b i n = Inr leaf \<Longrightarrow> suite = SuiteSHA3_256 \<and> leaf = sha3 (band_leaf_preimage pc b i n)"
  by (auto simp: SubbandLeaf_ok band_leaf_preimage_def)

lemma preimage_tags: "node_preimage l r \<noteq> band_leaf_preimage pc b i n"
  by (simp add: node_preimage_def band_leaf_preimage_def leaf_preimage_def)

lemma node_preimage_inj: "length l = length l' \<Longrightarrow> node_preimage l r = node_preimage l' r' \<longleftrightarrow> l = l' \<and> r = r'"
  by (simp add: node_preimage_def)

lemma tree_pair_lengths:
  assumes "\<forall>d. length (sha3 d) = (32 :: nat)" and "\<forall>x \<in> set leaves. length x = 32" and "(l, r) \<in> tree_pairs (sb_node sha3) leaves"
  shows "length l = 32 \<and> length r = 32"
proof -
  have "length x = 32" if "x \<in> tree_nodes (sb_node sha3) leaves" for x
    using that assms(1,2) by (auto simp: tree_nodes_def sb_node_def)
  with tree_pairs_members[OF assms(3)] show ?thesis by blast
qed

lemma any_verified_slice_is_committed:
  assumes "CommitBandDivision sha3 suite parent pnbf pexp bands = Inr (rt, leaves, paths)"
    and "length bands < 2 ^ 32" and "SubbandParentCommit sha3 suite parent = Inr pc0"
    and "SubbandLeaf sha3 s pc b leg n = Inr leaf" and "SubbandVerifyMembership sha3 s leaf leg n path rt = Inr ()"
    and "band_typed b" and "\<forall>x \<in> set bands. band_typed x"
    and "\<forall>d. length (sha3 d) = 32" and "length pc = 32" and "\<forall>p \<in> set path. length p = 32"
    and "inj_on sha3 (division_inputs sha3 pc0 bands leaves \<union> slice_inputs sha3 pc b leg n path)"
  shows "unat leg < length bands \<and>
    toRat (lookup_val (bd_Scope b) cumulativeDim) = toRat (lookup_val (bd_Scope (bands ! unat leg)) cumulativeDim) \<and>
    as_string (lookup_val (bd_Scope b) ''currency'') =
      as_string (lookup_val (bd_Scope (bands ! unat leg)) ''currency'')"
proof -
  let ?H = "division_inputs sha3 pc0 bands leaves \<union> slice_inputs sha3 pc b leg n path"
    and ?N = "tree_nodes (sb_node sha3) leaves" and ?pre = "\<lambda>i. band_leaf_preimage pc0 (bands ! i) (of_nat i) (of_nat (length bands))"
  from assms(1) obtain pc' alloc where c: "suite = SuiteSHA3_256" "SubbandParentCommit sha3 suite parent = Inr pc'"
    "length leaves = length bands" "bands \<noteq> []"
    "\<forall>i < length bands. SubbandLeaf sha3 suite pc' (bands ! i) (of_nat i) (of_nat (length bands)) = Inr (leaves ! i)"
    "SubbandGroupRoot sha3 SuiteSHA3_256 leaves = Inr rt"
    by (rule CommitBandDivision_ok)
  then have pc': "pc' = pc0" using assms(3) by simp
  have lv: "leaves ! i = sha3 (?pre i)" if "i < length bands" for i using c(5) leaf_hash that pc' by blast
  have in_leaves: "x \<in> set leaves \<Longrightarrow> \<exists>i < length bands. x = sha3 (?pre i)" for x
    using c(3) lv by (auto simp: in_set_conv_nth)
  have hashes: "?pre i \<in> ?H" if "i < length bands" for i using that by (auto simp: division_inputs_def)
  have len: "\<forall>x \<in> set leaves. length x = 32" using in_leaves assms(8) by auto
  have closed: "closed_under_nodes sha3 ?H ?N"
    unfolding closed_under_nodes_def
  proof (intro allI impI)
    fix l r assume l: "length l = 32" "length r = 32" "node_preimage l r \<in> ?H" "sha3 (node_preimage l r) \<in> ?N"
    then consider "sha3 (node_preimage l r) \<in> set leaves"
      | l' r' where "(l', r') \<in> tree_pairs (sb_node sha3) leaves" "sha3 (node_preimage l r) = sha3 (node_preimage l' r')"
      by (auto simp: tree_nodes_def sb_node_def node_preimage_def)
    then show "l \<in> ?N \<and> r \<in> ?N"
    proof cases
      case 1
      from in_leaves[OF this] hashes l(3) inj_onD[OF assms(11)] preimage_tags show ?thesis by metis
    next
      case 2
      have "node_preimage l' r' \<in> ?H" using 2(1) by (force simp: division_inputs_def)
      with inj_onD[OF assms(11) 2(2) l(3)] have "node_preimage l r = node_preimage l' r'" by simp
      with node_preimage_inj[of l l' r r'] tree_pair_lengths[OF assms(8) len 2(1)] l(1) have "l = l'" "r = r'" by auto
      with tree_pairs_members[OF 2(1)] show ?thesis by simp
    qed
  qed
  note leaf = leaf_hash[OF assms(4)]
  have rt: "rt \<in> ?N" using c(3,4,6) tree_root_member[of leaves "sb_node sha3"] SubbandGroupRoot_known[of leaves sha3] by force
  have walk: "membership_walk sha3 s leaf leg n path = Inr (rt, [])"
    using assms(5) by (auto simp: SubbandVerifyMembership_def split: if_splits sum.splits)
  have "leaf \<in> ?N"
    by (rule membership_walk_descends[OF walk _ assms(8) closed _ assms(10) _ rt])
       (use leaf assms(8) in \<open>auto simp: slice_inputs_def\<close>)
  moreover have own: "band_leaf_preimage pc b leg n \<in> ?H" by (simp add: slice_inputs_def)
  have "leaf \<notin> (\<lambda>(l, r). sb_node sha3 l r) ` tree_pairs (sb_node sha3) leaves"
  proof
    assume "leaf \<in> (\<lambda>(l, r). sb_node sha3 l r) ` tree_pairs (sb_node sha3) leaves"
    then obtain l r where lr: "(l, r) \<in> tree_pairs (sb_node sha3) leaves" "leaf = sha3 (node_preimage l r)"
      by (auto simp: sb_node_def node_preimage_def)
    then have "node_preimage l r \<in> ?H" by (force simp: division_inputs_def)
    with inj_onD[OF assms(11) _ this own] lr(2) leaf preimage_tags show False by metis
  qed
  ultimately obtain i where i: "i < length bands" "leaf = sha3 (?pre i)" using in_leaves by (auto simp: tree_nodes_def)
  from inj_onD[OF assms(11) _ own hashes[OF i(1)]] leaf i(2)
  have eq: "band_leaf_preimage pc b leg n = ?pre i" by simp
  obtain r r' where r: "toRat (lookup_val (bd_Scope b) cumulativeDim) = Some r"
    "toRat (lookup_val (bd_Scope (bands ! i)) cumulativeDim) = Some r'"
    using assms(4) c(5) i(1) by (auto simp: SubbandLeaf_ok)
  have typed: "band_typed (bands ! i)" using assms(7) i(1) by simp
  have "length pc0 = 32" using assms(3,8) by (auto simp: SubbandParentCommit_def suite_sum_ok split: sum.splits)
  with leaf_preimage_inj[OF eq[unfolded band_leaf_preimage_def]] assms(6,9) typed r
  have "leg = of_nat i" "rat_string r = rat_string r'"
    "as_string (lookup_val (bd_Scope b) ''currency'') = as_string (lookup_val (bd_Scope (bands ! i)) ''currency'')"
    by (auto simp: band_typed_def)
  with r rat_string_inj i(1) assms(2) show ?thesis by (auto simp: unat_small)
qed

end
