(* ===== verification/Budget.thy ===== *)
theory Budget
  imports EngineDecisions SliceBinding
begin

text \<open>
  The cumulative budget across components: the division that the issuer commits
  (src/internal/tbac/subband_commit.go), the membership that step 6 checks for the leaf
  (src/internal/verifier/engine.go, \<open>checkSubbandMembership\<close>), and the records that make a slice
  single-use, over any run of one enforcement point.
\<close>


section \<open>The slice of a presentation\<close>

text \<open>What the membership check of the last hop hashes: the parent's commitment, the band, the position,
  the group size and the path that the presented claims declare.\<close>

definition slice_args :: "codec \<Rightarrow> claims \<Rightarrow> claims \<Rightarrow> (bytes \<times> band \<times> 32 word \<times> 32 word \<times> bytes list) option" where
  "slice_args c pcl ccl =
     (case (scopeOf pcl, scopeOf ccl) of
        (Inr ps, Inr cs) \<Rightarrow>
          (case (SubbandParentCommit (jc_sha3 c) (claimStr ccl ''subband_hash_suite'') ps,
                 intClaim ccl ''subband_group_size'', intClaim ccl ''subband_leg_index'', raw_path ccl, intClaim ccl ''exp'') of
             (Inr pc, Some n, Some leg, Some raw, Some ex) \<Rightarrow>
               (case parse_path raw of
                  Inr path \<Rightarrow>
                    Some (pc, \<lparr>bd_Scope = cs, bd_NotBefore = (case intClaim ccl ''nbf'' of None \<Rightarrow> 0 | Some b \<Rightarrow> b), bd_Expiry = ex\<rparr>,
                      word_of_int leg, word_of_int n, path)
                | _ \<Rightarrow> None)
           | _ \<Rightarrow> None)
      | _ \<Rightarrow> None)"

lemma parse_path_lengths: "parse_path raw = Inr path \<Longrightarrow> \<forall>p \<in> set path. length p = 32"
  by (auto simp: parse_path_def map_err_Inr list_all2_conv_all_nth in_set_conv_nth)

lemma membership_slice:
  assumes "checkSubbandMembership c pcl ps ccl cs = Inr (Some sl)"
    and "scopeOf pcl = Inr ps" and "scopeOf ccl = Inr cs"
  shows "\<exists>pc b n path leaf rt. slice_args c pcl ccl = Some (pc, b, word_of_int (si_legIndex sl), n, path) \<and>
    bd_Scope b = cs \<and> has_key cs cumulativeDim \<and> 0 \<le> si_legIndex sl \<and> si_legIndex sl < 2 ^ 32 \<and>
    hex_decode (si_root sl) = Some rt \<and> (\<forall>p \<in> set path. length p = 32) \<and>
    SubbandParentCommit (jc_sha3 c) (claimStr ccl ''subband_hash_suite'') ps = Inr pc \<and>
    SubbandLeaf (jc_sha3 c) (claimStr ccl ''subband_hash_suite'') pc b (word_of_int (si_legIndex sl)) n = Inr leaf \<and>
    SubbandVerifyMembership (jc_sha3 c) (claimStr ccl ''subband_hash_suite'') leaf (word_of_int (si_legIndex sl)) n path rt = Inr ()"
  using assms parse_path_lengths
  by (auto simp: checkSubbandMembership_def Let_def slice_args_def DeclaresCumulativeBudget_def split: if_splits)

lemma chain_walk_snoc:
  "chain_walk c e clk j a i (ts @ [t]) w = Inr w1 \<longleftrightarrow>
     (\<exists>w2. chain_walk c e clk j a i ts w = Inr w2 \<and> chain_hop c e clk j a (i + length ts) t w2 = Inr w1)"
  by (induction ts arbitrary: i w) auto

text \<open>The leaf slice of an authorized presentation is the one its last hop proved.\<close>

definition presented_slice ::
  "codec \<Rightarrow> engine \<Rightarrow> clocks \<Rightarrow> input \<Rightarrow> (bytes \<times> band \<times> 32 word \<times> 32 word \<times> bytes list) option" where
  "presented_slice c e clk inp =
     (case chain_tokens (in_CT inp) (in_CTChain inp) of
        Inl _ \<Rightarrow> None
      | Inr cts \<Rightarrow>
          (case chain_claims c e clk (in_CAT inp) cts of
             Inl _ \<Rightarrow> None
           | Inr cls \<Rightarrow> slice_args c (cls ! (length cls - 2)) (last cls)))"

lemma chain_claims_replay [simp]: "chain_claims c (e\<lparr>eg_replay := r\<rparr>) = chain_claims c e"
  by (simp add: chain_claims_def fun_eq_iff)

lemma presented_slice_replay [simp]: "presented_slice c (e\<lparr>eg_replay := r\<rparr>) = presented_slice c e"
  by (simp add: presented_slice_def fun_eq_iff split: sum.split)

lemma strip_no_slice: "verifyChainToken c e clk i tok ver = Inr cl \<Longrightarrow> map_of cl leafSliceClaim = None"
  by (auto simp: verifyChainToken_def map_of_strip leafSliceClaim_def has_prefix_def reservedClaimPrefix_def)

lemma slice_claim_names: "leafSliceClaim \<noteq> effectiveScopeClaim"
  by (simp add: leafSliceClaim_def effectiveScopeClaim_def)

lemma zk_no_slice: "step6ChainZK c e clk tx inp = Inr ct \<Longrightarrow> map_of ct leafSliceClaim = None"
  using slice_claim_names by (auto simp: step6ChainZK_def zk_leaf_def dest: strip_no_slice)

lemma clear_slice:
  assumes "step6Chain c e clk tx (in_CT inp) (in_CAT inp) (in_CTChain inp) = Inr ct"
    and "map_of ct leafSliceClaim = Some (GSlice r leg sx)"
  shows "\<exists>cts cls pcl ps cs. chain_tokens (in_CT inp) (in_CTChain inp) = Inr cts \<and>
    chain_claims c e clk (in_CAT inp) cts = Inr cls \<and> cls \<noteq> [] \<and>
    scopeOf pcl = Inr ps \<and> scopeOf (last cls) = Inr cs \<and> slice_args c pcl (last cls) = presented_slice c e clk inp \<and>
    checkSubbandMembership c pcl ps (last cls) cs = Inr (Some \<lparr>si_root = r, si_legIndex = leg, si_expiry = sx\<rparr>)"
proof -
  obtain cts cat cs w anchor catMax where k: "chain_tokens (in_CT inp) (in_CTChain inp) = Inr cts" "cts \<noteq> []"
    "chain_claims c e clk (in_CAT inp) cts = Inr (cat # cs)" "length cs = length cts" "wk_claims w = last cs"
    "ct = put_slice (wk_slice w) (put effectiveScopeClaim (GMap (wk_effective w)) (wk_claims w))"
    "chain_walk c e clk (claimStr cat ''jti'') anchor 0 cts
          \<lparr>wk_claims = cat, wk_token = in_CAT inp, wk_budget = catMax,
           wk_effective = (case scopeOf cat of Inl _ \<Rightarrow> [] | Inr s \<Rightarrow> s), wk_slice = None\<rparr> = Inr w"
    by (rule step6Chain_ok[OF assms(1)]) (rule that, assumption+)
  obtain us t where cts: "cts = us @ [t]" using k(2) by (cases cts rule: rev_cases) auto
  obtain w2 where w2: "chain_walk c e clk (claimStr cat ''jti'') anchor 0 us
          \<lparr>wk_claims = cat, wk_token = in_CAT inp, wk_budget = catMax,
           wk_effective = (case scopeOf cat of Inl _ \<Rightarrow> [] | Inr s \<Rightarrow> s), wk_slice = None\<rparr> = Inr w2"
    "chain_hop c e clk (claimStr cat ''jti'') anchor (length us) t w2 = Inr w"
    using k(7) by (auto simp: cts chain_walk_snoc)
  note hop = chain_hop_ok[OF w2(2)]
  from chain_walk_ok[OF w2(1)] obtain ds where ds: "length ds = length us"
    "\<forall>n < length us. verifyChainToken c e clk (Suc n) (us ! n) (ct_Verify c) = Inr (ds ! n)" "wk_claims w2 = last (cat # ds)"
    by auto
  have ver: "\<forall>n < length cts. verifyChainToken c e clk (Suc n) (cts ! n) (ct_Verify c) = Inr (cs ! n)"
    using k(3) by (auto simp: chain_claims_def map_err_Inr list_all2_conv_all_nth)
  have "cs ! n = ds ! n" if "n < length us" for n using that ds(2) ver[rule_format, of n] cts by (simp add: nth_append)
  then have parent: "(cat # cs) ! (length (cat # cs) - 2) = wk_claims w2"
    using ds(1,3) k(4) cts by (cases us rule: rev_cases; cases ds rule: rev_cases) (auto simp: nth_append)
  from hop(7) obtain ps s where ps: "scopeOf (wk_claims w2) = Inr ps" "scopeOf (wk_claims w) = Inr s"
    "checkSubbandMembership c (wk_claims w2) ps (wk_claims w) s = Inr (wk_slice w)" by (elim exE conjE)
  have last: "last (cat # cs) = wk_claims w" using k(2,4,5) by auto
  have "map_of (wk_claims w) leafSliceClaim = None" by (rule strip_no_slice[OF hop(1)])
  then have "wk_slice w = Some \<lparr>si_root = r, si_legIndex = leg, si_expiry = sx\<rparr>"
    using assms(2) slice_claim_names by (cases "wk_slice w") (auto simp: k(6) put_slice_def)
  with k(1,3) ps last parent show ?thesis
    by (intro exI[of _ cts] exI[of _ "cat # cs"] exI[of _ "wk_claims w2"] exI[of _ ps] exI[of _ s])
       (simp add: presented_slice_def del: last.simps)
qed

section \<open>What a run spends\<close>

text \<open>A gate call that is allowed on a slice of the division with root text \<open>r\<close>: the position, the record
  its use leaves, and the transaction.\<close>

definition leaf_slice :: "codec \<Rightarrow> engine \<Rightarrow> clocks \<Rightarrow> input \<Rightarrow> (string \<times> int \<times> int) option" where
  "leaf_slice c e clk inp =
     (case admit c e clk inp of
        Inl _ \<Rightarrow> None
      | Inr tx \<Rightarrow>
          (case authorize c e clk tx inp of
             Inl _ \<Rightarrow> None
           | Inr ct \<Rightarrow> (case map_of ct leafSliceClaim of Some (GSlice r leg sx) \<Rightarrow> Some (r, leg, sx) | _ \<Rightarrow> None)))"

definition use_record :: "clocks \<Rightarrow> int \<Rightarrow> recordExpiry" where
  "use_record clk ex = \<lparr>re_mono = mono (clk UseRecord) + ttlUntil ex (unix (wallc clk UseNow)), re_wall = time_Unix ex\<rparr>"

fun slice_spend :: "codec \<Rightarrow> engine \<Rightarrow> string \<Rightarrow> call \<Rightarrow> (int \<times> recordExpiry \<times> txnctx) option" where
  "slice_spend c e r (Gate clk inp) =
     (if fst (Verify c e clk inp) = Allow then
        (case leaf_slice c e clk inp of
           None \<Rightarrow> None
         | Some (r', leg, sx) \<Rightarrow> if r' = r then Some (leg, use_record clk sx, in_Txn inp) else None)
      else None)"
| "slice_spend c e r (Settle clk inp) = None"

fun spends :: "(gval \<Rightarrow> string) \<Rightarrow> codec \<Rightarrow> engine \<Rightarrow> string \<Rightarrow> call list \<Rightarrow> (int \<times> txnctx) list" where
  "spends fmt c e r [] = []"
| "spends fmt c e r (cl # calls) =
     (case slice_spend c e r cl of None \<Rightarrow> [] | Some (leg, re, tc) \<Rightarrow> [(leg, tc)]) @
     spends fmt c (serve1 fmt c e cl) r calls"

text \<open>The records of the slices used stay live until the end of the run.\<close>

fun records_live :: "(gval \<Rightarrow> string) \<Rightarrow> codec \<Rightarrow> engine \<Rightarrow> string \<Rightarrow> call list \<Rightarrow> bool" where
  "records_live fmt c e r [] = True"
| "records_live fmt c e r (cl # calls) =
     ((case slice_spend c e r cl of None \<Rightarrow> True | Some (leg, re, tc) \<Rightarrow> list_all (\<lambda>c'. live_in re (call_clocks c')) calls) \<and>
      records_live fmt c (serve1 fmt c e cl) r calls)"

lemma leaf_slice_ok:
  "leaf_slice c e clk inp = Some (r, leg, sx) \<longleftrightarrow>
     (\<exists>tx ct. admit c e clk inp = Inr tx \<and> authorize c e clk tx inp = Inr ct \<and>
        map_of ct leafSliceClaim = Some (GSlice r leg sx))"
  by (auto simp: leaf_slice_def split: sum.splits option.splits gval.splits)

lemma slice_spend_ok:
  assumes "slice_spend c e r cl = Some (leg, re, tc)"
  obtains clk inp sx tx ct where "cl = Gate clk inp" and "fst (Verify c e clk inp) = Allow"
    and "re = use_record clk sx" and "tc = in_Txn inp" and "admit c e clk inp = Inr tx"
    and "authorize c e clk tx inp = Inr ct" and "map_of ct leafSliceClaim = Some (GSlice r leg sx)"
proof -
  obtain clk inp where cl: "cl = Gate clk inp" using assms by (cases cl) auto
  then obtain sx where s: "fst (Verify c e clk inp) = Allow" "leaf_slice c e clk inp = Some (r, leg, sx)"
    "re = use_record clk sx" "tc = in_Txn inp"
    using assms by (auto split: if_splits option.splits)
  then obtain tx ct where "admit c e clk inp = Inr tx" "authorize c e clk tx inp = Inr ct"
    "map_of ct leafSliceClaim = Some (GSlice r leg sx)" unfolding leaf_slice_ok by blast
  with that[OF cl s(1,3,4)] show thesis .
qed

lemma slice_spend_records:
  assumes "slice_spend c e r cl = Some (leg, re, tc)"
  shows "map_of (eg_replay (serve1 fmt c e cl)) (sliceRecord r leg) = Some re"
proof -
  obtain clk inp sx tx ct where s: "cl = Gate clk inp" "fst (Verify c e clk inp) = Allow" "re = use_record clk sx"
    "admit c e clk inp = Inr tx" "authorize c e clk tx inp = Inr ct" "map_of ct leafSliceClaim = Some (GSlice r leg sx)"
    by (rule slice_spend_ok[OF assms])
  then obtain e1 where "Verify c e clk inp = (Allow, e1)" by (cases "Verify c e clk inp") simp
  then show ?thesis
  proof (rule Verify_use)
    fix tx' ct' items e0
    assume u: "admit c e clk inp = Inr tx'" "authorize c e clk tx' inp = Inr ct'"
      "use_items roleGate (unix (wallc clk UseNow)) tx' ct' = Inr items" "consumeOnAllow e0 clk roleGate tx' ct' = (Inr (), e1)"
    have eq: "tx' = tx" "ct' = ct" using u(1,2) s(4,5) by auto
    from consumeOnAllow_records[OF u(4,3) use_items_slice[OF u(3)]] s(6) \<open>Verify c e clk inp = (Allow, e1)\<close>
    show ?thesis by (simp add: eq s(1,3) expiry_of_def use_record_def)
  qed
qed

lemma held_slice_not_spent:
  assumes "map_of (eg_replay e) (sliceRecord r leg) = Some re" and "live_in re (call_clocks cl)"
    and "slice_spend c e r cl = Some (leg', re', tc)"
  shows "leg' \<noteq> leg"
proof
  assume leg: "leg' = leg"
  obtain clk inp sx tx ct where s: "cl = Gate clk inp" "fst (Verify c e clk inp) = Allow"
    "admit c e clk inp = Inr tx" "authorize c e clk tx inp = Inr ct" "map_of ct leafSliceClaim = Some (GSlice r leg sx)"
    using leg by (auto intro: slice_spend_ok[OF assms(3)])
  then obtain e1 where "Verify c e clk inp = (Allow, e1)" by (cases "Verify c e clk inp") simp
  then obtain items where "use_items roleGate (unix (wallc clk UseNow)) tx ct = Inr items"
    using s(3,4) by (auto elim!: Verify_use)
  from held_key_not_allowed[OF assms(1) _ s(3,4) this] use_items_slice[OF this s(5)] assms(2) s(1,2)
  show False by force
qed

lemma held_slice_not_in_spends:
  assumes "map_of (eg_replay e) (sliceRecord r leg) = Some re" and "\<forall>c' \<in> set calls. live_in re (call_clocks c')"
  shows "leg \<notin> fst ` set (spends fmt c e r calls)"
  using assms
proof (induction calls arbitrary: e)
  case (Cons cl calls)
  have "leg \<notin> fst ` set (spends fmt c (serve1 fmt c e cl) r calls)"
    by (rule Cons.IH[OF serve1_keeps[OF Cons.prems(1)]]) (use Cons.prems(2) in simp_all)
  moreover have "leg' \<noteq> leg" if "slice_spend c e r cl = Some (leg', re', tc)" for leg' re' tc
    by (rule held_slice_not_spent[OF Cons.prems(1) _ that]) (use Cons.prems(2) in simp)
  ultimately show ?case by (cases "slice_spend c e r cl") auto
qed simp

lemma spends_distinct: "records_live fmt c e r calls \<Longrightarrow> distinct (map fst (spends fmt c e r calls))"
proof (induction calls arbitrary: e)
  case (Cons cl calls)
  show ?case
  proof (cases "slice_spend c e r cl")
    case (Some p)
    obtain leg re tc where p: "p = (leg, re, tc)" by (cases p)
    have "leg \<notin> fst ` set (spends fmt c (serve1 fmt c e cl) r calls)"
      by (rule held_slice_not_in_spends[OF slice_spend_records[OF Some[unfolded p]]])
         (use Cons.prems Some p in \<open>auto simp: list_all_iff\<close>)
    with Cons Some p show ?thesis by simp
  qed (use Cons in simp)
qed simp

section \<open>The budget\<close>

text \<open>A presentation's slice is hashed within \<open>H\<close>, and its texts fit the length prefixes.\<close>

definition slice_within :: "codec \<Rightarrow> bytes set \<Rightarrow> engine \<Rightarrow> call \<Rightarrow> bool" where
  "slice_within c H e cl =
     (case cl of
        Settle clk inp \<Rightarrow> True
      | Gate clk inp \<Rightarrow>
          (case presented_slice c e clk inp of
             None \<Rightarrow> True
           | Some (pc, b, leg, n, path) \<Rightarrow> band_typed b \<and> slice_inputs (jc_sha3 c) pc b leg n path \<subseteq> H))"

lemma slice_within_replay: "slice_within c H (serve1 fmt c e cl') = slice_within c H e"
proof -
  obtain x where "serve1 fmt c e cl' = e\<lparr>eg_replay := x\<rparr>" using serve1_replay by blast
  then show ?thesis by (simp add: slice_within_def fun_eq_iff split: call.split)
qed

lemma gate_amount_within_slice:
  assumes "codec_json c" and "authorize c e clk tx inp = Inr ct" and "map_of ct leafSliceClaim = Some (GSlice r leg sx)"
  obtains pc b n path leaf rt where "presented_slice c e clk inp = Some (pc, b, word_of_int leg, n, path)"
    and "0 \<le> leg" and "leg < 2 ^ 32" and "hex_decode r = Some rt" and "\<forall>p \<in> set path. length p = 32"
    and "\<exists>s ps. SubbandParentCommit (jc_sha3 c) s ps = Inr pc \<and>
       SubbandLeaf (jc_sha3 c) s pc b (word_of_int leg) n = Inr leaf \<and>
       SubbandVerifyMembership (jc_sha3 c) s leaf (word_of_int leg) n path rt = Inr ()"
    and "\<exists>y. toRat (lookup_val (bd_Scope b) cumulativeDim) = Some y \<and> amount_of (in_Txn inp) \<le> y"
proof -
  have s6: "step6 c e clk tx inp = Inr ct" "step7Scope ct (in_Txn inp) = Inr ()" using assms(2) by (auto simp: authorize_ok)
  have cp: "in_ChainProof inp = None" using s6(1) assms(3) zk_no_slice by (auto simp: step6_def split: option.splits)
  note s6' = s6(1)[unfolded step6_clear[OF cp]]
  from clear_slice[OF s6' assms(3)] obtain cts cls pcl ps cs where k:
    "chain_tokens (in_CT inp) (in_CTChain inp) = Inr cts" "chain_claims c e clk (in_CAT inp) cts = Inr cls" "cls \<noteq> []"
    "scopeOf pcl = Inr ps" "scopeOf (last cls) = Inr cs" "slice_args c pcl (last cls) = presented_slice c e clk inp"
    "checkSubbandMembership c pcl ps (last cls) cs = Inr (Some \<lparr>si_root = r, si_legIndex = leg, si_expiry = sx\<rparr>)" by blast
  from membership_slice[OF k(7,4,5)] obtain pc b n path leaf rt where m:
    "slice_args c pcl (last cls) = Some (pc, b, word_of_int leg, n, path)" "bd_Scope b = cs" "has_key cs cumulativeDim"
    "0 \<le> leg" "leg < 2 ^ 32" "hex_decode r = Some rt" "\<forall>p \<in> set path. length p = 32"
    "SubbandParentCommit (jc_sha3 c) (claimStr (last cls) ''subband_hash_suite'') ps = Inr pc"
    "SubbandLeaf (jc_sha3 c) (claimStr (last cls) ''subband_hash_suite'') pc b (word_of_int leg) n = Inr leaf"
    "SubbandVerifyMembership (jc_sha3 c) (claimStr (last cls) ''subband_hash_suite'') leaf (word_of_int leg) n path rt = Inr ()"
    by auto
  obtain v where v: "map_of cs cumulativeDim = Some v" using m(3) by (auto simp: has_key_def)
  have "last cls \<in> set cls" using k(3) by simp
  from chain_bounds_amount[OF assms(1) s6' s6(2) k(1,2) this k(5) _ v]
  have "\<exists>y. toRat (lookup_val (bd_Scope b) cumulativeDim) = Some y \<and> amount_of (in_Txn inp) \<le> y"
    by (auto simp: money_dims_def m(2) lookup_val_def v amount_of_def)
  with that m k(6) show thesis by metis
qed

lemma spends_within:
  assumes "codec_json c"
    and commit: "CommitBandDivision (jc_sha3 c) suite parent pnbf pexp bands = Inr (rt, leaves, paths)"
    and "length bands < 2 ^ 32" and pc0: "SubbandParentCommit (jc_sha3 c) suite parent = Inr pc0"
    and "\<forall>x \<in> set bands. band_typed x" and "\<forall>d. length (jc_sha3 c d) = 32"
    and inj: "inj_on (jc_sha3 c) H" and "division_inputs (jc_sha3 c) pc0 bands leaves \<subseteq> H"
    and "hex_decode r = Some rt" and within: "slice_within c H e cl" and spend: "slice_spend c e r cl = Some (leg, re, tc)"
  shows "0 \<le> leg \<and> nat leg < length bands \<and> amount_of tc \<le> cumulative (bd_Scope (bands ! nat leg))"
proof -
  obtain clk inp sx tx ct where s: "cl = Gate clk inp" "tc = in_Txn inp" "admit c e clk inp = Inr tx"
    "authorize c e clk tx inp = Inr ct" "map_of ct leafSliceClaim = Some (GSlice r leg sx)"
    by (rule slice_spend_ok[OF spend])
  obtain pc b n path leaf rt' where p: "presented_slice c e clk inp = Some (pc, b, word_of_int leg, n, path)"
    "0 \<le> leg" "leg < 2 ^ 32" "hex_decode r = Some rt'" "\<forall>p \<in> set path. length p = 32"
    "\<exists>s ps. SubbandParentCommit (jc_sha3 c) s ps = Inr pc \<and>
       SubbandLeaf (jc_sha3 c) s pc b (word_of_int leg) n = Inr leaf \<and>
       SubbandVerifyMembership (jc_sha3 c) s leaf (word_of_int leg) n path rt' = Inr ()"
    "\<exists>y. toRat (lookup_val (bd_Scope b) cumulativeDim) = Some y \<and> amount_of (in_Txn inp) \<le> y"
    by (rule gate_amount_within_slice[OF assms(1) s(4,5)])
  from p(6) obtain s' ps where q: "SubbandParentCommit (jc_sha3 c) s' ps = Inr pc"
    "SubbandLeaf (jc_sha3 c) s' pc b (word_of_int leg) n = Inr leaf"
    "SubbandVerifyMembership (jc_sha3 c) s' leaf (word_of_int leg) n path rt = Inr ()"
    using p(4) assms(9) by auto
  have "band_typed b" "slice_inputs (jc_sha3 c) pc b (word_of_int leg) n path \<subseteq> H"
    using within by (simp_all add: slice_within_def s(1) p(1))
  moreover have "length pc = 32" using q(1) assms(6) by (auto simp: SubbandParentCommit_def suite_sum_ok split: sum.splits)
  moreover have "unat (word_of_int leg :: 32 word) = nat leg" using p(2,3) by (simp add: unat_eq_nat_uint uint_word_of_int)
  ultimately have "nat leg < length bands \<and> toRat (lookup_val (bd_Scope b) cumulativeDim) =
      toRat (lookup_val (bd_Scope (bands ! nat leg)) cumulativeDim)"
    using any_verified_slice_is_committed[OF commit assms(3) pc0 q(2,3) _ assms(5,6) _ p(5)]
      inj_on_subset[OF inj] assms(8) by auto
  with p(2,7) s(2) show ?thesis
    by (auto simp: cumulative_def lookup_val_def split: option.splits)
qed

lemma spends_all_within:
  assumes "\<forall>e' cl leg re tc. cl \<in> set calls \<longrightarrow> slice_within c H e' cl \<longrightarrow> slice_spend c e' r cl = Some (leg, re, tc) \<longrightarrow> Q leg tc"
    and "\<forall>cl \<in> set calls. slice_within c H e cl"
  shows "\<forall>(leg, tc) \<in> set (spends fmt c e r calls). Q leg tc"
  using assms
proof (induction calls arbitrary: e)
  case (Cons cl calls)
  have "\<forall>(leg, tc) \<in> set (spends fmt c (serve1 fmt c e cl) r calls). Q leg tc"
    by (rule Cons.IH) (use Cons.prems in \<open>auto simp: slice_within_replay\<close>)
  moreover have "Q leg tc" if "slice_spend c e r cl = Some (leg, re, tc)" for leg re tc
    using Cons.prems that by auto
  ultimately show ?case by (cases "slice_spend c e r cl") auto
qed simp

lemma distinct_nat_legs:
  "distinct (map fst legs) \<Longrightarrow> \<forall>(leg, tc) \<in> set legs. 0 \<le> leg \<Longrightarrow> distinct (map (\<lambda>(leg, tc). nat leg) legs)"
  by (induction legs) (force simp: eq_nat_nat_iff)+

end
