(* ===== verification/SliceSample.thy ===== *)
theory SliceSample
  imports Budget
begin

text \<open>
  A presentation on a committed slice: a root capability that commits a budget of 100 USD to one slice,
  the capability that carries the slice with its membership, and a transaction of 25.50 USD.
\<close>

section \<open>A presented slice\<close>

definition sls_root :: bytes where
  "sls_root = replicate 32 CHR ''r''"

definition sls_scope :: scope where
  "sls_scope = [(''max_cumulative'', smp_num 100), (''currency'', GStr ''USD'')]"

definition sls_cat :: claims where
  "sls_cat =
     [(''iss'', GStr ''ct''), (''txn_token_type'', GStr ''CAT''), (''jti'', GStr ''c2''), (''human_anchor'', GStr ''a''),
      (''iat'', smp_num 90), (''exp'', smp_num 500), (''delegation_depth_max'', smp_num 1),
      (''subband_group_root'', GStr (hex_encode sls_root)), (''capability_scope'', GMap sls_scope)]"

definition sls_ct :: claims where
  "sls_ct =
     [(''iss'', GStr ''ct''), (''txn_token_type'', GStr ''CT''), (''jti'', GStr ''m1''), (''human_anchor'', GStr ''a''),
      (''iat'', smp_num 90), (''exp'', smp_num 400), (''delegation_depth_remaining'', smp_num 0),
      (''spt_parent_hash'', GStr ''h.b.s''), (''spt_cat_ref'', GStr ''c2''), (''holder_key'', GStr (hex_encode smp_holder)),
      (''subband_group_root'', GStr (hex_encode sls_root)), (''subband_hash_suite'', GStr ''sha3-256''),
      (''subband_group_size'', smp_num 1), (''subband_leg_index'', smp_num 0), (''subband_merkle_path'', GList []),
      (''capability_scope'', GMap sls_scope)]"

definition sls_tx :: claims where
  "sls_tx =
     [(''iss'', GStr ''tts''), (''txn_token_type'', GStr ''TXN''), (''jti'', GStr ''t2''), (''human_anchor'', GStr ''a''),
      (''aud'', GStr ''shop''), (''iat'', smp_num 98), (''exp'', smp_num 200), (''spt_ct_ref'', GStr ''m1''),
      (''cnf'', GMap [(''jkt'', GStr smp_jwk)]),
      (''spt_txn_chain'', GStr ''xrpl''), (''spt_txn_context_hash'', GStr (hex_encode smp_pre))]"

definition sls_codec :: codec where
  "sls_codec = smp_codec\<lparr>jc_claims := map_of [(''u'', sls_tx), (''b'', sls_cat), (''m'', sls_ct)],
     jc_sha3 := (\<lambda>_. sls_root),
     jc_dpop_claims := (\<lambda>b. Some \<lparr>dc_jti = b, dc_htm = ''POST'', dc_htu = ''u'', dc_ath = ''h.u.s'', dc_iat = 99\<rparr>)\<rparr>"

definition sls_input :: "char \<Rightarrow> input" where
  "sls_input p = \<lparr>in_TxnToken = ''h.u.s'', in_DPoPProof = [CHR ''h'', CHR ''.'', p, CHR ''.'', CHR ''s''], in_HTM = ''POST'',
     in_HTU = ''u'', in_CT = ''h.m.s'', in_CTChain = [], in_CAT = ''h.b.s'', in_Txn = sample_txn, in_Audience = ''shop'',
     in_ChainProof = None, in_ChainH0 = None\<rparr>"

lemma sls_codec_simps [simp]:
  "jc_b64dec sls_codec s = Some s" "jc_b64enc sls_codec b = b" "jc_alg sls_codec b = ''EdDSA''"
  "jc_edverify sls_codec k m sg" "jc_sha256 sls_codec b = b" "jc_sha3 sls_codec b = sls_root"
  "jc_claims sls_codec ''u'' = Some sls_tx" "jc_claims sls_codec ''b'' = Some sls_cat"
  "jc_claims sls_codec ''m'' = Some sls_ct"
  by (simp_all add: sls_codec_def)

lemma sls_input_fields [simp]:
  "in_TxnToken (sls_input p) = ''h.u.s''" "in_DPoPProof (sls_input p) = [CHR ''h'', CHR ''.'', p, CHR ''.'', CHR ''s'']"
  "in_HTM (sls_input p) = ''POST''" "in_HTU (sls_input p) = ''u''" "in_CT (sls_input p) = ''h.m.s''"
  "in_CTChain (sls_input p) = []" "in_CAT (sls_input p) = ''h.b.s''"
  "in_Txn (sls_input p) = sample_txn" "in_Audience (sls_input p) = ''shop''" "in_ChainProof (sls_input p) = None"
  by (simp_all add: sls_input_def)

lemma sls_unverified:
  "unverifiedClaims sls_codec ''h.u.s'' = Inr sls_tx" "unverifiedClaims sls_codec ''h.b.s'' = Inr sls_cat"
  "unverifiedClaims sls_codec ''h.m.s'' = Inr sls_ct"
  by (simp_all add: unverifiedClaims_def)

lemma sls_verify:
  "verifyJWT sls_codec ''h.u.s'' k = Inr sls_tx" "verifyJWT sls_codec ''h.b.s'' k = Inr sls_cat"
  "verifyJWT sls_codec ''h.m.s'' k = Inr sls_ct"
  by (simp_all add: verifyJWT_def)

lemmas sls_claims = sls_cat_def sls_ct_def sls_tx_def claimStr_def str_claim_def

lemma sls_strip: "strip_reserved sls_cat = sls_cat" "strip_reserved sls_ct = sls_ct"
  by (simp_all add: strip_reserved_def sls_cat_def sls_ct_def reservedClaimPrefix_def has_prefix_def)

lemma sls_chain_token:
  "verifyChainToken sls_codec smp_engine smp_clk i ''h.b.s'' (cat_Verify sls_codec) = Inr sls_cat"
  "verifyChainToken sls_codec smp_engine smp_clk i ''h.m.s'' (ct_Verify sls_codec) = Inr sls_ct"
proof -
  have v: "cat_Verify sls_codec 100000000000 ''h.b.s'' k = Inr sls_cat"
    "ct_Verify sls_codec 100000000000 ''h.m.s'' k = Inr sls_ct" for k
    by (simp_all add: cat_Verify_def ct_Verify_def sls_verify check_exp_def check_type_def sls_claims float_claim_def
        smp_num_def float_to_int_def)
  show "verifyChainToken sls_codec smp_engine smp_clk i ''h.b.s'' (cat_Verify sls_codec) = Inr sls_cat"
    "verifyChainToken sls_codec smp_engine smp_clk i ''h.m.s'' (ct_Verify sls_codec) = Inr sls_ct"
    by (simp_all add: verifyChainToken_def sls_unverified smp_key v sls_strip)
qed

lemma sls_scopes: "scopeOf sls_cat = Inr sls_scope" "scopeOf sls_ct = Inr sls_scope"
  by (simp_all add: scopeOf_def map_claim_def sls_claims)

lemma sls_contained: "Contains sls_scope sls_scope = Inr ()"
  by (simp add: sls_scope_def smp_num_def float_rat_def valueContained.simps directionOf_def numericDirection_def)

definition sls_band :: band where
  "sls_band = \<lparr>bd_Scope = sls_scope, bd_NotBefore = 0, bd_Expiry = 400\<rparr>"

lemma sls_commit:
  "SubbandParentCommit (\<lambda>_. sls_root) ''sha3-256'' sls_scope = Inr sls_root"
  "SubbandLeaf (\<lambda>_. sls_root) ''sha3-256'' pc sls_band i n = Inr sls_root"
  "SubbandVerifyMembership (\<lambda>_. sls_root) ''sha3-256'' sls_root 0 1 [] sls_root = Inr ()"
  by (simp_all add: SubbandParentCommit_def SubbandLeaf_def canonicalMoney_def lookup_val_def sls_band_def sls_scope_def
      cumulativeDim_def smp_num_def float_rat_def suite_sum_def SuiteSHA3_256_def SubbandVerifyMembership_def
      membership_walk.simps)

lemma sls_codec_sha3: "jc_sha3 sls_codec = (\<lambda>_. sls_root)"
  by (simp add: sls_codec_def)

lemma sls_membership:
  "checkSubbandMembership sls_codec sls_cat sls_scope sls_ct sls_scope =
     Inr (Some \<lparr>si_root = hex_encode sls_root, si_legIndex = 0, si_expiry = 400\<rparr>)"
  using sls_commit[unfolded sls_band_def] hex_encode_inj[of sls_root "[]"]
  by (simp add: checkSubbandMembership_def Let_def DeclaresCumulativeBudget_def sls_claims has_key_def cumulativeDim_def
      sls_scope_def sls_codec_sha3 raw_path_def parse_path_def sls_root_def)

definition sls_leaf :: claims where
  "sls_leaf = put leafSliceClaim (GSlice (hex_encode sls_root) 0 400) (put effectiveScopeClaim (GMap sls_scope) sls_ct)"

lemma sls_leaf_claim: "k \<noteq> effectiveScopeClaim \<Longrightarrow> k \<noteq> leafSliceClaim \<Longrightarrow> map_of sls_leaf k = map_of sls_ct k"
  by (simp add: sls_leaf_def)

lemma sls_leaf_slice: "map_of sls_leaf leafSliceClaim = Some (GSlice (hex_encode sls_root) 0 400)"
  by (simp add: sls_leaf_def)

lemmas reserved_names = leafSliceClaim_def effectiveScopeClaim_def reservedClaimPrefix_def

lemma sls_bind: "bind_txn sls_codec ''a'' sls_tx sls_leaf = Inr ()"
  by (simp add: bind_txn_def iface_eq_def lookup_val_def checkHolderBinding_def sls_leaf_claim claimStr_def str_claim_def reserved_names)
     (simp add: sls_tx_def sls_ct_def check_anchor_def str_claim_def map_claim_def Thumbprint_def jwk_text_def smp_jwk_def smp_holder_def, blast)

lemma sls_hop:
  "chain_hop sls_codec smp_engine smp_clk ''c2'' ''a'' 0 ''h.m.s''
     \<lparr>wk_claims = sls_cat, wk_token = ''h.b.s'', wk_budget = 1, wk_effective = sls_scope, wk_slice = None\<rparr> =
   Inr \<lparr>wk_claims = sls_ct, wk_token = ''h.m.s'', wk_budget = 0, wk_effective = sls_scope,
      wk_slice = Some \<lparr>si_root = hex_encode sls_root, si_legIndex = 0, si_expiry = 400\<rparr>\<rparr>"
proof -
  have "check_link sls_codec ''c2'' 0 w sls_ct = Inr ()" if "wk_token w = ''h.b.s''" for w
    using that by (simp add: check_link_def sls_claims)
  moreover have "check_anchor ''a'' sls_ct" "check_depth 1 sls_ct = Inr 0" "check_lifetime sls_cat sls_ct = Inr ()"
    "nbfAttenuates sls_cat sls_ct = Inr ()" "checkChainTokenTemporal smp_clk i sls_ct = Inr ()" for i
    by (simp_all add: check_anchor_def check_depth_def check_lifetime_def nbfAttenuates_def checkChainTokenTemporal_def
        has_key_def iatSkew_def sls_claims)
  moreover have "overlayScope sls_scope sls_scope = sls_scope"
    by (simp add: sls_scope_def smp_num_def put_def overlayScope.simps)
  ultimately show ?thesis
    by (simp add: chain_hop_def sls_chain_token sls_scopes sls_contained sls_membership smp_status)
qed

lemma sls_step6: "step6Chain sls_codec smp_engine smp_clk sls_tx ''h.m.s'' ''h.b.s'' [] = Inr sls_leaf"
proof -
  have "checkChainTokenTemporal smp_clk 0 sls_cat = Inr ()"
    by (simp add: checkChainTokenTemporal_def has_key_def iatSkew_def sls_claims)
  then have "walk_root sls_codec smp_engine smp_clk ''h.b.s'' = Inr (''c2'', ''a'',
     \<lparr>wk_claims = sls_cat, wk_token = ''h.b.s'', wk_budget = 1, wk_effective = sls_scope, wk_slice = None\<rparr>)"
    by (simp add: walk_root_def sls_chain_token smp_status sls_scopes) (simp add: sls_claims)
  with sls_hop sls_bind show ?thesis
    by (simp add: step6Chain_def chain_tokens_def put_slice_def sls_leaf_def)
qed

lemma sls_admit: "admit sls_codec smp_engine smp_clk (sls_input p) = Inr sls_tx"
  by (simp add: admit_ok step1Signature_def sls_unverified smp_key ParseVerify_def sls_verify smp_status step4Revocation_def)
     (simp add: sls_tx_def claimStr_def str_claim_def check_type_def step2Expiry_def step3Audience_def float_claim_def
      smp_num_def float_to_int_def iatSkew_def has_key_def)

lemma sls_authorize: "authorize sls_codec smp_engine smp_clk sls_tx (sls_input p) = Inr sls_leaf"
proof -
  have "TxnScope sls_scope sample_txn = Inr [(''max_cumulative'', GNum ''25.50''), (''currency'', GStr ''USD'')]"
    by (simp add: TxnScope_def project_ceiling_def has_key_def cumulativeDim_def sample_txn_def parse_amount_eval sls_scope_def)
  moreover have "Contains sls_scope [(''max_cumulative'', GNum ''25.50''), (''currency'', GStr ''USD'')] = Inr ()"
    by (simp add: Contains_Inr scope_eval sls_scope_def smp_num_def)
  moreover have "map_claim sls_leaf effectiveScopeClaim = Some sls_scope"
    using slice_claim_names by (simp add: sls_leaf_def)
  ultimately have "step7Scope sls_leaf sample_txn = Inr ()" by (simp add: step7Scope_def del: Contains.simps)
  moreover have "checkTxnLifetime sls_tx sls_leaf = Inr ()"
    by (simp add: checkTxnLifetime_def intClaim_def float_claim_def sls_leaf_claim reserved_names)
       (simp add: sls_tx_def sls_ct_def smp_num_def)
  moreover have "step8Context sls_codec sls_tx sample_txn = Inr ()"
    using smp_step8
    by (auto simp: step8Context_def VerifyContextHash_def Let_def sls_tx_def smp_tx_def claimStr_def str_claim_def
        sls_codec_def smp_codec_def)
  ultimately show ?thesis by (simp add: authorize_ok step6_def sls_step6)
qed

lemma sls_proof:
  "check_proof sls_codec smp_clk sls_tx ''h.u.s'' [CHR ''h'', CHR ''.'', p, CHR ''.'', CHR ''s''] ''POST'' ''u'' =
     Inr (proofRecord smp_jwk [p])" if "p \<noteq> CHR ''.''"
  using that
  by (simp add: check_proof_def ATH_def dpop_Verify_def check_dpop_header_def check_dpop_claims_def proofMaxAge_def
      DefaultMaxAge_def MaxFutureSkew_def normalizeHTU_def sat64_def time_Unix_def smp_holder_def
      CheckSenderConstraint_def sls_codec_def smp_codec_def Thumbprint_def jwk_text_def)
     (simp add: sls_tx_def map_claim_def claimStr_def str_claim_def smp_jwk_def smp_holder_def)

lemma sls_use:
  "use_items roleGate 100 sls_tx sls_leaf =
     Inr [\<lparr>cn_key = txnRecord ''t2'', cn_ttl = ttlUntil 200 100, cn_wallExp = time_Unix 200\<rparr>,
          \<lparr>cn_key = sliceRecord (hex_encode sls_root) 0, cn_ttl = ttlUntil 400 100, cn_wallExp = time_Unix 400\<rparr>]"
  by (simp add: use_items_def sls_leaf_slice) (simp add: sls_tx_def claimStr_def str_claim_def)

lemma sls_allowed:
  assumes "p \<noteq> CHR ''.''"
  shows "fst (Verify sls_codec smp_engine smp_clk (sls_input p)) = Allow"
proof -
  have e: "eg_replay smp_engine = []" by (simp add: smp_engine_def newReplayCache_def)
  obtain rs where rs: "step5DPoP sls_codec smp_engine smp_clk sls_tx ''h.u.s'' [CHR ''h'', CHR ''.'', p, CHR ''.'', CHR ''s'']
      ''POST'' ''u'' = (Inr (), smp_engine\<lparr>eg_replay := rs\<rparr>)" "\<forall>(k, r) \<in> set rs. rk_kind k = recordProof"
    using e by (simp add: step5DPoP_def sls_proof[OF assms] consume_def consumeAll_def prune_def refused_def record_use_def
        expiry_of_def proofRecord_def smp_clk_def)
  have other: "map_of (prune t rs) k = None" if "rk_kind k \<noteq> recordProof" for k t
    using rs(2) that by (auto simp: map_of_eq_None_iff prune_def)
  have "fst (consumeOnAllow (smp_engine\<lparr>eg_replay := rs\<rparr>) smp_clk roleGate sls_tx sls_leaf) = Inr ()"
    by (simp add: consumeOnAllow_def sls_use consume_def consumeAll_def refused_def other record_defs)
  then show ?thesis
    using rs(1) by (auto simp: Verify_def sls_admit sls_authorize split: prod.split sum.split)
qed

end
