(* ===== verification/Spending.thy ===== *)
theory Spending
  imports SliceSample
begin

text \<open>
  Single use and the budget: what a run of one enforcement point can spend.
\<close>

lemma sls_after: "\<exists>x. snd (Verify sls_codec smp_engine smp_clk (sls_input p)) = smp_engine\<lparr>eg_replay := x\<rparr>"
  using serve1_replay[of _ sls_codec smp_engine "Gate smp_clk (sls_input p)"] by simp

lemma sls_live: "live_in (use_record smp_clk 400) smp_clk"
  by (simp add: live_in_def use_record_def expired_def smp_clk_def ttlUntil_def second_def)

text \<open>C4: A slice of a committed division is spent once. After a gate has allowed a presentation whose leaf
  is the slice at position \<open>leg\<close> of the division with root \<open>rt\<close>, no presentation of that slice is
  allowed again, under any transaction token and any leaf capability that reissues it, whatever calls
  are served in between, while the record of the first use has not lapsed.\<close>

theorem slice_allowed_once:
  assumes "Verify c e clk inp = (Allow, e1)"
    and "admit c e clk inp = Inr tx" and "authorize c e clk tx inp = Inr ct"
    and "map_of ct leafSliceClaim = Some (GSlice rt leg sx)"
    and "r = \<lparr>re_mono = mono (clk UseRecord) + ttlUntil sx (unix (wallc clk UseNow)), re_wall = time_Unix sx\<rparr>"
    and "\<forall>cl \<in> set calls. live_in r (call_clocks cl)" and "live_in r clk2"
    and "admit c (serve fmt c e1 calls) clk2 inp2 = Inr tx2"
    and "authorize c (serve fmt c e1 calls) clk2 tx2 inp2 = Inr ct2"
    and "map_of ct2 leafSliceClaim = Some (GSlice rt leg sx2)"
  shows "fst (Verify c (serve fmt c e1 calls) clk2 inp2) \<noteq> Allow"
proof
  let ?e = "serve fmt c e1 calls"
  assume "fst (Verify c ?e clk2 inp2) = Allow"
  then obtain e2 where again: "Verify c ?e clk2 inp2 = (Allow, e2)" by (cases "Verify c ?e clk2 inp2") simp
  obtain tx' ct' items e0 where u: "admit c e clk inp = Inr tx'" "authorize c e clk tx' inp = Inr ct'"
    "use_items roleGate (unix (wallc clk UseNow)) tx' ct' = Inr items" "consumeOnAllow e0 clk roleGate tx' ct' = (Inr (), e1)"
    by (rule Verify_use[OF assms(1)])
  have eq: "tx' = tx" "ct' = ct" using u(1,2) assms(2,3) by auto
  from consumeOnAllow_records[OF u(4,3) use_items_slice[OF u(3)]] assms(4)
  have "map_of (eg_replay e1) (sliceRecord rt leg) = Some r" by (simp add: eq expiry_of_def assms(5))
  from serve_keeps[OF this assms(6)] have held: "map_of (eg_replay ?e) (sliceRecord rt leg) = Some r" .
  obtain tx2' ct2' items2 where v: "admit c ?e clk2 inp2 = Inr tx2'" "authorize c ?e clk2 tx2' inp2 = Inr ct2'"
    "use_items roleGate (unix (wallc clk2 UseNow)) tx2' ct2' = Inr items2"
    by (rule Verify_use[OF again])
  have "ct2' = ct2" using v(1,2) assms(8,9) by auto
  with use_items_slice[OF v(3)] assms(10) have "sliceRecord rt leg \<in> cn_key ` set items2" by force
  from held_key_not_allowed[OF held assms(7) v this] again show False by simp
qed

theorem slice_allowed_once_witness:
  "fst (Verify sls_codec (serve (\<lambda>_. []) sls_codec (snd (Verify sls_codec smp_engine smp_clk (sls_input CHR ''d''))) [])
     smp_clk (sls_input CHR ''e'')) \<noteq> Allow"
proof (rule slice_allowed_once[where ct = sls_leaf and ?ct2.0 = sls_leaf])
  show "Verify sls_codec smp_engine smp_clk (sls_input CHR ''d'') =
      (Allow, snd (Verify sls_codec smp_engine smp_clk (sls_input CHR ''d'')))"
    by (simp add: prod_eq_iff sls_allowed)
  show "live_in \<lparr>re_mono = mono (smp_clk UseRecord) + ttlUntil 400 (unix (wallc smp_clk UseNow)), re_wall = time_Unix 400\<rparr> smp_clk"
    using sls_live by (simp add: use_record_def)
  obtain x where "snd (Verify sls_codec smp_engine smp_clk (sls_input CHR ''d'')) = smp_engine\<lparr>eg_replay := x\<rparr>"
    using sls_after by blast
  then have e: "serve (\<lambda>_. []) sls_codec (snd (Verify sls_codec smp_engine smp_clk (sls_input CHR ''d''))) [] =
      smp_engine\<lparr>eg_replay := x\<rparr>" by (simp add: serve_def)
  show "admit sls_codec (serve (\<lambda>_. []) sls_codec (snd (Verify sls_codec smp_engine smp_clk (sls_input CHR ''d''))) []) smp_clk
      (sls_input CHR ''e'') = Inr sls_tx"
    by (simp add: e sls_admit)
  show "authorize sls_codec (serve (\<lambda>_. []) sls_codec (snd (Verify sls_codec smp_engine smp_clk (sls_input CHR ''d''))) []) smp_clk
      sls_tx (sls_input CHR ''e'') = Inr sls_leaf"
    by (simp add: e sls_authorize)
qed (simp add: sls_admit sls_authorize sls_leaf_slice | rule sls_authorize)+











section \<open>A use in flight when its record lapses\<close>

definition at_use :: "clocks \<Rightarrow> tnow \<Rightarrow> clocks" where
  "at_use clk t s = (if s = UseRecord then t else clk s)"

lemma wallc_use [simp]: "s \<noteq> UseRecord \<Longrightarrow> wallc (at_use clk t) s = wallc clk s" "at_use clk t S5Record = clk S5Record"
  "at_use clk t UseRecord = t"
  by (simp_all add: wallc_def at_use_def)

lemma verifyChainToken_use [simp]: "verifyChainToken c e (at_use clk t) = verifyChainToken c e clk"
  by (simp add: verifyChainToken_def fun_eq_iff)

lemma temporal_use [simp]: "checkChainTokenTemporal (at_use clk t) = checkChainTokenTemporal clk"
  by (simp add: checkChainTokenTemporal_def fun_eq_iff cong: if_cong)

lemma chain_hop_use [simp]: "chain_hop c e (at_use clk t) = chain_hop c e clk"
  by (simp add: chain_hop_def fun_eq_iff)

lemma chain_walk_use [simp]: "chain_walk c e (at_use clk t) j a i ts = chain_walk c e clk j a i ts"
proof (induction ts arbitrary: i)
  case (Cons t' ts)
  show ?case by (rule ext) (simp add: Cons.IH)
qed (rule ext, simp)

lemma admit_use [simp]: "admit c e (at_use clk t) = admit c e clk"
  by (simp add: admit_def step1Signature_def step4Revocation_def fun_eq_iff)

lemma authorize_use [simp]: "authorize c e (at_use clk t) = authorize c e clk"
  by (simp add: authorize_def step6_def step6Chain_def walk_root_def step6ChainZK_def zk_root_def zk_leaf_def
      fun_eq_iff split: option.split)

lemma check_proof_use [simp]: "check_proof c (at_use clk t) = check_proof c clk"
  by (simp add: check_proof_def fun_eq_iff)

lemma step5_use [simp]: "step5DPoP c e (at_use clk t) = step5DPoP c e clk"
  by (simp add: step5DPoP_def fun_eq_iff split: sum.split)

definition late :: tnow where
  "late = \<lparr>mono = 100000000007, wall = 200 * 10 ^ 9\<rparr>"

text \<open>C24: A token can be allowed a second time when the second presentation is in flight at its expiry. The
  record of a use lapses at the instant the token expires, and the expiry is checked on earlier clock
  readings than the record. In this run the token expires at 200; the second presentation passes
  every check at 100 and reaches the record at 200, when the record of the first use has just lapsed,
  and it is allowed.\<close>

theorem token_allowed_again_in_flight:
  "Verify smp_codec smp_engine smp_clk (smp_input CHR ''d'') = (Allow, smp_engine\<lparr>eg_replay := smp_records CHR ''d''\<rparr>) \<and>
   fst (Verify smp_codec (smp_engine\<lparr>eg_replay := smp_records CHR ''d''\<rparr>) (at_use smp_clk late) (smp_input CHR ''e'')) = Allow"
proof -
  let ?e = "smp_engine\<lparr>eg_replay := smp_records CHR ''d''\<rparr>"
  have live: "\<not> expired \<lparr>re_mono = 7 + proofRecordTTL, re_wall = zero_instant\<rparr> (smp_clk S5Record)"
    "\<not> expired \<lparr>re_mono = 7 + ttlUntil 200 100, re_wall = time_Unix 200\<rparr> (smp_clk S5Record)"
    by (simp_all add: expired_def smp_clk_def proofRecordTTL_def proofMaxAge_def DefaultMaxAge_def MaxFutureSkew_def second_def ttlUntil_def)
  have gone: "expired \<lparr>re_mono = 7 + ttlUntil 200 100, re_wall = time_Unix 200\<rparr> late"
    by (simp add: expired_def late_def ttlUntil_def second_def time_Unix_def)
  obtain r where s5: "step5DPoP smp_codec ?e smp_clk smp_tx ''h.t.s'' ''h.e.s'' ''POST'' ''u'' =
      (Inr (), ?e\<lparr>eg_replay := smp_records CHR ''d'' @ [(proofRecord smp_jwk ''e'', r)]\<rparr>)"
    using live
    by (simp add: step5DPoP_def smp_proof consume_def consumeAll_def prune_def refused_def record_use_def
        smp_records_def record_defs)
  have "fst (consumeAll late (smp_records CHR ''d'' @ [(proofRecord smp_jwk ''e'', r)])
      [\<lparr>cn_key = txnRecord ''t1'', cn_ttl = ttlUntil 200 100, cn_wallExp = time_Unix 200\<rparr>])"
    using gone by (simp add: consumeAll_ok prune_def refused_def smp_records_def record_defs split: if_splits)
  then obtain e2 where "consumeOnAllow (?e\<lparr>eg_replay := smp_records CHR ''d'' @ [(proofRecord smp_jwk ''e'', r)]\<rparr>)
      (at_use smp_clk late) roleGate smp_tx smp_leaf = (Inr (), e2)"
    by (simp add: consumeOnAllow_def smp_use consume_eq)
  with s5 smp_allowed[of "CHR ''d''"] show ?thesis
    by (simp add: Verify_def smp_admit smp_authorize)
qed

end
