(* ===== verification/ZkDecisions.thy ===== *)
theory ZkDecisions
  imports EngineDecisions
begin

text \<open>
  The zero-knowledge variant of step 6 (src/internal/verifier/engine.go, \<open>step6ChainZK\<close>): what an
  allowed presentation with a chain proof means, and what the variant leaves out.
\<close>

section \<open>The zero-knowledge mode\<close>



section \<open>A presentation with a chain proof\<close>

definition zks_anchor :: bytes where
  "zks_anchor = replicate 32 CHR ''a''"

definition zks_cat :: claims where
  "zks_cat = put ''human_anchor'' (GStr (hex_encode zks_anchor)) smp_cat"

definition zks_ct :: claims where
  "zks_ct = put ''human_anchor'' (GStr (hex_encode zks_anchor)) (put ''capability_scope'' (GMap smp_s1) smp_ct2)"

definition zks_tx :: claims where
  "zks_tx = put ''human_anchor'' (GStr (hex_encode zks_anchor)) smp_tx"

definition zks_codec :: codec where
  "zks_codec = smp_codec\<lparr>jc_claims := map_of [(''t'', zks_tx), (''c'', zks_cat), (''l'', zks_ct)]\<rparr>"

definition zks_verifier :: chain_verifier where
  "zks_verifier pr h0 rt m cur d = (pr = ''ok'' \<and> h0 = be_val zks_anchor \<and> rt = 7 \<and> m = 50 \<and> cur = ''USD'' \<and> d = 2)"

definition zks_engine :: engine where
  "zks_engine = smp_engine\<lparr>eg_chainVerifier := Some zks_verifier, eg_trustedIssuerRoot := 7, eg_maxZKLeafWindow := 300 * 10 ^ 9\<rparr>"

definition zks_input :: input where
  "zks_input = (smp_input CHR ''d'')\<lparr>in_CT := ''h.l.s'', in_CTChain := [], in_ChainProof := Some ''ok'',
     in_ChainH0 := Some (be_val zks_anchor)\<rparr>"


lemma zks_codec_simps [simp]:
  "jc_b64dec zks_codec s = Some s" "jc_b64enc zks_codec b = b" "jc_alg zks_codec b = ''EdDSA''"
  "jc_edverify zks_codec k m sg" "jc_sha256 zks_codec b = b"
  "jc_claims zks_codec ''t'' = Some zks_tx" "jc_claims zks_codec ''c'' = Some zks_cat" "jc_claims zks_codec ''l'' = Some zks_ct"
  by (simp_all add: zks_codec_def)

lemma zks_fields [simp]:
  "in_TxnToken zks_input = ''h.t.s''" "in_DPoPProof zks_input = ''h.d.s''" "in_HTM zks_input = ''POST''" "in_HTU zks_input = ''u''"
  "in_CT zks_input = ''h.l.s''" "in_CAT zks_input = ''h.c.s''" "in_Txn zks_input = sample_txn" "in_Audience zks_input = ''shop''"
  "in_ChainProof zks_input = Some ''ok''" "in_ChainH0 zks_input = Some (be_val zks_anchor)"
  "eg_chainVerifier zks_engine = Some zks_verifier" "eg_trustedIssuerRoot zks_engine = 7"
  "eg_maxZKLeafWindow zks_engine = 300000000000" "eg_replay zks_engine = []"
  by (simp_all add: zks_input_def smp_input_def zks_engine_def smp_engine_def newReplayCache_def)


















section \<open>Properties\<close>



text \<open>The zero-knowledge mode consults no status list. The outcome of step 6 with a chain proof does
  not depend on the status resolver of the engine, so a root or leaf capability that a published list
  marks as revoked still passes this step, although both are presented in clear.\<close>

theorem zk_step_ignores_status_lists:
  "step6ChainZK c (e\<lparr>eg_StatusResolver := res\<rparr>) clk tx inp = step6ChainZK c e clk tx inp"
proof -
  have "resolveKey (e\<lparr>eg_StatusResolver := res\<rparr>) = resolveKey e" by (simp add: resolveKey_def fun_eq_iff)
  then have "verifyChainToken c (e\<lparr>eg_StatusResolver := res\<rparr>) = verifyChainToken c e"
    by (simp add: verifyChainToken_def fun_eq_iff)
  then show ?thesis by (simp add: step6ChainZK_def zk_root_def zk_leaf_def)
qed

end
