(* ===== verification/Spec2Isabelle.thy ===== *)
theory Spec2Isabelle
  imports DecisionProps McpProps Spending ZkDecisions
begin

text \<open>
  Header (to be completed).
\<close>




end
